(* ===== verification/Prelude.thy ===== *)
theory Prelude
  imports Main "HOL-Library.Word" "HOL-Library.Multiset"
begin

text \<open>
  What the components share: the machine types of the sources, the outcomes of a C
  computation that the standard leaves undefined or that stop the process (\<open>fault\<close>), the
  sequencing of computations that may fault, and lemmas on words, division rounded up and
  lists.
\<close>

unbundle bit_operations_syntax

section \<open>Machine types\<close>

type_synonym u8 = "8 word"
type_synonym u16 = "16 word"
type_synonym u32 = "32 word"
type_synonym u64 = "64 word"

text \<open>An address. The null pointer is 0.\<close>

type_synonym ptr = nat

section \<open>Computations that may fault\<close>

text \<open>
  A function of the sources whose execution is undefined, stops the process or never ends
  on some inputs returns a sum: \<open>Inl\<close> names what went wrong, \<open>Inr\<close> carries what the
  function returns.
\<close>

datatype fault =
    Null_Dereference
  | Use_After_Free
  | Out_Of_Bounds
  | Assert_Failed
  | Signed_Overflow
  | Division_By_Zero
  | Bus_Error
  | Undefined_Shift
  | Abort_Called
  | Diverges

type_synonym 'a comp = "fault + 'a"

definition bindC :: "'a comp \<Rightarrow> ('a \<Rightarrow> 'b comp) \<Rightarrow> 'b comp" where
  "bindC m f = (case m of Inl e \<Rightarrow> Inl e | Inr x \<Rightarrow> f x)"

definition assertC :: "bool \<Rightarrow> fault \<Rightarrow> 'b comp \<Rightarrow> 'b comp" where
  "assertC b e k = (if b then k else Inl e)"

text \<open>The value of a signed 32 bit expression; outside the range it is undefined.\<close>

definition cint :: "int \<Rightarrow> int comp" where
  "cint x = (if - (2 ^ 31) \<le> x \<and> x < 2 ^ 31 then Inr x else Inl Signed_Overflow)"

text \<open>The byte at an offset of a buffer, as an integer.\<close>

definition byte_at :: "u8 list \<Rightarrow> int \<Rightarrow> int comp" where
  "byte_at buf p = (if 0 \<le> p \<and> p < int (length buf) then Inr (int (unat (buf ! nat p))) else Inl Out_Of_Bounds)"

definition bytes_at :: "u8 list \<Rightarrow> int \<Rightarrow> nat \<Rightarrow> u8 list comp" where
  "bytes_at buf p n =
     (if 0 \<le> p \<and> p + int n \<le> int (length buf) then Inr (take n (drop (nat p) buf)) else Inl Out_Of_Bounds)"

lemma bindC_simps [simp]: "bindC (Inl e) f = Inl e" "bindC (Inr x) f = f x"
  by (simp_all add: bindC_def)

lemma bindC_Inr_iff: "bindC m f = Inr y \<longleftrightarrow> (\<exists>x. m = Inr x \<and> f x = Inr y)"
  by (cases m) auto

lemma bindC_InrE [elim!]:
  assumes "bindC m f = Inr y"
  obtains x where "m = Inr x" and "f x = Inr y"
  using assms by (auto simp: bindC_Inr_iff)

lemma assertC_True [simp]: "assertC True e k = k"
  by (simp add: assertC_def)

lemma assertC_Inr_iff [simp]: "assertC b e k = Inr y \<longleftrightarrow> b \<and> k = Inr y"
  by (simp add: assertC_def)

lemma cint_Inr_iff: "cint x = Inr y \<longleftrightarrow> y = x \<and> - (2 ^ 31) \<le> x \<and> x < 2 ^ 31"
  by (auto simp: cint_def)

lemma cint_in_range: "- (2 ^ 31) \<le> x \<Longrightarrow> x < 2 ^ 31 \<Longrightarrow> cint x = Inr x"
  by (simp add: cint_def)

lemma cint_nonneg: "0 \<le> x \<Longrightarrow> x < 2147483648 \<Longrightarrow> cint x = Inr x"
  by (simp add: cint_def)

section \<open>Powers of two and masks\<close>

lemma AND_mask_mod:
  fixes w :: u32
  assumes "k < 32"
  shows "unat (w AND (2 ^ k - 1)) = unat w mod 2 ^ k"
proof -
  have "w AND mask k = take_bit k w"
    by (simp add: take_bit_eq_mask)
  then have "unat (w AND mask k) = take_bit k (unat w)"
    by (simp add: unsigned_take_bit_eq)
  then show ?thesis
    by (simp add: mask_eq_exp_minus_1 take_bit_eq_mod)
qed

lemma sint_pow2_u32: "k < 31 \<Longrightarrow> sint (2 ^ k :: u32) = 2 ^ k"
proof -
  assume k: "k < 31"
  then have "(2::nat) ^ k < 2 ^ 31" by (intro power_strict_increasing) auto
  then have lt: "(2::int) ^ k < 2 ^ 31" by (metis of_nat_less_iff of_nat_numeral of_nat_power)
  have "sint (word_of_int (2 ^ k) :: u32) = 2 ^ k"
    unfolding sint_sbintrunc' by (rule signed_take_bit_int_eq_self)
      (use lt in \<open>auto intro: order_trans[of _ 0]\<close>)
  then show ?thesis by simp
qed

lemma unat_pow2_u32: "k < 32 \<Longrightarrow> unat (2 ^ k :: u32) = 2 ^ k"
proof -
  assume "k < 32"
  then have "(2::nat) ^ k < 2 ^ 32" by (intro power_strict_increasing) auto
  then have "unat (word_of_nat (2 ^ k) :: u32) = 2 ^ k" unfolding unat_of_nat by (simp add: mod_less)
  then show ?thesis by simp
qed

section \<open>Lists\<close>

declare mset_filter [simp del]

lemma filter_update_empty:
  assumes "i < length es" "\<not> P (es ! i)" "P e"
  shows "mset (filter P (es[i := e])) = add_mset e (mset (filter P es))"
  using assms
proof (induction es arbitrary: i)
  case (Cons a es)
  then show ?case by (cases i) auto
qed simp

lemma filter_update_same:
  assumes "i < length es" "\<not> P (es ! i)" "\<not> P e"
  shows "filter P (es[i := e]) = filter P es"
  using assms
proof (induction es arbitrary: i)
  case (Cons a es)
  then show ?case by (cases i) auto
qed simp

lemma filter_update_out:
  assumes "i < length es" "P (es ! i)" "\<not> P e"
  shows "add_mset (es ! i) (mset (filter P (es[i := e]))) = mset (filter P es)"
  using assms
proof (induction es arbitrary: i)
  case (Cons a es)
  then show ?case by (cases i) (auto simp: add_mset_commute)
qed simp

section \<open>First index\<close>

lemma least_stop:
  assumes "\<exists>k<n. P k"
  shows "\<exists>k<(n::nat). P k \<and> (\<forall>j<k. \<not> P j)"
proof -
  from assms obtain k0 where k0: "k0 < n" "P k0" by blast
  from k0(2) obtain k where k: "P k" "\<forall>j<k. \<not> P j"
    using exists_least_iff[of P] by blast
  with k0 have "k \<le> k0" using not_le by blast
  with k k0(1) show ?thesis by (intro exI[of _ k]) simp
qed

section \<open>Words and division\<close>

lemma unat_u32_less: "unat (w :: u32) < 4294967296"
  using unsigned_less[where 'a = nat, of w] by simp

lemma unat_add_u32: "unat a + unat b < 4294967296 \<Longrightarrow> unat (a + b :: u32) = unat a + unat b"
  by (simp add: unat_word_ariths(1))

lemma option_eqI: "(\<And>s. a = Some s \<longleftrightarrow> b = Some s) \<Longrightarrow> a = b"
  by (cases a; cases b) auto

lemma ceil_div_pos: "0 < (len::nat) \<Longrightarrow> 0 < bs \<Longrightarrow> 0 < (len + bs - 1) div bs"
  by (simp add: div_greater_zero_iff)

lemma ceil_div_cases:
  fixes len bs :: nat
  assumes "0 < bs"
  shows "(len + bs - 1) div bs = len div bs + (if bs dvd len then 0 else 1)"
proof -
  define q r where "q = len div bs" and "r = len mod bs"
  have len: "len = bs * q + r" unfolding q_def r_def by simp
  have lt: "r < bs" unfolding r_def using assms by simp
  have dvd: "bs dvd len \<longleftrightarrow> r = 0" unfolding r_def by (simp add: dvd_eq_mod_eq_0)
  have "(len + bs - 1) div bs = q + (if r = 0 then 0 else 1)"
  proof (rule div_nat_eqI)
    show "bs * (q + (if r = 0 then 0 else 1)) \<le> len + bs - 1"
      using len lt by (cases "r = 0"; simp; linarith?)
    show "len + bs - 1 < bs * Suc (q + (if r = 0 then 0 else 1))"
      using len lt by (cases "r = 0"; simp; linarith?)
  qed
  then show ?thesis unfolding dvd q_def .
qed

lemma ceil_div_eq_floor:
  "0 < (bs::nat) \<Longrightarrow> (len + bs - 1) div bs \<le> len div bs \<Longrightarrow> bs dvd len"
  using ceil_div_cases[of bs len] by (auto split: if_splits)

lemma ceil_div_dvd: "0 < (bs::nat) \<Longrightarrow> bs dvd len \<Longrightarrow> (len + bs - 1) div bs = len div bs"
  using ceil_div_cases[of bs len] by auto

lemma ceil_div_mult: "0 < (bs::nat) \<Longrightarrow> len \<le> (len + bs - 1) div bs * bs"
proof -
  assume bs: "0 < bs"
  define q r where "q = len div bs" and "r = len mod bs"
  have len: "len = bs * q + r" unfolding q_def r_def by simp
  have lt: "r < bs" unfolding r_def using bs by simp
  have dvd: "bs dvd len \<longleftrightarrow> r = 0" unfolding r_def by (simp add: dvd_eq_mod_eq_0)
  show ?thesis
    unfolding ceil_div_cases[OF bs] dvd q_def[symmetric] using len lt by (simp add: algebra_simps)
qed

lemma word_div_of_nat: "unat r div unat w = n \<Longrightarrow> r div w = (word_of_nat n :: u32)"
  using unat_div_distrib[of r w] by (metis of_nat_unat ucast_id)

lemma sint_eq_unat:
  fixes w :: u32
  assumes "unat w < 2147483648"
  shows "sint w = int (unat w)"
proof -
  have "int (unat w) < 2147483648" using assms by linarith
  then have "uint w < 2147483648" by simp
  moreover have "- 2147483648 \<le> uint w" by (rule order_trans[of _ 0]) simp_all
  ultimately have "signed_take_bit 31 (uint w) = uint w"
    by (intro signed_take_bit_int_eq_self) simp_all
  then show ?thesis unfolding sint_uint by simp
qed

lemma bindC_assoc: "bindC (bindC m f) g = bindC m (\<lambda>x. bindC (f x) g)"
  by (cases m) simp_all

lemma bindC_cong [fundef_cong]: "m = m' \<Longrightarrow> (\<And>x. m' = Inr x \<Longrightarrow> f x = g x) \<Longrightarrow> bindC m f = bindC m' g"
  by (cases m') simp_all

lemma replicate_numeral2: "replicate 2 x = [x, x]"
  by (simp add: numeral_2_eq_2)

lemma take_split: "k \<le> n \<Longrightarrow> take k (drop p xs) @ take (n - k) (drop (p + k) xs) = take n (drop p xs)"
  using take_add[of k "n - k" "drop p xs"] by (simp add: add.commute)

lemma unat_of_nat_u32: "n < 2 ^ 32 \<Longrightarrow> unat (word_of_nat n :: u32) = n"
  by (simp add: unat_of_nat)

lemma sint_of_nat_u32: "n < 2 ^ 31 \<Longrightarrow> sint (word_of_nat n :: u32) = int n"
  using sint_eq_unat[of "word_of_nat n"] unat_of_nat_u32[of n] by simp

lemma int_less_pow32: "int n < 2 ^ 32 \<Longrightarrow> n < 2 ^ 32"
  by simp

lemma take_map_nth: "n \<le> length xs \<Longrightarrow> map (\<lambda>i. f (xs ! i)) [0..<n] = map f (take n xs)"
  by (rule nth_equalityI) simp_all

lemma unat_lo: "unat (ucast (x :: u64) :: u32) = unat x mod 2 ^ 32"
  by (simp add: unsigned_ucast_eq take_bit_eq_mod)

lemma unat_hi: "unat (drop_bit 32 (x :: u64)) = unat x div 2 ^ 32"
  by (simp add: drop_bit_eq_div unat_div_distrib)

lemma unat_up: "unat (ucast (x :: u32) :: u64) = unat x"
  using unat_u32_less[of x] by (simp add: unsigned_ucast_eq take_bit_eq_mod)

lemma unat_mul_add:
  fixes x y c :: u32 and h :: u64
  assumes "unat h < 2 ^ 32"
  shows "unat (h + ucast x * ucast y + ucast c) = unat h + unat x * unat y + unat c"
proof -
  have le: "unat x \<le> 4294967295" "unat y \<le> 4294967295" "unat c \<le> 4294967295" "unat h \<le> 4294967295"
    using unat_u32_less[of x] unat_u32_less[of y] unat_u32_less[of c] assms by simp_all
  define p where "p = unat x * unat y"
  have p: "p \<le> 18446744065119617025" using mult_le_mono[OF le(1,2)] by (simp add: p_def)
  have m: "unat (ucast x * ucast y :: u64) = p"
    unfolding unat_word_ariths(2) unat_up p_def[symmetric] using p by (intro mod_less) simp
  have hp: "unat (h + ucast x * ucast y) = unat h + p"
    unfolding unat_word_ariths(1) m using p le(4) by (intro mod_less) simp
  show ?thesis
    unfolding unat_word_ariths(1)[of "h + ucast x * ucast y"] hp unat_up p_def[symmetric] using p le(3,4)
    by (intro mod_less) simp
qed

lemma hi_less: "unat (x :: u64) div 2 ^ 32 < 2 ^ 32"
  using unsigned_less[where 'a = nat, of x] by (simp add: less_mult_imp_div_less)

lemma unat_u8_less: "unat (w :: u8) < 256"
  using unsigned_less[where 'a = nat, of w] by simp

section \<open>Big-endian numbers\<close>

definition be_val :: "u8 list \<Rightarrow> nat" where
  "be_val b = foldl (\<lambda>v x. v * 256 + unat x) 0 b"

lemma be_val_foldl: "foldl (\<lambda>v x. v * 256 + unat x) k b = k * 256 ^ length b + be_val b"
proof (induction b arbitrary: k)
  case (Cons x b)
  show ?case unfolding be_val_def using Cons[of "k * 256 + unat x"] Cons[of "unat x"]
    by (simp add: algebra_simps)
qed (simp add: be_val_def)

lemma be_val_append: "be_val (a @ b) = be_val a * 256 ^ length b + be_val b"
  using be_val_foldl[of "be_val a" b] by (simp add: be_val_def)

lemma be_val_less: "be_val b < 256 ^ length b"
proof (induction b rule: rev_induct)
  case (snoc x b)
  show ?case using snoc unat_u8_less[of x] by (simp add: be_val_append) (simp add: be_val_def)
qed (simp add: be_val_def)

lemma be_val_inj: "length a = length b \<Longrightarrow> be_val a = be_val b \<Longrightarrow> a = b"
proof (induction a b rule: rev_induct2)
  case (4 x xs y ys)
  have xy: "unat x < 256" "unat y < 256" by (rule unat_u8_less)+
  have e: "be_val xs * 256 + unat x = be_val ys * 256 + unat y"
    using 4(3) by (simp add: be_val_append) (simp add: be_val_def)
  then have "(be_val xs * 256 + unat x) mod 256 = (be_val ys * 256 + unat y) mod 256" by (rule arg_cong)
  then have "unat x = unat y" using xy by simp
  with e have "unat x = unat y" "be_val xs = be_val ys" by simp_all
  then show ?case using 4(1,2) by (simp add: word_unat_eq_iff)
qed simp_all

lemma byte_at_split: "byte_at (xs @ b # ys) (int (length xs)) = Inr (int (unat b))"
  by (simp add: byte_at_def)

lemma be_val_Cons: "be_val (b # xs) = unat b * 256 ^ length xs + be_val xs"
  using be_val_append[of "[b]" xs] by (simp add: be_val_def)

lemma be_val_zeros: "be_val (replicate k 0) = 0"
  by (induction k) (simp_all add: be_val_Cons, simp add: be_val_def)

lemma unat_byte: "n < 256 \<Longrightarrow> unat (of_nat n :: u8) = n"
  by (simp add: unat_of_nat)

end
