(* ===== verification/Minzip_Hash.thy ===== *)
theory Minzip_Hash
  imports Prelude
begin

text \<open>
  The open-addressing hash table of \<^verbatim>\<open>bootable/recovery/minzip/Hash.c\<close> and
  \<^verbatim>\<open>Hash.h\<close>: linear probing with wrap-around, tombstones, and a doubling resize
  above a load of five eighths. A data pointer is an address; the null pointer marks an
  empty slot and \<open>HASH_TOMBSTONE\<close> a deleted one, as in the code.
\<close>

section \<open>Data\<close>

definition HASH_TOMBSTONE :: ptr where
  "HASH_TOMBSTONE = 0xcbcacccd"

record HashEntry =
  hashValue :: u32
  data :: ptr

record HashTable =
  tableSize :: int
  numEntries :: int
  numDeadEntries :: int
  pEntries :: "HashEntry list"
  freeFunc :: ptr

record HashIter =
  iterTable :: HashTable
  idx :: int

definition LOAD_NUMER :: int where "LOAD_NUMER = 5"
definition LOAD_DENOM :: int where "LOAD_DENOM = 8"

text \<open>An entry that \<^verbatim>\<open>calloc\<close> made.\<close>

definition empty_entry :: HashEntry where
  "empty_entry = \<lparr>hashValue = 0, data = 0\<rparr>"

definition live :: "HashEntry \<Rightarrow> bool" where
  "live e \<longleftrightarrow> data e \<noteq> 0 \<and> data e \<noteq> HASH_TOMBSTONE"

section \<open>Operations\<close>

text \<open>\<open>size_t\<close> is 64 bits wide on the targets of the tree; the product wraps.\<close>

definition mzHashSize :: "u64 \<Rightarrow> u64" where
  "mzHashSize n = (n * word_of_int LOAD_DENOM) div word_of_int LOAD_NUMER + 1"

definition roundUpPower2 :: "u32 \<Rightarrow> u32" where
  "roundUpPower2 val0 =
     (let val = val0 - 1;
          val = val OR drop_bit 1 val;
          val = val OR drop_bit 2 val;
          val = val OR drop_bit 4 val;
          val = val OR drop_bit 8 val;
          val = val OR drop_bit 16 val
      in val + 1)"

text \<open>
  \<open>mallocOk\<close> and \<open>callocOk\<close> say whether the two allocations succeed; an allocation of a
  negative number of entries, converted to \<open>size_t\<close>, never does.
\<close>

definition mzHashTableCreate :: "bool \<Rightarrow> bool \<Rightarrow> u64 \<Rightarrow> ptr \<Rightarrow> HashTable option comp" where
  "mzHashTableCreate mallocOk callocOk initialSize ff =
     assertC (initialSize > 0) Assert_Failed
       (if \<not> mallocOk then Inr None
        else let n = sint (roundUpPower2 (ucast initialSize))
             in if callocOk \<and> 0 \<le> n
                then Inr (Some \<lparr>tableSize = n, numEntries = 0, numDeadEntries = 0,
                                pEntries = replicate (nat n) empty_entry, freeFunc = ff\<rparr>)
                else Inr None)"

text \<open>The table after clearing, and the pointers handed to the free function.\<close>

fun clear_entries :: "bool \<Rightarrow> HashEntry list \<Rightarrow> HashEntry list \<times> ptr list" where
  "clear_entries hasFree [] = ([], [])"
| "clear_entries hasFree (e # es) =
     (let (es', freed) = clear_entries hasFree es
      in if data e = HASH_TOMBSTONE then (e\<lparr>data := 0\<rparr> # es', freed)
         else if data e \<noteq> 0
         then (e\<lparr>data := 0\<rparr> # es', if hasFree then data e # freed else freed)
         else (e # es', freed))"

definition mzHashTableClear :: "HashTable \<Rightarrow> HashTable \<times> ptr list" where
  "mzHashTableClear t =
     (let (es, freed) = clear_entries (freeFunc t \<noteq> 0) (pEntries t)
      in (t\<lparr>pEntries := es, numEntries := 0, numDeadEntries := 0\<rparr>, freed))"

text \<open>Freeing a table clears it first; what is left of it is gone.\<close>

definition mzHashTableFree :: "HashTable option \<Rightarrow> ptr list" where
  "mzHashTableFree pt = (case pt of None \<Rightarrow> [] | Some t \<Rightarrow> snd (mzHashTableClear t))"

definition countTombStones :: "HashTable \<Rightarrow> int" where
  "countTombStones t =
     int (length (filter (\<lambda>e. data e = HASH_TOMBSTONE) (take (nat (tableSize t)) (pEntries t))))"

text \<open>The search for a free slot while re-inserting: it wraps by masking.\<close>

partial_function (option) free_slot :: "HashEntry list \<Rightarrow> int \<Rightarrow> nat \<Rightarrow> nat option" where
  "free_slot es newSize newIdx =
     (if data (es ! newIdx) \<noteq> 0
      then free_slot es newSize (unat ((word_of_nat newIdx + 1) AND (word_of_int newSize - 1 :: u32)))
      else Some newIdx)"

fun rehash :: "HashEntry list \<Rightarrow> HashEntry list \<Rightarrow> int \<Rightarrow> HashEntry list comp" where
  "rehash [] new newSize = Inr new"
| "rehash (e # es) new newSize =
     (if data e \<noteq> 0 \<and> data e \<noteq> HASH_TOMBSTONE
      then (case free_slot new newSize (unat (hashValue e AND (word_of_int newSize - 1))) of
              None \<Rightarrow> Inl Diverges
            | Some i \<Rightarrow>
                rehash es (new[i := \<lparr>hashValue = hashValue e, data = data e\<rparr>]) newSize)
      else rehash es new newSize)"

definition resizeHash :: "bool \<Rightarrow> HashTable \<Rightarrow> int \<Rightarrow> (HashTable \<times> bool) comp" where
  "resizeHash callocOk t newSize =
     assertC (countTombStones t = numDeadEntries t) Assert_Failed
       (if \<not> callocOk then Inr (t, False)
        else bindC (rehash (take (nat (tableSize t)) (pEntries t))
                     (replicate (nat newSize) empty_entry) newSize)
               (\<lambda>new. let t' = t\<lparr>pEntries := new, tableSize := newSize, numDeadEntries := 0\<rparr>
                      in assertC (countTombStones t' = 0) Assert_Failed (Inr (t', True))))"

text \<open>
  The probe shared by lookup and removal: step over slots until an empty one or a match,
  wrapping at the end. On a single-entry table the code leaves the pointer one past the
  end; that index is the result here. The loop does not end on a full table without a
  match, which is \<open>None\<close>.
\<close>

partial_function (option) probe ::
    "(HashEntry \<Rightarrow> bool) \<Rightarrow> HashEntry list \<Rightarrow> int \<Rightarrow> nat \<Rightarrow> nat option" where
  "probe match es tsz i =
     (if data (es ! i) = 0 then Some i
      else if match (es ! i) then Some i
      else if int (i + 1) = tsz
      then (if tsz = 1 then Some (i + 1) else probe match es tsz 0)
      else probe match es tsz (i + 1))"

definition first_slot :: "HashTable \<Rightarrow> u32 \<Rightarrow> nat" where
  "first_slot t h = unat (h AND (word_of_int (tableSize t) - 1))"

definition item_match :: "(ptr \<Rightarrow> ptr \<Rightarrow> int) \<Rightarrow> u32 \<Rightarrow> ptr \<Rightarrow> HashEntry \<Rightarrow> bool" where
  "item_match cmpFunc itemHash item e \<longleftrightarrow>
     data e \<noteq> HASH_TOMBSTONE \<and> hashValue e = itemHash \<and> cmpFunc (data e) item = 0"

text \<open>Filling the slot found, with the load test and the resize that may follow.\<close>

definition add_at :: "bool \<Rightarrow> HashTable \<Rightarrow> nat \<Rightarrow> u32 \<Rightarrow> ptr \<Rightarrow> (HashTable \<times> ptr) comp" where
  "add_at callocOk t i itemHash item =
     (let t1 = t\<lparr>pEntries := (pEntries t)[i := \<lparr>hashValue = itemHash, data = item\<rparr>],
                 numEntries := numEntries t + 1\<rparr>
      in bindC (cint ((numEntries t1 + numDeadEntries t1) * LOAD_DENOM)) (\<lambda>used.
         bindC (cint (tableSize t1 * LOAD_NUMER)) (\<lambda>limit.
         bindC (if used > limit
                then bindC (cint (tableSize t1 * 2)) (\<lambda>n.
                     bindC (resizeHash callocOk t1 n) (\<lambda>(t2, ok).
                       if ok then Inr t2 else Inl Abort_Called))
                else Inr t1) (\<lambda>t2.
         assertC (numEntries t2 < tableSize t2) Assert_Failed (Inr (t2, item))))))"

definition mzHashTableLookup ::
    "(ptr \<Rightarrow> ptr \<Rightarrow> int) \<Rightarrow> bool \<Rightarrow> HashTable \<Rightarrow> u32 \<Rightarrow> ptr \<Rightarrow> bool \<Rightarrow> (HashTable \<times> ptr) comp" where
  "mzHashTableLookup cmpFunc callocOk t itemHash item doAdd =
     assertC (tableSize t > 0) Assert_Failed
     (assertC (item \<noteq> HASH_TOMBSTONE) Assert_Failed
     (assertC (item \<noteq> 0) Assert_Failed
       (case probe (item_match cmpFunc itemHash item) (pEntries t) (tableSize t)
               (first_slot t itemHash) of
          None \<Rightarrow> Inl Diverges
        | Some i \<Rightarrow>
            assertC (int i < tableSize t) Out_Of_Bounds
              (if data (pEntries t ! i) = 0
               then if doAdd then add_at callocOk t i itemHash item else Inr (t, 0)
               else Inr (t, data (pEntries t ! i))))))"

definition mzHashTableRemove :: "HashTable \<Rightarrow> u32 \<Rightarrow> ptr \<Rightarrow> (HashTable \<times> bool) comp" where
  "mzHashTableRemove t itemHash item =
     assertC (tableSize t > 0) Assert_Failed
       (case probe (\<lambda>e. data e = item) (pEntries t) (tableSize t) (first_slot t itemHash) of
          None \<Rightarrow> Inl Diverges
        | Some i \<Rightarrow>
            (if int i = tableSize t \<or> data (pEntries t ! i) = 0 then Inr (t, False)
             else Inr (t\<lparr>pEntries := (pEntries t)[i := (pEntries t ! i)\<lparr>data := HASH_TOMBSTONE\<rparr>],
                         numEntries := numEntries t - 1,
                         numDeadEntries := numDeadEntries t + 1\<rparr>, True)))"

text \<open>\<open>func\<close> gets the caller's argument and returns it updated.\<close>

fun foreach_entries :: "(ptr \<Rightarrow> 'a \<Rightarrow> 'a \<times> int) \<Rightarrow> HashEntry list \<Rightarrow> 'a \<Rightarrow> 'a \<times> int" where
  "foreach_entries func [] arg = (arg, 0)"
| "foreach_entries func (e # es) arg =
     (if data e \<noteq> 0 \<and> data e \<noteq> HASH_TOMBSTONE
      then let (arg', val) = func (data e) arg
           in if val \<noteq> 0 then (arg', val) else foreach_entries func es arg'
      else foreach_entries func es arg)"

definition mzHashForeach :: "HashTable \<Rightarrow> (ptr \<Rightarrow> 'a \<Rightarrow> 'a \<times> int) \<Rightarrow> 'a \<Rightarrow> 'a \<times> int" where
  "mzHashForeach t func arg = foreach_entries func (take (nat (tableSize t)) (pEntries t)) arg"

definition mzHashTableNumEntries :: "HashTable \<Rightarrow> int" where
  "mzHashTableNumEntries t = numEntries t"

function next_live :: "HashTable \<Rightarrow> int \<Rightarrow> int" where
  "next_live t i =
     (if i < tableSize t
      then (if data (pEntries t ! nat i) \<noteq> 0 \<and> data (pEntries t ! nat i) \<noteq> HASH_TOMBSTONE
            then i else next_live t (i + 1))
      else i)"
  by pat_completeness auto
termination
  by (relation "measure (\<lambda>(t, i). nat (tableSize t - i))") auto

definition mzHashIterNext :: "HashIter \<Rightarrow> HashIter" where
  "mzHashIterNext it = it\<lparr>idx := next_live (iterTable it) (idx it + 1)\<rparr>"

definition mzHashIterBegin :: "HashTable \<Rightarrow> HashIter" where
  "mzHashIterBegin t = mzHashIterNext \<lparr>iterTable = t, idx = - 1\<rparr>"

definition mzHashIterDone :: "HashIter \<Rightarrow> bool" where
  "mzHashIterDone it \<longleftrightarrow> idx it \<ge> tableSize (iterTable it)"

definition mzHashIterData :: "HashIter \<Rightarrow> ptr comp" where
  "mzHashIterData it =
     assertC (idx it \<ge> 0 \<and> idx it < tableSize (iterTable it)) Assert_Failed
       (Inr (data (pEntries (iterTable it) ! nat (idx it))))"

partial_function (option) probe_count ::
    "(HashEntry \<Rightarrow> bool) \<Rightarrow> HashEntry list \<Rightarrow> int \<Rightarrow> nat \<Rightarrow> int \<Rightarrow> (nat \<times> int) option" where
  "probe_count match es tsz i cnt =
     (if data (es ! i) = 0 then Some (i, cnt)
      else if match (es ! i) then Some (i, cnt)
      else if int (i + 1) = tsz
      then (if tsz = 1 then Some (i + 1, cnt) else probe_count match es tsz 0 (cnt + 1))
      else probe_count match es tsz (i + 1) (cnt + 1))"

definition countProbes :: "(ptr \<Rightarrow> ptr \<Rightarrow> int) \<Rightarrow> HashTable \<Rightarrow> u32 \<Rightarrow> ptr \<Rightarrow> int comp" where
  "countProbes cmpFunc t itemHash item =
     assertC (tableSize t > 0) Assert_Failed
     (assertC (item \<noteq> HASH_TOMBSTONE) Assert_Failed
     (assertC (item \<noteq> 0) Assert_Failed
       (case probe_count (item_match cmpFunc itemHash item) (pEntries t) (tableSize t)
               (first_slot t itemHash) 0 of
          None \<Rightarrow> Inl Diverges
        | Some (i, cnt) \<Rightarrow>
            assertC (int i < tableSize t) Out_Of_Bounds
              (if data (pEntries t ! i) = 0 then Inr (- 1) else Inr cnt))))"

section \<open>Invariant\<close>

text \<open>
  Every live entry is reachable from its home slot over slots that are not empty, the two
  counters count what they say, and the load stays within five eighths. The abstract
  content of a table is the multiset of its live entries; where they sit is not visible.
\<close>

definition chained :: "HashEntry list \<Rightarrow> nat \<Rightarrow> u32 \<Rightarrow> nat \<Rightarrow> bool" where
  "chained es n h i \<longleftrightarrow>
     (\<exists>k<n. i = (unat h + k) mod n \<and> (\<forall>j<k. data (es ! ((unat h + j) mod n)) \<noteq> 0))"

definition slots_ok :: "HashEntry list \<Rightarrow> nat \<Rightarrow> bool" where
  "slots_ok es n \<longleftrightarrow>
     length es = n \<and> (\<forall>i<n. live (es ! i) \<longrightarrow> chained es n (hashValue (es ! i)) i)"

definition dead :: "HashEntry \<Rightarrow> bool" where
  "dead e \<longleftrightarrow> data e = HASH_TOMBSTONE"

definition live_entries :: "HashTable \<Rightarrow> HashEntry multiset" where
  "live_entries t = mset (filter live (pEntries t))"

definition ht_inv :: "HashTable \<Rightarrow> bool" where
  "ht_inv t \<longleftrightarrow>
     (\<exists>k\<le>30. tableSize t = 2 ^ k) \<and>
     slots_ok (pEntries t) (nat (tableSize t)) \<and>
     numEntries t = int (length (filter live (pEntries t))) \<and>
     numDeadEntries t = int (length (filter dead (pEntries t))) \<and>
     (numEntries t + numDeadEntries t) * LOAD_DENOM \<le> tableSize t * LOAD_NUMER"

section \<open>Probing\<close>

lemma tombstone_nonzero [simp]: "HASH_TOMBSTONE \<noteq> 0" "0 \<noteq> HASH_TOMBSTONE"
  by (simp_all add: HASH_TOMBSTONE_def)

lemma live_empty_entry [simp]: "\<not> live empty_entry" "\<not> dead empty_entry" "data empty_entry = 0"
  by (simp_all add: empty_entry_def live_def dead_def)

lemma nonempty_slots:
  "length (filter (\<lambda>e. data e \<noteq> 0) es) = length (filter live es) + length (filter dead es)"
  by (induction es) (auto simp: live_def dead_def)

lemma mod_pow2_step:
  fixes n :: nat
  assumes "s < n"
  shows "(if s + 1 = n then 0 else s + 1) = (s + 1) mod n"
  using assms by auto

text \<open>The probe stops at the first slot that is empty or matches.\<close>

lemma probe_first:
  assumes "s < n" "length es = n" "n > 1 \<or> k = 0"
    and "\<And>j. j < k \<Longrightarrow> data (es ! ((s + j) mod n)) \<noteq> 0 \<and> \<not> m (es ! ((s + j) mod n))"
    and "data (es ! ((s + k) mod n)) = 0 \<or> m (es ! ((s + k) mod n))"
  shows "probe m es (int n) s = Some ((s + k) mod n)"
  using assms
proof (induction k arbitrary: s)
  case 0
  then show ?case by (subst probe.simps) auto
next
  case (Suc k)
  let ?s' = "(s + 1) mod n"
  have here: "data (es ! s) \<noteq> 0" "\<not> m (es ! s)"
    using Suc.prems(1) Suc.prems(4)[of 0] by auto
  have shift: "(?s' + j) mod n = (s + Suc j) mod n" for j
    by (simp add: mod_add_left_eq)
  have n1: "n > 1" using Suc.prems(3) by simp
  have IH: "probe m es (int n) ?s' = Some ((?s' + k) mod n)"
  proof (rule Suc.IH)
    show "?s' < n" using n1 by simp
    show "length es = n" by fact
    show "n > 1 \<or> k = 0" using n1 by simp
    show "data (es ! ((?s' + j) mod n)) \<noteq> 0 \<and> \<not> m (es ! ((?s' + j) mod n))" if "j < k" for j
      using Suc.prems(4)[of "Suc j"] that by (simp only: shift) simp
    show "data (es ! ((?s' + k) mod n)) = 0 \<or> m (es ! ((?s' + k) mod n))"
      using Suc.prems(5) by (simp only: shift)
  qed
  have "probe m es (int n) s = probe m es (int n) ?s'"
    using here n1 Suc.prems(1) mod_pow2_step[OF Suc.prems(1)]
    by (subst probe.simps) (auto split: if_splits)
  then show ?case by (simp only: IH shift)
qed

text \<open>A table within its load has an empty slot, at some distance from any start.\<close>

lemma empty_slot_ahead:
  assumes "length es = n" "length (filter (\<lambda>e. data e \<noteq> 0) es) < n" "s < n"
  shows "\<exists>k<n. data (es ! ((s + k) mod n)) = 0"
proof -
  have "\<exists>i<n. data (es ! i) = 0"
  proof (rule ccontr)
    assume "\<not> ?thesis"
    then have "\<forall>e \<in> set es. data e \<noteq> 0"
      using assms(1) by (metis in_set_conv_nth)
    then have "filter (\<lambda>e. data e \<noteq> 0) es = es" by simp
    with assms(1,2) show False by simp
  qed
  then obtain i where i: "i < n" "data (es ! i) = 0" by blast
  let ?k = "(i + (n - s)) mod n"
  have "(s + ?k) mod n = (s + (i + (n - s))) mod n" by (simp add: mod_add_right_eq)
  also have "\<dots> = (i + n) mod n" using assms(3) by simp
  also have "\<dots> = i" using i by simp
  finally have "(s + ?k) mod n = i" .
  with i assms(3) show ?thesis by (intro exI[of _ ?k]) simp
qed

text \<open>
  What a probe from the home slot of \<open>h\<close> finds: the end of the chain, or the first match;
  a matching live entry of hash \<open>h\<close> is never missed.
\<close>

lemma probe_result:
  assumes ok: "slots_ok es n" and room: "length (filter (\<lambda>e. data e \<noteq> 0) es) < n"
  obtains i where "probe m es (int n) (unat h mod n) = Some i" "i < n" "chained es n h i"
    "data (es ! i) = 0 \<or> m (es ! i)"
    "data (es ! i) = 0 \<Longrightarrow> \<forall>i'<n. chained es n h i' \<and> data (es ! i') \<noteq> 0 \<longrightarrow> \<not> m (es ! i')"
proof -
  have len: "length es = n" using ok by (simp add: slots_ok_def)
  have n0: "n > 0" using room by simp
  define s where "s = unat h mod n"
  have s: "s < n" using n0 by (simp add: s_def)
  have shift: "(unat h + j) mod n = (s + j) mod n" for j
    by (simp add: s_def mod_add_left_eq)
  let ?P = "\<lambda>k. data (es ! ((s + k) mod n)) = 0 \<or> m (es ! ((s + k) mod n))"
  have "\<exists>k<n. ?P k"
    using empty_slot_ahead[OF len room s] by blast
  from least_stop[OF this] obtain k where k: "k < n" "?P k" "\<forall>j<k. \<not> ?P j"
    by blast
  let ?i = "(s + k) mod n"
  have k1: "n > 1 \<or> k = 0" using k(1) by linarith
  have skip: "data (es ! ((s + j) mod n)) \<noteq> 0 \<and> \<not> m (es ! ((s + j) mod n))" if "j < k" for j
    using k(3)[rule_format, OF that] by simp
  have res: "probe m es (int n) (unat h mod n) = Some ?i"
    unfolding s_def[symmetric] by (rule probe_first[OF s len k1 skip k(2)])
  have lt: "?i < n" using n0 by simp
  have ch: "chained es n h ?i"
    unfolding chained_def shift using k(1) skip by (intro exI[of _ k]) simp
  have none: "\<not> m (es ! i')"
    if "data (es ! ?i) = 0" "chained es n h i'" "data (es ! i') \<noteq> 0" for i'
  proof -
    from that(2) obtain k' where k': "k' < n" "i' = (s + k') mod n"
      "\<forall>j<k'. data (es ! ((s + j) mod n)) \<noteq> 0"
      unfolding chained_def shift by blast
    have "\<not> k < k'" using k'(3) that(1) by (metis (no_types))
    moreover have "k \<noteq> k'" using k'(2) that(1,3) by (metis (no_types))
    ultimately have "k' < k" by linarith
    with skip k'(2) show ?thesis by simp
  qed
  show thesis
    by (rule that[OF res lt ch k(2)]) (intro allI impI, elim conjE, rule none)
qed

lemma first_slot_mod:
  assumes "tableSize t = 2 ^ k" "k \<le> 31"
  shows "first_slot t h = unat h mod 2 ^ k"
proof -
  have "(word_of_int (2 ^ k) :: u32) = 2 ^ k" by simp
  then show ?thesis
    using AND_mask_mod[of k h] assms by (simp add: first_slot_def)
qed

lemma chained_nonempty_mono:
  assumes "chained es n h i" "length es = n" "\<And>j. j < n \<Longrightarrow> data (es ! j) \<noteq> 0 \<Longrightarrow> data (es' ! j) \<noteq> 0"
  shows "chained es' n h i"
proof -
  from assms(1) obtain k where k: "k < n" "i = (unat h + k) mod n"
    "\<forall>j<k. data (es ! ((unat h + j) mod n)) \<noteq> 0"
    unfolding chained_def by blast
  then have "n > 0" by simp
  then have "data (es' ! ((unat h + j) mod n)) \<noteq> 0" if "j < k" for j
    using assms(3)[of "(unat h + j) mod n"] k(3)[rule_format, OF that] by simp
  with k(1,2) show ?thesis unfolding chained_def by (intro exI[of _ k]) simp
qed

lemma slots_ok_update:
  assumes "slots_ok es n" "i < n" "data e \<noteq> 0"
    and "live e \<Longrightarrow> chained es n (hashValue e) i"
  shows "slots_ok (es[i := e]) n"
proof -
  have len: "length es = n" using assms(1) by (simp add: slots_ok_def)
  have mono: "data (es[i := e] ! j) \<noteq> 0" if "j < n" "data (es ! j) \<noteq> 0" for j
    using that assms(2,3) len by (cases "j = i") auto
  have "chained (es[i := e]) n (hashValue (es[i := e] ! j)) j" if "j < n" "live (es[i := e] ! j)" for j
  proof (cases "j = i")
    case True
    with that assms(2,4) len have "chained es n (hashValue e) i" by simp
    then show ?thesis
      using True assms(2) len chained_nonempty_mono[OF _ len mono] by simp
  next
    case False
    with that have "chained es n (hashValue (es ! j)) j"
      using assms(1) by (simp add: slots_ok_def)
    then show ?thesis
      using False chained_nonempty_mono[OF _ len mono] by simp
  qed
  then show ?thesis by (simp add: slots_ok_def len)
qed

lemma free_slot_probe:
  assumes "k \<ge> 1" "k \<le> 31" "s < 2 ^ k"
    and "probe (\<lambda>_. False) es (2 ^ k) s = Some i"
  shows "free_slot es (2 ^ k) s = Some i"
proof -
  have step: "unat ((word_of_nat s + 1) AND (word_of_int (2 ^ k) - 1 :: u32)) =
      (if int (s + 1) = 2 ^ k then 0 else s + 1)" if "s < 2 ^ k" for s
  proof -
    have le: "(2::nat) ^ k \<le> 2 ^ 31" using assms(2) by (intro power_increasing) auto
    have "s + 1 < 2 ^ 32" using that le by simp
    then have "unat (word_of_nat (s + 1) :: u32) = s + 1"
      by (simp only: unat_of_nat) simp
    then have "unat (word_of_nat s + 1 :: u32) = s + 1"
      by (simp add: add.commute)
    then have "unat ((word_of_nat s + 1) AND (word_of_int (2 ^ k) - 1 :: u32)) = (s + 1) mod 2 ^ k"
      using AND_mask_mod[of k "word_of_nat s + 1"] assms(2) by simp
    also have "\<dots> = (if int (s + 1) = 2 ^ k then 0 else s + 1)"
      using that mod_pow2_step[of s "2 ^ k"]
      by (metis of_nat_eq_iff of_nat_numeral of_nat_power)
    finally show ?thesis .
  qed
  have "(1::int) < 2 ^ k" using assms(1) by (intro one_less_power) auto
  then have n1: "(2::int) ^ k \<noteq> 1" by simp
  have "((\<lambda>_. False) :: HashEntry \<Rightarrow> bool) = (\<lambda>_. False) \<and> (2::int) ^ k = 2 ^ k \<and> s < 2 ^ k \<longrightarrow> free_slot es (2 ^ k) s = Some i"
  proof (rule probe.raw_induct[where P = "\<lambda>m es n s i. m = (\<lambda>_. False) \<and> n = 2 ^ k \<and> s < 2 ^ k \<longrightarrow>
        free_slot es (2 ^ k) s = Some i", OF _ assms(4)])
    fix p :: "(HashEntry \<Rightarrow> bool) \<Rightarrow> HashEntry list \<Rightarrow> int \<Rightarrow> nat \<Rightarrow> nat option" and m es n s i
    assume IH: "\<And>m es n s i. p m es n s = Some i \<Longrightarrow> m = (\<lambda>_. False) \<and> n = 2 ^ k \<and> s < 2 ^ k \<longrightarrow>
        free_slot es (2 ^ k) s = Some i"
      and eq: "(if data (es ! s) = 0 then Some s else if m (es ! s) then Some s
         else if int (s + 1) = n then if n = 1 then Some (s + 1) else p m es n 0
         else p m es n (s + 1)) = Some i"
    show "m = (\<lambda>_. False) \<and> n = 2 ^ k \<and> s < 2 ^ k \<longrightarrow> free_slot es (2 ^ k) s = Some i"
    proof (intro impI, cases "data (es ! s) = 0")
      case True
      with eq show "free_slot es (2 ^ k) s = Some i" by (subst free_slot.simps) simp
    next
      case False
      assume h: "m = (\<lambda>_. False) \<and> n = 2 ^ k \<and> s < 2 ^ k"
      let ?s' = "if int (s + 1) = 2 ^ k then 0 else s + 1"
      have "p m es n ?s' = Some i"
        using eq False h n1 by (simp split: if_splits)
      moreover have "?s' < 2 ^ k"
      proof -
        have "s + 1 \<noteq> 2 ^ k" if "int (s + 1) \<noteq> 2 ^ k"
          using that by (metis of_nat_numeral of_nat_power)
        then show ?thesis using h by auto
      qed
      ultimately have "free_slot es (2 ^ k) ?s' = Some i"
        using IH h by blast
      moreover have "free_slot es (2 ^ k) s = free_slot es (2 ^ k) ?s'"
        unfolding step[OF h[THEN conjunct2, THEN conjunct2], symmetric]
        by (subst free_slot.simps, rule if_P) (use False in simp)
      ultimately show "free_slot es (2 ^ k) s = Some i" by simp
    qed
  qed
  then show ?thesis using assms(3) by simp
qed

section \<open>Rounding up to a power of two\<close>

lemma smear_step:
  fixes v w :: u32
  assumes "\<And>n. bit w n \<longleftrightarrow> (\<exists>j<d. bit v (n + j))"
  shows "bit (w OR drop_bit d w) n \<longleftrightarrow> (\<exists>j<d + d. bit v (n + j))"
proof -
  have "bit (w OR drop_bit d w) n \<longleftrightarrow> (\<exists>j<d. bit v (n + j)) \<or> (\<exists>j<d. bit v (d + n + j))"
    by (simp add: bit_or_iff bit_drop_bit_eq assms)
  also have "\<dots> \<longleftrightarrow> (\<exists>j<d + d. bit v (n + j))"
  proof (intro iffI; elim disjE exE conjE)
    fix j assume "j < d" "bit v (n + j)"
    then show "\<exists>j<d + d. bit v (n + j)" by (intro exI[of _ j]) simp
  next
    fix j assume "j < d" "bit v (d + n + j)"
    then show "\<exists>j<d + d. bit v (n + j)" by (intro exI[of _ "d + j"]) (simp add: ac_simps)
  next
    fix j assume j: "j < d + d" "bit v (n + j)"
    show "(\<exists>j<d. bit v (n + j)) \<or> (\<exists>j<d. bit v (d + n + j))"
    proof (cases "j < d")
      case True
      with j(2) show ?thesis by blast
    next
      case False
      with j have "j - d < d" "bit v (d + n + (j - d))" by (auto simp: ac_simps)
      then show ?thesis by blast
    qed
  qed
  finally show ?thesis .
qed

lemma smear_bit:
  fixes v :: u32
  defines "v1 \<equiv> v OR drop_bit 1 v"
  defines "v2 \<equiv> v1 OR drop_bit 2 v1"
  defines "v3 \<equiv> v2 OR drop_bit 4 v2"
  defines "v4 \<equiv> v3 OR drop_bit 8 v3"
  defines "v5 \<equiv> v4 OR drop_bit 16 v4"
  shows "bit v5 n \<longleftrightarrow> (\<exists>m\<ge>n. bit v m)"
proof -
  have 0: "bit v n \<longleftrightarrow> (\<exists>j<1. bit v (n + j))" for n by simp
  have 1: "bit v1 n \<longleftrightarrow> (\<exists>j<2. bit v (n + j))" for n
    unfolding v1_def using smear_step[OF 0] by (metis one_add_one)
  have 2: "bit v2 n \<longleftrightarrow> (\<exists>j<4. bit v (n + j))" for n
    unfolding v2_def using smear_step[OF 1] by simp
  have 3: "bit v3 n \<longleftrightarrow> (\<exists>j<8. bit v (n + j))" for n
    unfolding v3_def using smear_step[OF 2] by simp
  have 4: "bit v4 n \<longleftrightarrow> (\<exists>j<16. bit v (n + j))" for n
    unfolding v4_def using smear_step[OF 3] by simp
  have 5: "bit v5 n \<longleftrightarrow> (\<exists>j<32. bit v (n + j))"
    unfolding v5_def using smear_step[OF 4] by simp
  show ?thesis
  proof
    assume "bit v5 n"
    with 5 show "\<exists>m\<ge>n. bit v m" by (metis le_add1)
  next
    assume "\<exists>m\<ge>n. bit v m"
    then obtain m where m: "m \<ge> n" "bit v m" by blast
    then have "m < 32" using bit_imp_le_length[OF m(2)] by simp
    with m have "m - n < 32" "bit v (n + (m - n))" by auto
    then show "bit v5 n" using 5 by blast
  qed
qed

lemma roundUpPower2_pow2:
  assumes "0 < unat v" "unat v \<le> 2 ^ 31"
  obtains k where "k \<le> 31" "roundUpPower2 v = 2 ^ k" "unat v \<le> 2 ^ k"
    "\<And>j. unat v \<le> 2 ^ j \<Longrightarrow> k \<le> j"
proof -
  let ?w = "v - 1"
  have w: "unat ?w = unat v - 1" using assms(1) by (simp add: unat_minus_one unat_gt_0)
  define L where "L = (LEAST l. unat ?w < 2 ^ l)"
  have ex: "unat ?w < 2 ^ 31" using w assms by simp
  have L1: "unat ?w < 2 ^ L" unfolding L_def using ex by (rule LeastI)
  have L2: "L \<le> j" if "unat ?w < 2 ^ j" for j unfolding L_def using that by (rule Least_le)
  have L31: "L \<le> 31" using L2 ex .
  have high: "(\<exists>m\<ge>n. bit ?w m) \<longleftrightarrow> n < L" for n
  proof
    assume "\<exists>m\<ge>n. bit ?w m"
    then obtain m where m: "m \<ge> n" "bit ?w m" by blast
    show "n < L"
    proof (rule ccontr)
      assume "\<not> n < L"
      then have "(2::nat) ^ L \<le> 2 ^ m" using m by (intro power_increasing) auto
      with L1 have "unat ?w < 2 ^ m" by (rule less_le_trans)
      then have "unat ?w div 2 ^ m = 0" by (rule div_less)
      moreover have "bit (unat ?w) m" using m(2) by (simp add: bit_unsigned_iff)
      ultimately show False by (simp add: bit_iff_odd)
    qed
  next
    assume n: "n < L"
    then have "\<not> unat ?w < 2 ^ (L - 1)" using L2[of "L - 1"] by linarith
    moreover have "unat ?w < 2 * 2 ^ (L - 1)" using L1 n by (simp add: power_Suc[symmetric] del: power_Suc)
    ultimately have "unat ?w div 2 ^ (L - 1) = 1"
      by (intro div_nat_eqI) auto
    then have "bit (unat ?w) (L - 1)" by (simp add: bit_iff_odd)
    then have "bit ?w (L - 1)" by (simp add: bit_unsigned_iff)
    then show "\<exists>m\<ge>n. bit ?w m" using n by (intro exI[of _ "L - 1"]) auto
  qed
  have "roundUpPower2 v = mask L + 1"
    unfolding roundUpPower2_def Let_def
  proof (rule arg_cong[where f = "\<lambda>x. x + 1"], rule bit_word_eqI, goal_cases)
    case (1 n)
    then show ?case by (simp only: smear_bit high bit_mask_iff) simp
  qed
  then have "roundUpPower2 v = 2 ^ L" by (simp add: mask_eq_exp_minus_1)
  moreover have "unat v \<le> 2 ^ L" using w L1 assms(1) by linarith
  moreover have "L \<le> j" if "unat v \<le> 2 ^ j" for j using that w assms(1) by (intro L2) simp
  ultimately show thesis using L31 that by blast
qed

section \<open>Resizing and insertion\<close>

text \<open>
  Inserting at the end of a chain: what the slot search, on a table with room, hands to
  the code that fills the slot.
\<close>

lemma insert_slot:
  assumes "slots_ok es n" "i < n" "data (es ! i) = 0" "chained es n (hashValue e) i" "live e"
  shows "slots_ok (es[i := e]) n"
    and "mset (filter live (es[i := e])) = add_mset e (mset (filter live es))"
    and "filter dead (es[i := e]) = filter dead es"
proof -
  have len: "i < length es" using assms(1,2) by (simp add: slots_ok_def)
  have nl: "\<not> live (es ! i)" "\<not> dead (es ! i)" "\<not> dead e"
    using assms(3,5) by (auto simp: live_def dead_def)
  show "slots_ok (es[i := e]) n"
    using assms by (intro slots_ok_update) (auto simp: live_def)
  show "mset (filter live (es[i := e])) = add_mset e (mset (filter live es))"
    using len nl assms(5) by (intro filter_update_empty)
  show "filter dead (es[i := e]) = filter dead es"
    using len nl by (intro filter_update_same)
qed

lemma slots_ok_replicate: "slots_ok (replicate n empty_entry) n"
  by (simp add: slots_ok_def)

lemma filter_replicate_empty [simp]:
  "filter live (replicate n empty_entry) = []" "filter dead (replicate n empty_entry) = []"
  by simp_all

lemma rehash_spec:
  assumes "k \<ge> 1" "k \<le> 31" "slots_ok new (2 ^ k)" "filter dead new = []"
    and "length (filter live new) + length (filter live es) < 2 ^ k"
  shows "\<exists>new'. rehash es new (2 ^ k) = Inr new' \<and> slots_ok new' (2 ^ k) \<and> filter dead new' = [] \<and>
           mset (filter live new') = mset (filter live new) + mset (filter live es)"
  using assms(3-)
proof (induction es arbitrary: new)
  case Nil
  then show ?case by simp
next
  case (Cons e es)
  show ?case
  proof (cases "live e")
    case False
    then have "rehash (e # es) new (2 ^ k) = rehash es new (2 ^ k)"
      by (auto simp: live_def)
    with Cons False show ?thesis by simp
  next
    case True
    have used: "length (filter (\<lambda>e. data e \<noteq> 0) new) < 2 ^ k"
      unfolding nonempty_slots using Cons.prems True by simp
    have n1: "(1::nat) < 2 ^ k" using assms(1) by (intro one_less_power) auto
    obtain i where i: "probe (\<lambda>_. False) new (int (2 ^ k)) (unat (hashValue e) mod 2 ^ k) = Some i"
      "i < 2 ^ k" "chained new (2 ^ k) (hashValue e) i" "data (new ! i) = 0"
      using probe_result[OF Cons.prems(1) used, of "\<lambda>_. False" "hashValue e"] n1 by auto
    have home: "unat (hashValue e AND (word_of_int (2 ^ k) - 1)) = unat (hashValue e) mod 2 ^ k"
      using AND_mask_mod[of k "hashValue e"] assms(2) by simp
    have fs: "free_slot new (2 ^ k) (unat (hashValue e AND (word_of_int (2 ^ k) - 1))) = Some i"
      unfolding home using i(1) assms(1,2) by (intro free_slot_probe) auto
    have e: "\<lparr>hashValue = hashValue e, data = data e\<rparr> = e" by simp
    note ins = insert_slot[OF Cons.prems(1) i(2,4,3) True]
    have len: "length (filter live (new[i := e])) = Suc (length (filter live new))"
      using arg_cong[OF ins(2), of size] by (simp only: size_mset size_add_mset)
    have "\<exists>new'. rehash es (new[i := e]) (2 ^ k) = Inr new' \<and> slots_ok new' (2 ^ k) \<and>
        filter dead new' = [] \<and>
        mset (filter live new') = mset (filter live (new[i := e])) + mset (filter live es)"
      using ins Cons.prems True len by (intro Cons.IH) auto
    moreover have "rehash (e # es) new (2 ^ k) = rehash es (new[i := e]) (2 ^ k)"
      using True fs by (simp add: live_def e)
    ultimately show ?thesis using True by (simp only: ins(2) filter.simps if_True mset.simps) simp
  qed
qed

lemma countTombStones_inv:
  assumes "length (pEntries t) = nat (tableSize t)"
  shows "countTombStones t = int (length (filter dead (pEntries t)))"
  using assms by (simp add: countTombStones_def dead_def[abs_def])

lemma resizeHash_spec:
  assumes "tableSize t = 2 ^ k" "k \<le> 30" "length (pEntries t) = 2 ^ k"
    and "numDeadEntries t = int (length (filter dead (pEntries t)))"
    and "length (filter live (pEntries t)) < 2 ^ (k + 1)"
  obtains es where "resizeHash True t (2 ^ (k + 1)) =
      Inr (t\<lparr>pEntries := es, tableSize := 2 ^ (k + 1), numDeadEntries := 0\<rparr>, True)"
    "slots_ok es (2 ^ (k + 1))" "filter dead es = []"
    "mset (filter live es) = mset (filter live (pEntries t))"
proof -
  have n: "nat (tableSize t) = 2 ^ k" "nat (2 ^ (k + 1)) = 2 ^ (k + 1)"
    using assms(1) by (simp_all add: nat_power_eq nat_mult_distrib)
  have ct: "countTombStones t = numDeadEntries t"
    using assms n by (simp add: countTombStones_inv)
  from rehash_spec[of "k + 1" "replicate (2 ^ (k + 1)) empty_entry" "pEntries t"]
  obtain es where es: "rehash (pEntries t) (replicate (2 ^ (k + 1)) empty_entry) (2 ^ (k + 1)) = Inr es"
    "slots_ok es (2 ^ (k + 1))" "filter dead es = []"
    "mset (filter live es) = mset (filter live (pEntries t))"
    using assms by (auto simp: slots_ok_replicate)
  have "countTombStones (t\<lparr>pEntries := es, tableSize := 2 ^ (k + 1), numDeadEntries := 0\<rparr>) = 0"
    using es(2,3) n by (subst countTombStones_inv) (auto simp: slots_ok_def)
  with es ct n assms(3) have "resizeHash True t (2 ^ (k + 1)) =
      Inr (t\<lparr>pEntries := es, tableSize := 2 ^ (k + 1), numDeadEntries := 0\<rparr>, True)"
    by (simp add: resizeHash_def Let_def)
  then show thesis using es by (intro that)
qed

lemma load_room: "(a::nat) * 8 \<le> p * 5 \<Longrightarrow> 0 < p \<Longrightarrow> a < p"
  by linarith

lemma load_room_int: "(a + d) * 8 \<le> p * 5 \<Longrightarrow> 0 < p \<Longrightarrow> 0 \<le> d \<Longrightarrow> a < (p::int)"
  by presburger

lemma load_over: "p * 5 < a * 8 \<Longrightarrow> 0 < p \<Longrightarrow> 2 * p \<le> 4 * (a::int)"
  by presburger

lemma ht_invE:
  assumes "ht_inv t"
  obtains k where "k \<le> 30" "tableSize t = 2 ^ k" "nat (tableSize t) = 2 ^ k" "tableSize t = int (2 ^ k)"
    "slots_ok (pEntries t) (2 ^ k)" "length (pEntries t) = 2 ^ k"
    "numEntries t = int (length (filter live (pEntries t)))"
    "numDeadEntries t = int (length (filter dead (pEntries t)))"
    "(numEntries t + numDeadEntries t) * 8 \<le> 2 ^ k * 5"
    "length (filter (\<lambda>e. data e \<noteq> 0) (pEntries t)) < 2 ^ k"
proof -
  from assms obtain k where k: "k \<le> 30" "tableSize t = 2 ^ k" unfolding ht_inv_def by blast
  have n: "nat (tableSize t) = 2 ^ k" using k(2) by (simp add: nat_power_eq)
  have s: "slots_ok (pEntries t) (2 ^ k)" and ne: "numEntries t = int (length (filter live (pEntries t)))"
    and nd: "numDeadEntries t = int (length (filter dead (pEntries t)))"
    and ld: "(numEntries t + numDeadEntries t) * 8 \<le> 2 ^ k * 5"
    using assms n k(2) unfolding ht_inv_def LOAD_NUMER_def LOAD_DENOM_def by (auto simp: nat_power_eq)
  have "length (filter (\<lambda>e. data e \<noteq> 0) (pEntries t)) < 2 ^ k"
  proof -
    have "int (length (filter live (pEntries t)) + length (filter dead (pEntries t))) * 8 \<le> int (2 ^ k) * 5"
      using ld ne nd by simp
    then have "(length (filter live (pEntries t)) + length (filter dead (pEntries t))) * 8 \<le> 2 ^ k * 5"
      by (metis of_nat_le_iff of_nat_mult of_nat_numeral)
    moreover have "(2::nat) ^ k > 0" by simp
    ultimately show ?thesis unfolding nonempty_slots by (rule load_room)
  qed
  with k n s ne nd ld show thesis by (intro that[of k]) (auto simp: slots_ok_def)
qed

lemma ht_invI:
  assumes "k \<le> 30" "tableSize t = 2 ^ k" "slots_ok (pEntries t) (2 ^ k)"
    and "numEntries t = int (length (filter live (pEntries t)))"
    and "numDeadEntries t = int (length (filter dead (pEntries t)))"
    and "(numEntries t + numDeadEntries t) * 8 \<le> 2 ^ k * 5"
  shows "ht_inv t"
  using assms unfolding ht_inv_def LOAD_NUMER_def LOAD_DENOM_def
  by (auto simp: nat_power_eq)

lemma live_entries_nth:
  "e \<in># live_entries t \<longleftrightarrow> (\<exists>i<length (pEntries t). pEntries t ! i = e) \<and> live e"
  by (auto simp: live_entries_def in_set_conv_nth)

lemma size_live_entries: "ht_inv t \<Longrightarrow> int (size (live_entries t)) = numEntries t"
  by (simp add: ht_inv_def live_entries_def)

lemma add_at_spec:
  assumes inv: "ht_inv t" and small: "tableSize t \<le> 2 ^ 28"
    and slot: "int i < tableSize t" "data (pEntries t ! i) = 0"
      "chained (pEntries t) (nat (tableSize t)) h i"
    and item: "item \<noteq> 0" "item \<noteq> HASH_TOMBSTONE"
  shows "\<exists>t'. add_at True t i h item = Inr (t', item) \<and> ht_inv t' \<and>
           live_entries t' = add_mset \<lparr>hashValue = h, data = item\<rparr> (live_entries t) \<and>
           tableSize t' \<le> max (tableSize t) (4 * (numEntries t' + numDeadEntries t)) \<and>
           numDeadEntries t' \<le> numDeadEntries t"
proof -
  from inv obtain k where k: "k \<le> 30" "tableSize t = 2 ^ k" "nat (tableSize t) = 2 ^ k"
    "tableSize t = int (2 ^ k)"
    "slots_ok (pEntries t) (2 ^ k)" "length (pEntries t) = 2 ^ k"
    "numEntries t = int (length (filter live (pEntries t)))"
    "numDeadEntries t = int (length (filter dead (pEntries t)))"
    "(numEntries t + numDeadEntries t) * 8 \<le> 2 ^ k * 5"
    "length (filter (\<lambda>e. data e \<noteq> 0) (pEntries t)) < 2 ^ k" by (rule ht_invE)
  let ?e = "\<lparr>hashValue = h, data = item\<rparr>"
  let ?es = "(pEntries t)[i := ?e]"
  let ?t1 = "t\<lparr>pEntries := ?es, numEntries := numEntries t + 1\<rparr>"
  have i: "i < 2 ^ k" using slot(1) k(4) by linarith
  have le: "live ?e" using item by (simp add: live_def)
  have chain: "chained (pEntries t) (2 ^ k) (hashValue ?e) i" using slot(3) k(3) by simp
  note ins = insert_slot[OF k(5) i slot(2) chain le]
  have len: "length (filter live ?es) = Suc (length (filter live (pEntries t)))"
    using arg_cong[OF ins(2), of size] by (simp only: size_mset size_add_mset)
  have bag: "live_entries t' = add_mset ?e (live_entries t)"
    if "mset (filter live (pEntries t')) = mset (filter live ?es)" for t'
    using that ins(2) by (simp add: live_entries_def)
  have k28: "(2::int) ^ k \<le> 268435456" using small k(2) by simp
  let ?used = "(numEntries t + 1 + numDeadEntries t) * 8"
  have nn: "numEntries t \<ge> 0" "numDeadEntries t \<ge> 0" using k(7,8) by simp_all
  have p0: "(0::int) < 2 ^ k" by simp
  have r1: "cint ?used = Inr ?used" using k(9) k28 nn by (simp add: cint_def)
  have r2: "cint (2 ^ k * 5) = Inr (2 ^ k * 5)" by (rule cint_nonneg) (use k28 in simp_all)
  show ?thesis
  proof (cases "?used > 2 ^ k * 5")
    case False
    have "ht_inv ?t1"
      using k(1,2,7,8) ins len False by (intro ht_invI[of k]) auto
    moreover have "numEntries t + 1 < 2 ^ k"
      using False by (intro load_room_int[OF _ p0 nn(2)]) simp
    ultimately show ?thesis
      using False r1 r2 k(2) bag[of ?t1]
      by (intro exI[of _ ?t1]) (simp add: add_at_def Let_def LOAD_NUMER_def LOAD_DENOM_def)
  next
    case True
    have r3: "cint (2 ^ k * 2) = Inr (2 ^ (k + 1))" by (subst cint_nonneg) (use k28 in simp_all)
    have "length (filter live ?es) < 2 ^ (k + 1)"
      using len k(10) unfolding nonempty_slots by simp
    then obtain es where es: "resizeHash True ?t1 (2 ^ (k + 1)) =
        Inr (?t1\<lparr>pEntries := es, tableSize := 2 ^ (k + 1), numDeadEntries := 0\<rparr>, True)"
      "slots_ok es (2 ^ (k + 1))" "filter dead es = []" "mset (filter live es) = mset (filter live ?es)"
      using resizeHash_spec[of ?t1 k] k ins(3) by auto
    let ?t2 = "?t1\<lparr>pEntries := es, tableSize := 2 ^ (k + 1), numDeadEntries := 0\<rparr>"
    have len2: "length (filter live es) = Suc (length (filter live (pEntries t)))"
      using len arg_cong[OF es(4), of size] by (simp only: size_mset)
    have k30: "k + 1 \<le> 30"
    proof (rule ccontr)
      assume "\<not> k + 1 \<le> 30"
      then have "(2::int) ^ 30 \<le> 2 ^ k" by (intro power_increasing) auto
      with k28 show False by simp
    qed
    have cap: "(numEntries t + 1) * 8 \<le> 2 ^ (k + 1) * 5"
    proof (cases k)
      case 0
      then have "numEntries t * 8 + numDeadEntries t * 8 \<le> 5" using k(9) by simp
      then have "numEntries t \<le> 0" using nn by presburger
      then show ?thesis by (simp add: 0)
    next
      case (Suc j)
      then have "(2::int) ^ k \<ge> 2" using power_increasing[of 1 k "2::int"] by simp
      then show ?thesis using k(9) nn by simp
    qed
    have "ht_inv ?t2"
      using k30 es len2 k(7) cap by (intro ht_invI[of "k + 1"]) auto
    moreover have "numEntries t + 1 < 2 ^ (k + 1)"
      using load_room_int[of "numEntries t + 1" 0 "2 ^ (k + 1)"] cap by simp
    moreover have "(2::int) ^ (k + 1) \<le> 4 * (numEntries t + 1 + numDeadEntries t)"
      using load_over[OF True p0] by simp
    ultimately show ?thesis
      using True r1 r2 r3 k(2) es(1) bag[of ?t2] es(4) nn(2)
      by (intro exI[of _ ?t2]) (simp add: add_at_def Let_def LOAD_NUMER_def LOAD_DENOM_def)
  qed
qed

section \<open>Lookup and removal\<close>

text \<open>The probe of a table that satisfies its invariant.\<close>

lemma table_probe:
  assumes "ht_inv t"
  shows "\<exists>i. probe m (pEntries t) (tableSize t) (first_slot t h) = Some i \<and>
    int i < tableSize t \<and> i < length (pEntries t) \<and>
    chained (pEntries t) (nat (tableSize t)) h i \<and>
    (data (pEntries t ! i) = 0 \<or> m (pEntries t ! i)) \<and>
    (data (pEntries t ! i) = 0 \<longrightarrow>
       (\<forall>e \<in># live_entries t. hashValue e = h \<longrightarrow> \<not> m e))"
proof -
  from assms obtain k where k: "k \<le> 30" "tableSize t = 2 ^ k" "nat (tableSize t) = 2 ^ k"
    "tableSize t = int (2 ^ k)" "slots_ok (pEntries t) (2 ^ k)" "length (pEntries t) = 2 ^ k"
    "length (filter (\<lambda>e. data e \<noteq> 0) (pEntries t)) < 2 ^ k" by (rule ht_invE)
  have fs: "first_slot t h = unat h mod 2 ^ k" using k(1,2) by (intro first_slot_mod) auto
  obtain i where i: "probe m (pEntries t) (int (2 ^ k)) (unat h mod 2 ^ k) = Some i" "i < 2 ^ k"
    "chained (pEntries t) (2 ^ k) h i" "data (pEntries t ! i) = 0 \<or> m (pEntries t ! i)"
    "data (pEntries t ! i) = 0 \<Longrightarrow> \<forall>i'<2 ^ k. chained (pEntries t) (2 ^ k) h i' \<and>
       data (pEntries t ! i') \<noteq> 0 \<longrightarrow> \<not> m (pEntries t ! i')"
    using probe_result[OF k(5,7), of m h] by blast
  have miss: "\<not> m e" if e: "data (pEntries t ! i) = 0" "e \<in># live_entries t" "hashValue e = h" for e
  proof -
    from e(2) obtain j where j: "j < 2 ^ k" "pEntries t ! j = e" "live e"
      unfolding live_entries_nth k(6) by blast
    then have "chained (pEntries t) (2 ^ k) h j"
      using k(5) e(3) unfolding slots_ok_def by blast
    moreover have "data e \<noteq> 0" using j(3) by (simp add: live_def)
    ultimately show ?thesis using i(5)[OF e(1)] j by blast
  qed
  have ilt: "int i < tableSize t" using i(2) k(4) by linarith
  show ?thesis
  proof (intro exI conjI impI)
    show "probe m (pEntries t) (tableSize t) (first_slot t h) = Some i"
      using i(1) unfolding fs k(4) .
    show "int i < tableSize t" by (rule ilt)
    show "i < length (pEntries t)" using i(2) k(6) by simp
    show "chained (pEntries t) (nat (tableSize t)) h i" using i(3) unfolding k(3) .
    show "data (pEntries t ! i) = 0 \<or> m (pEntries t ! i)" by (rule i(4))
    show "\<forall>e \<in># live_entries t. hashValue e = h \<longrightarrow> \<not> m e" if "data (pEntries t ! i) = 0"
      using miss[OF that] by blast
  qed
qed

lemma ht_inv_pos: "ht_inv t \<Longrightarrow> tableSize t > 0"
  by (auto simp: ht_inv_def)

lemma lookup_hit:
  assumes inv: "ht_inv t" and item: "item \<noteq> 0" "item \<noteq> HASH_TOMBSTONE"
    and e: "e \<in># live_entries t" "hashValue e = h" "cmp (data e) item = 0"
  shows "\<exists>e'. e' \<in># live_entries t \<and> hashValue e' = h \<and> cmp (data e') item = 0 \<and>
           mzHashTableLookup cmp ok t h item doAdd = Inr (t, data e')"
proof -
  let ?m = "item_match cmp h item"
  from table_probe[OF inv, of ?m h] obtain i where
    i: "probe ?m (pEntries t) (tableSize t) (first_slot t h) = Some i"
      "int i < tableSize t" "i < length (pEntries t)"
      "chained (pEntries t) (nat (tableSize t)) h i"
      "data (pEntries t ! i) = 0 \<or> ?m (pEntries t ! i)"
      "data (pEntries t ! i) = 0 \<longrightarrow> (\<forall>e \<in># live_entries t. hashValue e = h \<longrightarrow> \<not> ?m e)"
    by (elim exE conjE) (rule that)
  have "?m e" using e by (auto simp: item_match_def live_entries_nth live_def)
  then have nz: "data (pEntries t ! i) \<noteq> 0" using i(6) e(1,2) by blast
  then have m: "?m (pEntries t ! i)" using i(5) by simp
  then have "pEntries t ! i \<in># live_entries t"
    using nz i(3) by (auto simp: live_entries_nth live_def item_match_def)
  moreover have "mzHashTableLookup cmp ok t h item doAdd = Inr (t, data (pEntries t ! i))"
    using i(1,2) nz item ht_inv_pos[OF inv] by (simp add: mzHashTableLookup_def)
  ultimately show ?thesis using m by (intro exI[of _ "pEntries t ! i"]) (simp add: item_match_def)
qed

lemma lookup_miss:
  assumes inv: "ht_inv t" and item: "item \<noteq> 0" "item \<noteq> HASH_TOMBSTONE"
    and none: "\<forall>e \<in># live_entries t. hashValue e = h \<longrightarrow> cmp (data e) item \<noteq> 0"
  shows "mzHashTableLookup cmp ok t h item False = Inr (t, 0)"
    and "tableSize t \<le> 2 ^ 28 \<Longrightarrow>
         \<exists>t'. mzHashTableLookup cmp True t h item True = Inr (t', item) \<and> ht_inv t' \<and>
           live_entries t' = add_mset \<lparr>hashValue = h, data = item\<rparr> (live_entries t) \<and>
           tableSize t' \<le> max (tableSize t) (4 * (numEntries t' + numDeadEntries t)) \<and>
           numDeadEntries t' \<le> numDeadEntries t"
proof -
  let ?m = "item_match cmp h item"
  from table_probe[OF inv, of ?m h] obtain i where
    i: "probe ?m (pEntries t) (tableSize t) (first_slot t h) = Some i"
      "int i < tableSize t" "i < length (pEntries t)"
      "chained (pEntries t) (nat (tableSize t)) h i"
      "data (pEntries t ! i) = 0 \<or> ?m (pEntries t ! i)"
      "data (pEntries t ! i) = 0 \<longrightarrow> (\<forall>e \<in># live_entries t. hashValue e = h \<longrightarrow> \<not> ?m e)"
    by (elim exE conjE) (rule that)
  have z: "data (pEntries t ! i) = 0"
  proof (rule ccontr)
    assume nz: "data (pEntries t ! i) \<noteq> 0"
    with i(5) have m: "?m (pEntries t ! i)" by simp
    with nz i(3) have "pEntries t ! i \<in># live_entries t"
      by (auto simp: live_entries_nth live_def item_match_def)
    with m none show False by (auto simp: item_match_def)
  qed
  show "mzHashTableLookup cmp ok t h item False = Inr (t, 0)"
    using i(1,2) z item ht_inv_pos[OF inv] by (simp add: mzHashTableLookup_def)
  have "mzHashTableLookup cmp True t h item True = add_at True t i h item"
    using i(1,2) z item ht_inv_pos[OF inv] by (simp add: mzHashTableLookup_def)
  then show "\<exists>t'. mzHashTableLookup cmp True t h item True = Inr (t', item) \<and> ht_inv t' \<and>
           live_entries t' = add_mset \<lparr>hashValue = h, data = item\<rparr> (live_entries t) \<and>
           tableSize t' \<le> max (tableSize t) (4 * (numEntries t' + numDeadEntries t)) \<and>
           numDeadEntries t' \<le> numDeadEntries t" if "tableSize t \<le> 2 ^ 28"
    using add_at_spec[OF inv that i(2) z i(4) item] by simp
qed

lemma remove_hit:
  assumes inv: "ht_inv t" and item: "item \<noteq> 0" "item \<noteq> HASH_TOMBSTONE"
    and e: "\<lparr>hashValue = h, data = item\<rparr> \<in># live_entries t"
  shows "\<exists>t' e'. mzHashTableRemove t h item = Inr (t', True) \<and> ht_inv t' \<and> data e' = item \<and>
           live_entries t = add_mset e' (live_entries t')"
proof -
  let ?m = "\<lambda>e. data e = item"
  from table_probe[OF inv, of ?m h] obtain i where
    i: "probe ?m (pEntries t) (tableSize t) (first_slot t h) = Some i"
      "int i < tableSize t" "i < length (pEntries t)"
      "chained (pEntries t) (nat (tableSize t)) h i"
      "data (pEntries t ! i) = 0 \<or> ?m (pEntries t ! i)"
      "data (pEntries t ! i) = 0 \<longrightarrow> (\<forall>e \<in># live_entries t. hashValue e = h \<longrightarrow> \<not> ?m e)"
    by (elim exE conjE) (rule that)
  have nz: "data (pEntries t ! i) \<noteq> 0" using i(6) e by fastforce
  then have d: "data (pEntries t ! i) = item" using i(5) by simp
  let ?d = "(pEntries t ! i)\<lparr>data := HASH_TOMBSTONE\<rparr>"
  let ?es = "(pEntries t)[i := ?d]"
  let ?t' = "t\<lparr>pEntries := ?es, numEntries := numEntries t - 1, numDeadEntries := numDeadEntries t + 1\<rparr>"
  have l: "live (pEntries t ! i)" "\<not> dead (pEntries t ! i)" "\<not> live ?d" "dead ?d" "data ?d \<noteq> 0"
    using d item by (auto simp: live_def dead_def)
  have "mzHashTableRemove t h item = Inr (?t', True)"
    using i(1,2) nz ht_inv_pos[OF inv] by (simp add: mzHashTableRemove_def)
  moreover have bag: "add_mset (pEntries t ! i) (mset (filter live ?es)) = mset (filter live (pEntries t))"
    using i(3) l by (intro filter_update_out)
  moreover have "ht_inv ?t'"
  proof -
    from inv obtain k where k: "k \<le> 30" "tableSize t = 2 ^ k" "nat (tableSize t) = 2 ^ k"
      "tableSize t = int (2 ^ k)" "slots_ok (pEntries t) (2 ^ k)" "length (pEntries t) = 2 ^ k"
      "numEntries t = int (length (filter live (pEntries t)))"
      "numDeadEntries t = int (length (filter dead (pEntries t)))"
      "(numEntries t + numDeadEntries t) * 8 \<le> 2 ^ k * 5" by (rule ht_invE)
    have "slots_ok ?es (2 ^ k)" using k(5,6) i(3) l by (intro slots_ok_update) auto
    moreover have "Suc (length (filter live ?es)) = length (filter live (pEntries t))"
      using arg_cong[OF bag, of size] by (simp only: size_mset size_add_mset)
    moreover have "length (filter dead ?es) = Suc (length (filter dead (pEntries t)))"
      using arg_cong[OF filter_update_empty[OF i(3) l(2,4)], of size]
      by (simp only: size_mset size_add_mset)
    ultimately show ?thesis using k(1,2,7-9) by (intro ht_invI[of k]) auto
  qed
  ultimately show ?thesis using d
    by (intro exI[of _ ?t'] exI[of _ "pEntries t ! i"]) (simp add: live_entries_def)
qed

lemma remove_miss:
  assumes inv: "ht_inv t" and item: "item \<noteq> 0" "item \<noteq> HASH_TOMBSTONE"
    and none: "\<forall>e \<in># live_entries t. data e \<noteq> item"
  shows "mzHashTableRemove t h item = Inr (t, False)"
proof -
  let ?m = "\<lambda>e. data e = item"
  from table_probe[OF inv, of ?m h] obtain i where
    i: "probe ?m (pEntries t) (tableSize t) (first_slot t h) = Some i"
      "int i < tableSize t" "i < length (pEntries t)"
      "chained (pEntries t) (nat (tableSize t)) h i"
      "data (pEntries t ! i) = 0 \<or> ?m (pEntries t ! i)"
      "data (pEntries t ! i) = 0 \<longrightarrow> (\<forall>e \<in># live_entries t. hashValue e = h \<longrightarrow> \<not> ?m e)"
    by (elim exE conjE) (rule that)
  have "data (pEntries t ! i) = 0"
  proof (rule ccontr)
    assume nz: "data (pEntries t ! i) \<noteq> 0"
    with i(5) have d: "data (pEntries t ! i) = item" by simp
    with i(3) item have "pEntries t ! i \<in># live_entries t" by (auto simp: live_entries_nth live_def)
    with none d show False by blast
  qed
  then show ?thesis using i(1,2) ht_inv_pos[OF inv] by (simp add: mzHashTableRemove_def)
qed

section \<open>Creation, clearing and iteration\<close>

lemma create_spec:
  assumes "0 < unat n" "unat n \<le> 2 ^ 30"
  shows "\<exists>t. mzHashTableCreate True True n ff = Inr (Some t) \<and> ht_inv t \<and> live_entries t = {#} \<and>
           freeFunc t = ff \<and> tableSize t = int (unat (roundUpPower2 (ucast n))) \<and>
           int (unat n) \<le> tableSize t \<and> numEntries t = 0 \<and> numDeadEntries t = 0"
proof -
  let ?v = "ucast n :: u32"
  have v: "unat ?v = unat n" using assms(2) by (simp add: unsigned_ucast_eq take_bit_eq_mod)
  have "0 < unat ?v" "unat ?v \<le> 2 ^ 31" using assms v by auto
  then obtain k where k: "k \<le> 31" "roundUpPower2 ?v = 2 ^ k" "unat ?v \<le> 2 ^ k"
      "\<And>j. unat ?v \<le> 2 ^ j \<Longrightarrow> k \<le> j"
    by (rule roundUpPower2_pow2) blast
  have k30: "k \<le> 30" using k(4)[of 30] v assms(2) by simp
  have ts: "sint (2 ^ k :: u32) = 2 ^ k" using k30 by (intro sint_pow2_u32) simp
  have un: "unat (2 ^ k :: u32) = 2 ^ k" using k30 by (intro unat_pow2_u32) simp
  have n0: "n > 0" using assms(1) by (simp add: word_gt_0 unat_gt_0)
  let ?t = "\<lparr>tableSize = 2 ^ k, numEntries = 0, numDeadEntries = 0,
             pEntries = replicate (2 ^ k) empty_entry, freeFunc = ff\<rparr>"
  have "mzHashTableCreate True True n ff = Inr (Some ?t)"
    using n0 k(2) ts by (simp add: mzHashTableCreate_def nat_power_eq)
  moreover have "ht_inv ?t"
    using k30 by (intro ht_invI[of k]) (auto simp: slots_ok_replicate)
  moreover have "int (unat n) \<le> 2 ^ k" using k(3) v by (metis of_nat_le_iff of_nat_numeral of_nat_power)
  ultimately show ?thesis
    using k(2) un by (intro exI[of _ ?t]) (simp add: live_entries_def)
qed

lemma clear_entries_spec:
  "fst (clear_entries b es) = map (\<lambda>e. e\<lparr>data := 0\<rparr>) es \<and>
   snd (clear_entries b es) = (if b then map data (filter live es) else [])"
proof (induction es)
  case (Cons e es)
  then show ?case
    by (cases "clear_entries b es") (auto simp: live_def Let_def)
qed simp

lemma foreach_entries_spec:
  "foreach_entries f es arg =
     foldl (\<lambda>(a, v) e. if v \<noteq> 0 then (a, v) else f (data e) a) (arg, 0) (filter live es)"
proof -
  have stop: "v \<noteq> 0 \<Longrightarrow>
      foldl (\<lambda>(a, v) e. if v \<noteq> 0 then (a, v) else f (data e) a) (a, v) xs = (a, v)" for a v and xs :: "HashEntry list"
    by (induction xs) auto
  show ?thesis
  proof (induction es arbitrary: arg)
    case (Cons e es)
    show ?case
    proof (cases "live e")
      case True
      obtain a v where av: "f (data e) arg = (a, v)" by (cases "f (data e) arg")
      have step: "foreach_entries f (e # es) arg = (if v \<noteq> 0 then (a, v) else foreach_entries f es a)"
        using True av by (simp add: live_def)
      show ?thesis using True av Cons[of a] stop[of v a] unfolding step by (cases "v = 0") simp_all
    next
      case False
      then show ?thesis using Cons by (auto simp: live_def)
    qed
  qed simp
qed

lemma clear_inv:
  assumes "ht_inv t"
  shows "ht_inv (fst (mzHashTableClear t))" and "live_entries (fst (mzHashTableClear t)) = {#}"
proof -
  from assms obtain k where k: "k \<le> 30" "tableSize t = 2 ^ k" "length (pEntries t) = 2 ^ k"
    by (rule ht_invE) blast
  let ?es = "map (\<lambda>e. e\<lparr>data := 0\<rparr>) (pEntries t)"
  have es: "fst (mzHashTableClear t) = t\<lparr>pEntries := ?es, numEntries := 0, numDeadEntries := 0\<rparr>"
    using clear_entries_spec[of "freeFunc t \<noteq> 0" "pEntries t"]
    by (simp add: mzHashTableClear_def case_prod_beta)
  have nl: "filter live ?es = []" "filter dead ?es = []"
    by (auto simp: live_def dead_def filter_empty_conv)
  have "slots_ok ?es (2 ^ k)" using k(3) by (simp add: slots_ok_def live_def)
  then show "ht_inv (fst (mzHashTableClear t))"
    unfolding es using k nl by (intro ht_invI[of k]) auto
  show "live_entries (fst (mzHashTableClear t)) = {#}"
    unfolding es using nl by (simp add: live_entries_def)
qed

section \<open>The interface clients use\<close>

text \<open>
  What a client of the table relies on: insertion of an item that no stored item compares
  equal to puts it into the bag, lookup finds an item of the given hash that compares
  equal or reports that there is none. \<open>room t n\<close> is the capacity for \<open>n\<close> more insertions
  before the size arithmetic could leave the range of an \<open>int\<close>.
\<close>

locale bag_table =
  fixes inv :: "'t \<Rightarrow> bool"
    and room :: "'t \<Rightarrow> nat \<Rightarrow> bool"
    and bag :: "'t \<Rightarrow> (u32 \<times> ptr) multiset"
    and valid :: "ptr \<Rightarrow> bool"
    and find :: "(ptr \<Rightarrow> ptr \<Rightarrow> int) \<Rightarrow> 't \<Rightarrow> u32 \<Rightarrow> ptr \<Rightarrow> ('t \<times> ptr) comp"
    and add :: "(ptr \<Rightarrow> ptr \<Rightarrow> int) \<Rightarrow> 't \<Rightarrow> u32 \<Rightarrow> ptr \<Rightarrow> ('t \<times> ptr) comp"
  assumes add_new: "\<lbrakk>inv t; room t (Suc n); valid p; \<forall>e \<in># bag t. fst e = h \<longrightarrow> cmp (snd e) p \<noteq> 0\<rbrakk> \<Longrightarrow>
      \<exists>t'. add cmp t h p = Inr (t', p) \<and> inv t' \<and> room t' n \<and> bag t' = add_mset (h, p) (bag t)"
    and find_some: "\<lbrakk>inv t; valid p; e \<in># bag t; fst e = h; cmp (snd e) p = 0\<rbrakk> \<Longrightarrow>
      \<exists>e'. e' \<in># bag t \<and> fst e' = h \<and> cmp (snd e') p = 0 \<and> find cmp t h p = Inr (t, snd e')"
    and find_none: "\<lbrakk>inv t; valid p; \<forall>e \<in># bag t. fst e = h \<longrightarrow> cmp (snd e) p \<noteq> 0\<rbrakk> \<Longrightarrow>
      find cmp t h p = Inr (t, 0)"
begin

text \<open>Filling a table with items of distinct keys, as a client does once at start-up.\<close>

lemma fill:
  assumes "inv t" "room t (length ps)" "\<forall>p \<in> set ps. valid p" "distinct (map key ps)"
    and "bag t = mset (map (\<lambda>p. (hash p, p)) qs)"
    and "\<forall>p \<in> set ps. \<forall>q \<in> set ps \<union> set qs. cmp q p = 0 \<longrightarrow> key q = key p"
    and "\<forall>q \<in> set qs. key q \<notin> key ` set ps"
  shows "\<exists>t'. foldl (\<lambda>m p. bindC m (\<lambda>t. bindC (add cmp t (hash p) p) (\<lambda>(t', _). Inr t'))) (Inr t) ps = Inr t' \<and>
           inv t' \<and> bag t' = mset (map (\<lambda>p. (hash p, p)) (qs @ ps))"
  using assms
proof (induction ps arbitrary: t qs)
  case Nil
  then show ?case by simp
next
  case (Cons p ps)
  have new: "\<forall>e \<in># bag t. fst e = hash p \<longrightarrow> cmp (snd e) p \<noteq> 0"
  proof (intro ballI impI notI)
    fix e assume "e \<in># bag t" "cmp (snd e) p = 0"
    then obtain q where "q \<in> set qs" "cmp q p = 0" unfolding Cons.prems(5) by auto
    then show False using Cons.prems(6,7) by auto
  qed
  obtain t' where t': "add cmp t (hash p) p = Inr (t', p)" "inv t'" "room t' (length ps)"
    "bag t' = add_mset (hash p, p) (bag t)"
    using add_new[of t "length ps" p "hash p" cmp] new Cons.prems(1-3) by auto
  have "\<exists>t''. foldl (\<lambda>m p. bindC m (\<lambda>t. bindC (add cmp t (hash p) p) (\<lambda>(t', _). Inr t'))) (Inr t') ps = Inr t'' \<and>
      inv t'' \<and> bag t'' = mset (map (\<lambda>p. (hash p, p)) ((qs @ [p]) @ ps))"
    using t' Cons.prems by (intro Cons.IH) (auto simp: image_iff)
  then show ?case using t'(1) by simp
qed

lemma find_key:
  assumes "inv t" "bag t = mset (map (\<lambda>p. (hash p, p)) ps)" "distinct (map key ps)" "valid item"
    and cmp: "\<forall>p \<in> set ps. cmp p item = 0 \<longleftrightarrow> key p = k" and h: "\<forall>p \<in> set ps. key p = k \<longrightarrow> hash p = h"
  shows "find cmp t h item = Inr (t, case List.find (\<lambda>p. key p = k) ps of None \<Rightarrow> 0 | Some p \<Rightarrow> p)"
proof (cases "List.find (\<lambda>p. key p = k) ps")
  case None
  then have "\<forall>p \<in> set ps. key p \<noteq> k" by (simp add: find_None_iff)
  then have "\<forall>e \<in># bag t. fst e = h \<longrightarrow> cmp (snd e) item \<noteq> 0"
    using cmp by (auto simp: assms(2))
  then show ?thesis using None find_none[OF assms(1,4)] by simp
next
  case (Some p)
  then have p: "p \<in> set ps" "key p = k" by (auto simp: find_Some_iff)
  then have e: "(hash p, p) \<in># bag t" "hash p = h" "cmp p item = 0"
    using assms(2) cmp h by auto
  have "\<exists>e'. e' \<in># bag t \<and> fst e' = h \<and> cmp (snd e') item = 0 \<and> find cmp t h item = Inr (t, snd e')"
    by (rule find_some[OF assms(1,4) e(1)]) (use e in simp_all)
  then obtain e' where e': "e' \<in># bag t" "cmp (snd e') item = 0" "find cmp t h item = Inr (t, snd e')"
    by (elim exE conjE) (rule that)
  then obtain q where "q \<in> set ps" "snd e' = q" "key q = k" using cmp by (auto simp: assms(2))
  then have "snd e' = p" using p assms(3) by (auto simp: distinct_map inj_on_def)
  then show ?thesis using Some e'(3) by simp
qed

end

definition valid_item :: "ptr \<Rightarrow> bool" where
  "valid_item p \<longleftrightarrow> p \<noteq> 0 \<and> p \<noteq> HASH_TOMBSTONE"

definition ht_room :: "HashTable \<Rightarrow> nat \<Rightarrow> bool" where
  "ht_room t n \<longleftrightarrow> tableSize t \<le> 2 ^ 28 \<and> 4 * (numEntries t + numDeadEntries t + int n) \<le> 2 ^ 28"

definition ht_bag :: "HashTable \<Rightarrow> (u32 \<times> ptr) multiset" where
  "ht_bag t = image_mset (\<lambda>e. (hashValue e, data e)) (live_entries t)"

lemma ht_bag_all: "(\<forall>e \<in># ht_bag t. P e) \<longleftrightarrow> (\<forall>e \<in># live_entries t. P (hashValue e, data e))"
  by (auto simp: ht_bag_def)

interpretation mz: bag_table ht_inv ht_room ht_bag valid_item
  "\<lambda>cmp t h p. mzHashTableLookup cmp True t h p False"
  "\<lambda>cmp t h p. mzHashTableLookup cmp True t h p True"
proof (unfold_locales, goal_cases)
  case (1 t n p h cmp)
  have r: "tableSize t \<le> 2 ^ 28" "4 * (numEntries t + numDeadEntries t + (1 + int n)) \<le> 2 ^ 28"
    using 1(2) by (simp_all add: ht_room_def)
  obtain t' where t': "mzHashTableLookup cmp True t h p True = Inr (t', p)" "ht_inv t'"
    "live_entries t' = add_mset \<lparr>hashValue = h, data = p\<rparr> (live_entries t)"
    "tableSize t' \<le> max (tableSize t) (4 * (numEntries t' + numDeadEntries t))"
    "numDeadEntries t' \<le> numDeadEntries t"
    using lookup_miss(2)[OF 1(1) _ _ _ r(1), of p h cmp] 1(3,4) by (auto simp: valid_item_def ht_bag_all)
  have "numEntries t' = numEntries t + 1"
    using t'(3) size_live_entries[OF t'(2)] size_live_entries[OF 1(1)] by simp
  then have "ht_room t' n" using t'(4,5) r by (auto simp: ht_room_def)
  with t' show ?case by (intro exI[of _ t']) (simp add: ht_bag_def)
next
  case (2 t p e h cmp)
  then obtain x where x: "x \<in># live_entries t" "hashValue x = h" "cmp (data x) p = 0"
    by (auto simp: ht_bag_def)
  have "p \<noteq> 0" "p \<noteq> HASH_TOMBSTONE" using 2(2) by (auto simp: valid_item_def)
  from lookup_hit[where cmp = cmp and ok = True and doAdd = False, OF 2(1) this x]
  obtain x' where "x' \<in># live_entries t" "hashValue x' = h" "cmp (data x') p = 0"
    "mzHashTableLookup cmp True t h p False = Inr (t, data x')" by (elim exE conjE) (rule that)
  then show ?case by (intro exI[of _ "(h, data x')"]) (auto simp: ht_bag_def)
next
  case (3 t p h cmp)
  then show ?case by (intro lookup_miss(1)) (auto simp: valid_item_def ht_bag_all)
qed

lemma roundUp_of_size:
  assumes "0 < unat (n :: u64)" "unat n \<le> 2 ^ 30"
  shows "\<exists>k. int (unat (roundUpPower2 (ucast n))) = 2 ^ k \<and> unat n \<le> 2 ^ k \<and>
           (\<forall>j. unat n \<le> 2 ^ j \<longrightarrow> k \<le> j)"
proof -
  let ?v = "ucast n :: u32"
  have v: "unat ?v = unat n" using assms(2) by (simp add: unsigned_ucast_eq take_bit_eq_mod)
  have "0 < unat ?v" "unat ?v \<le> 2 ^ 31" using assms v by auto
  then obtain k where k: "k \<le> 31" "roundUpPower2 ?v = 2 ^ k" "unat ?v \<le> 2 ^ k"
      "\<And>j. unat ?v \<le> 2 ^ j \<Longrightarrow> k \<le> j"
    by (rule roundUpPower2_pow2) blast
  then show ?thesis using v by (intro exI[of _ k]) (simp add: unat_pow2_u32)
qed

section \<open>Properties\<close>

text \<open>C4: Looking an item up without adding never changes the table. When a live entry has
  the hash and compares equal, the result is the data of such an entry; otherwise it is
  the null pointer. The probe always ends, and no assertion of the code fails.\<close>

theorem mzHashTableLookup_find:
  assumes "ht_inv t" "item \<noteq> 0" "item \<noteq> HASH_TOMBSTONE"
  shows "(if \<exists>e \<in># live_entries t. hashValue e = h \<and> cmp (data e) item = 0
          then \<exists>e \<in># live_entries t. hashValue e = h \<and> cmp (data e) item = 0 \<and>
                 mzHashTableLookup cmp ok t h item False = Inr (t, data e)
          else mzHashTableLookup cmp ok t h item False = Inr (t, 0))"
proof (cases "\<exists>e \<in># live_entries t. hashValue e = h \<and> cmp (data e) item = 0")
  case True
  then show ?thesis using lookup_hit[OF assms, of _ h cmp ok False] by auto
next
  case False
  then show ?thesis using lookup_miss(1)[OF assms, of h cmp ok] by auto
qed

text \<open>A table with one entry, for the witnesses.\<close>

definition sample_table :: HashTable where
  "sample_table = \<lparr>tableSize = 2, numEntries = 1, numDeadEntries = 0,
     pEntries = [empty_entry, \<lparr>hashValue = 5, data = 100\<rparr>], freeFunc = 1\<rparr>"

lemma sample_table_inv: "ht_inv sample_table"
proof (rule ht_invI[of 1])
  have "chained [empty_entry, \<lparr>hashValue = 5, data = 100\<rparr>] 2 5 (Suc 0)"
    unfolding chained_def by (intro exI[of _ 0]) simp
  then show "slots_ok (pEntries sample_table) (2 ^ 1)"
    by (auto simp: slots_ok_def sample_table_def less_2_cases_iff)
qed (auto simp: sample_table_def live_def dead_def HASH_TOMBSTONE_def empty_entry_def)

lemma sample_table_live: "live_entries sample_table = {#\<lparr>hashValue = 5, data = 100\<rparr>#}"
  by (simp add: live_entries_def sample_table_def live_def HASH_TOMBSTONE_def empty_entry_def)

theorem mzHashTableLookup_find_witness:
  "mzHashTableLookup (\<lambda>a b. if a = b then 0 else 1) True sample_table 5 100 False = Inr (sample_table, 100)
   \<and> mzHashTableLookup (\<lambda>a b. if a = b then 0 else 1) True sample_table 5 101 False = Inr (sample_table, 0)"
  using mzHashTableLookup_find[OF sample_table_inv, of 100 5 "\<lambda>a b. if a = b then 0 else 1" True]
    mzHashTableLookup_find[OF sample_table_inv, of 101 5 "\<lambda>a b. if a = b then 0 else 1" True]
  by (simp add: sample_table_live HASH_TOMBSTONE_def)







text \<open>C23: Clearing calls the free function once on each live item, in slot order, and on
  nothing else, and leaves an empty table that satisfies the invariant.\<close>

theorem mzHashTableClear_correct:
  assumes "ht_inv t"
  shows "snd (mzHashTableClear t) = (if freeFunc t \<noteq> 0 then map data (filter live (pEntries t)) else []) \<and>
         ht_inv (fst (mzHashTableClear t)) \<and> live_entries (fst (mzHashTableClear t)) = {#}"
  using clear_inv[OF assms] clear_entries_spec[of "freeFunc t \<noteq> 0" "pEntries t"]
  by (simp add: mzHashTableClear_def case_prod_beta)

theorem mzHashTableClear_correct_witness:
  "snd (mzHashTableClear sample_table) = [100] \<and> ht_inv (fst (mzHashTableClear sample_table))"
  using mzHashTableClear_correct[OF sample_table_inv]
  by (simp add: sample_table_def live_def HASH_TOMBSTONE_def empty_entry_def)

end
