(* ===== verification/Sparse_Format.thy ===== *)
theory Sparse_Format
  imports Prelude
begin

text \<open>
  The headers of the sparse image format, \<^verbatim>\<open>system/core/libsparse/sparse_format.h\<close>, and the
  rounding macros of \<^verbatim>\<open>sparse_defs.h\<close>. The code writes and reads the structs as they lie in
  memory; they have no padding, and the host is little endian as the format is, so a header is
  the list of the bytes of its fields.
\<close>

section \<open>Definitions\<close>

record sparse_header =
  sh_magic :: u32
  sh_major_version :: u16
  sh_minor_version :: u16
  sh_file_hdr_sz :: u16
  sh_chunk_hdr_sz :: u16
  sh_blk_sz :: u32
  sh_total_blks :: u32
  sh_total_chunks :: u32
  sh_image_checksum :: u32

record chunk_header =
  ch_chunk_type :: u16
  ch_reserved1 :: u16
  ch_chunk_sz :: u32
  ch_total_sz :: u32

definition SPARSE_HEADER_MAGIC :: u32 where "SPARSE_HEADER_MAGIC = 0xed26ff3a"
definition CHUNK_TYPE_RAW :: u16 where "CHUNK_TYPE_RAW = 0xCAC1"
definition CHUNK_TYPE_FILL :: u16 where "CHUNK_TYPE_FILL = 0xCAC2"
definition CHUNK_TYPE_DONT_CARE :: u16 where "CHUNK_TYPE_DONT_CARE = 0xCAC3"
definition CHUNK_TYPE_CRC32 :: u16 where "CHUNK_TYPE_CRC32 = 0xCAC4"

definition SPARSE_HEADER_LEN :: nat where "SPARSE_HEADER_LEN = 28"
definition CHUNK_HEADER_LEN :: nat where "CHUNK_HEADER_LEN = 12"

definition le16 :: "u16 \<Rightarrow> u8 list" where
  "le16 w = [ucast w, ucast (drop_bit 8 w)]"

definition le32 :: "u32 \<Rightarrow> u8 list" where
  "le32 w = [ucast w, ucast (drop_bit 8 w), ucast (drop_bit 16 w), ucast (drop_bit 24 w)]"

text \<open>The field at a byte offset.\<close>

definition get16 :: "u8 list \<Rightarrow> nat \<Rightarrow> u16" where
  "get16 b i = ucast (b ! i) OR push_bit 8 (ucast (b ! (i + 1)))"

definition get32 :: "u8 list \<Rightarrow> nat \<Rightarrow> u32" where
  "get32 b i = ucast (b ! i) OR push_bit 8 (ucast (b ! (i + 1))) OR
               push_bit 16 (ucast (b ! (i + 2))) OR push_bit 24 (ucast (b ! (i + 3)))"

definition sparse_header_bytes :: "sparse_header \<Rightarrow> u8 list" where
  "sparse_header_bytes h =
     le32 (sh_magic h) @ le16 (sh_major_version h) @ le16 (sh_minor_version h) @
     le16 (sh_file_hdr_sz h) @ le16 (sh_chunk_hdr_sz h) @ le32 (sh_blk_sz h) @
     le32 (sh_total_blks h) @ le32 (sh_total_chunks h) @ le32 (sh_image_checksum h)"

definition sparse_header_of :: "u8 list \<Rightarrow> sparse_header" where
  "sparse_header_of b =
     \<lparr>sh_magic = get32 b 0, sh_major_version = get16 b 4, sh_minor_version = get16 b 6,
      sh_file_hdr_sz = get16 b 8, sh_chunk_hdr_sz = get16 b 10, sh_blk_sz = get32 b 12,
      sh_total_blks = get32 b 16, sh_total_chunks = get32 b 20, sh_image_checksum = get32 b 24\<rparr>"

definition chunk_header_bytes :: "chunk_header \<Rightarrow> u8 list" where
  "chunk_header_bytes h =
     le16 (ch_chunk_type h) @ le16 (ch_reserved1 h) @ le32 (ch_chunk_sz h) @ le32 (ch_total_sz h)"

definition chunk_header_of :: "u8 list \<Rightarrow> chunk_header" where
  "chunk_header_of b =
     \<lparr>ch_chunk_type = get16 b 0, ch_reserved1 = get16 b 2, ch_chunk_sz = get32 b 4, ch_total_sz = get32 b 8\<rparr>"

text \<open>The macros on 32-bit operands, where the sum wraps; a zero divisor stops the process.\<close>

definition udivC :: "u32 \<Rightarrow> u32 \<Rightarrow> u32 comp" where
  "udivC a b = (if b = 0 then Inl Division_By_Zero else Inr (a div b))"

definition DIV_ROUND_UP :: "u32 \<Rightarrow> u32 \<Rightarrow> u32 comp" where
  "DIV_ROUND_UP x y = udivC (x + y - 1) y"

definition ALIGN :: "u32 \<Rightarrow> u32 \<Rightarrow> u32 comp" where
  "ALIGN x y = bindC (DIV_ROUND_UP x y) (\<lambda>q. Inr (y * q))"

definition ALIGN_DOWN :: "u32 \<Rightarrow> u32 \<Rightarrow> u32 comp" where
  "ALIGN_DOWN x y = bindC (udivC x y) (\<lambda>q. Inr (y * q))"

section \<open>Round trips of the headers\<close>

lemma length_le [simp]: "length (le16 v) = 2" "length (le32 w) = 4"
  by (simp_all add: le16_def le32_def)

lemma join16: "(ucast (ucast w :: u8) :: u16) OR push_bit 8 (ucast (ucast (drop_bit 8 w) :: u8)) = w"
  by (rule bit_eqI) (auto simp: bit_simps)

lemma join32:
  "(ucast (ucast w :: u8) :: u32) OR push_bit 8 (ucast (ucast (drop_bit 8 w) :: u8)) OR
    push_bit 16 (ucast (ucast (drop_bit 16 w) :: u8)) OR push_bit 24 (ucast (ucast (drop_bit 24 w) :: u8)) = w"
proof (rule bit_word_eqI)
  fix n :: nat
  assume "n < LENGTH(32)"
  then consider "n < 8" | "8 \<le> n" "n < 16" | "16 \<le> n" "n < 24" | "24 \<le> n" "n < 32" by fastforce
  then show "bit ((ucast (ucast w :: u8) :: u32) OR push_bit 8 (ucast (ucast (drop_bit 8 w) :: u8)) OR
      push_bit 16 (ucast (ucast (drop_bit 16 w) :: u8)) OR
      push_bit 24 (ucast (ucast (drop_bit 24 w) :: u8))) n = bit w n"
    by cases (auto simp: bit_simps)
qed

lemma length_header_bytes [simp]:
  "length (sparse_header_bytes h) = SPARSE_HEADER_LEN" "length (chunk_header_bytes c) = CHUNK_HEADER_LEN"
  by (simp_all add: sparse_header_bytes_def chunk_header_bytes_def SPARSE_HEADER_LEN_def CHUNK_HEADER_LEN_def)

lemma sparse_header_of_bytes [simp]: "sparse_header_of (sparse_header_bytes h) = h"
  by (simp add: sparse_header_of_def sparse_header_bytes_def get32_def get16_def le32_def le16_def join16 join32)

lemma chunk_header_of_bytes [simp]: "chunk_header_of (chunk_header_bytes h) = h"
  by (simp add: chunk_header_of_def chunk_header_bytes_def get32_def get16_def le32_def le16_def join16 join32)

lemma get32_le32 [simp]: "get32 (le32 w) 0 = w"
  by (simp add: get32_def le32_def join32)

section \<open>Rounding\<close>

lemma DIV_ROUND_UP_nat:
  assumes "0 < y" "unat x + unat y \<le> 4294967296"
  shows "\<exists>q. DIV_ROUND_UP x y = Inr q \<and> unat q = (unat x + unat y - 1) div unat y"
proof -
  have y: "0 < unat y" "y \<noteq> 0" using assms(1) by (auto simp: unat_gt_0 word_gt_0)
  have "unat (x + y - 1) = unat x + unat y - 1"
  proof (cases "unat x + unat y = 4294967296")
    case True
    then have "x + y = 0" by (simp add: unat_eq_0[symmetric] unat_word_ariths(1))
    then have "x + y - 1 = - 1" by simp
    then show ?thesis using True by (simp add: unsigned_minus_1_eq_mask mask_eq_exp_minus_1)
  next
    case False
    then have "unat (x + y) = unat x + unat y" using assms(2) by (intro unat_add_u32) simp
    moreover from this have "x + y \<noteq> 0" using y by (metis add_is_0 less_numeral_extra(3) unat_0)
    ultimately show ?thesis by (simp add: unat_minus_one)
  qed
  then show ?thesis using y by (simp add: DIV_ROUND_UP_def udivC_def unat_div_distrib)
qed

lemma ALIGN_nat:
  assumes "0 < y" "unat x + unat y \<le> 4294967296"
  shows "\<exists>r. ALIGN x y = Inr r \<and> unat r = unat y * ((unat x + unat y - 1) div unat y)"
proof -
  obtain q where q: "DIV_ROUND_UP x y = Inr q" "unat q = (unat x + unat y - 1) div unat y"
    using DIV_ROUND_UP_nat[OF assms] by blast
  have "0 < unat x + unat y" using assms(1) by (simp add: unat_gt_0 word_gt_0)
  then have "unat y * unat q < 4294967296"
    unfolding q(2) using assms(2) times_div_less_eq_dividend[of "unat y" "unat x + unat y - 1"] by linarith
  then have "unat (y * q) = unat y * unat q" by (simp add: unat_word_ariths(2))
  then show ?thesis using q by (simp add: ALIGN_def)
qed

end
