(* ===== verification/Backed_Block.thy ===== *)
theory Backed_Block
  imports Sparse_Format
begin

text \<open>
  The list of pending blocks of a sparse image,
  \<^verbatim>\<open>system/core/libsparse/backed_block.c\<close>. A node of the linked list is a record with
  its address; the \<^verbatim>\<open>next\<close> pointers are the order of the list, which owns its nodes. A
  pointer to a node that is in no list any more is dangling, and following it is the fault
  \<open>Use_After_Free\<close>. The address a successful allocation returns is an argument (\<open>None\<close>
  when the allocation fails): nothing is assumed of the allocator but that it does not hand
  out the address of a live node.
\<close>

section \<open>Data\<close>

text \<open>
  The variants of the union. A file variant holds the address of its copied name, which
  the code compares by address, beside the name itself.
\<close>

datatype bb_content =
    BB_Data ptr
  | BB_File ptr string int
  | BB_Fd int int
  | BB_Fill u32

datatype backed_block_type =
  BACKED_BLOCK_DATA | BACKED_BLOCK_FILE | BACKED_BLOCK_FD | BACKED_BLOCK_FILL

record backed_block =
  bb_addr :: ptr
  bb_block :: u32
  bb_len :: u32
  bb_cont :: bb_content

record backed_block_list =
  data_blocks :: "backed_block list"
  last_used :: ptr
  bbl_block_size :: u32

definition EINVAL :: int where "EINVAL = 22"
definition ENOMEM :: int where "ENOMEM = 12"

section \<open>Operations\<close>

fun content_type :: "bb_content \<Rightarrow> backed_block_type" where
  "content_type (BB_Data _) = BACKED_BLOCK_DATA"
| "content_type (BB_File _ _ _) = BACKED_BLOCK_FILE"
| "content_type (BB_Fd _ _) = BACKED_BLOCK_FD"
| "content_type (BB_Fill _) = BACKED_BLOCK_FILL"

definition backed_block_type_of :: "backed_block \<Rightarrow> backed_block_type" where
  "backed_block_type_of bb = content_type (bb_cont bb)"

definition backed_block_data :: "backed_block \<Rightarrow> ptr comp" where
  "backed_block_data bb = (case bb_cont bb of BB_Data p \<Rightarrow> Inr p | _ \<Rightarrow> Inl Assert_Failed)"

definition backed_block_filename :: "backed_block \<Rightarrow> string comp" where
  "backed_block_filename bb = (case bb_cont bb of BB_File _ s _ \<Rightarrow> Inr s | _ \<Rightarrow> Inl Assert_Failed)"

definition backed_block_fd :: "backed_block \<Rightarrow> int comp" where
  "backed_block_fd bb = (case bb_cont bb of BB_Fd fd _ \<Rightarrow> Inr fd | _ \<Rightarrow> Inl Assert_Failed)"

definition backed_block_file_offset :: "backed_block \<Rightarrow> int comp" where
  "backed_block_file_offset bb =
     (case bb_cont bb of BB_File _ _ off \<Rightarrow> Inr off | BB_Fd _ off \<Rightarrow> Inr off
      | _ \<Rightarrow> Inl Assert_Failed)"

definition backed_block_fill_val :: "backed_block \<Rightarrow> u32 comp" where
  "backed_block_fill_val bb = (case bb_cont bb of BB_Fill v \<Rightarrow> Inr v | _ \<Rightarrow> Inl Assert_Failed)"

definition backed_block_list_new :: "u32 \<Rightarrow> backed_block_list" where
  "backed_block_list_new bs = \<lparr>data_blocks = [], last_used = 0, bbl_block_size = bs\<rparr>"

text \<open>The name copies that destroying a node, or the list, passes to \<^verbatim>\<open>free\<close>.\<close>

definition backed_block_destroy :: "backed_block \<Rightarrow> ptr list" where
  "backed_block_destroy bb = (case bb_cont bb of BB_File p _ _ \<Rightarrow> [p] | _ \<Rightarrow> [])"

definition backed_block_list_destroy :: "backed_block_list \<Rightarrow> ptr list" where
  "backed_block_list_destroy bbl = concat (map backed_block_destroy (data_blocks bbl))"

fun find_node :: "ptr \<Rightarrow> backed_block list \<Rightarrow> backed_block option" where
  "find_node p [] = None"
| "find_node p (b # bs) = (if bb_addr b = p then Some b else find_node p bs)"

text \<open>The nodes before the one at address \<open>p\<close>, and the list from that node on.\<close>

fun split_at :: "ptr \<Rightarrow> backed_block list \<Rightarrow> (backed_block list \<times> backed_block list) option" where
  "split_at p [] = None"
| "split_at p (b # bs) =
     (if bb_addr b = p then Some ([], b # bs)
      else map_option (\<lambda>(pre, post). (b # pre, post)) (split_at p bs))"

text \<open>Where a moved chain is linked into a list that is not empty.\<close>

fun link_after :: "backed_block list \<Rightarrow> backed_block list \<Rightarrow> u32 \<Rightarrow> backed_block list" where
  "link_after [] seg start_block = []"
| "link_after [b] seg start_block = b # seg"
| "link_after (b # c # bs) seg start_block =
     (if bb_block c > start_block then b # seg @ c # bs
      else b # link_after (c # bs) seg start_block)"

definition backed_block_list_move ::
    "backed_block_list \<Rightarrow> backed_block_list \<Rightarrow> ptr \<Rightarrow> ptr \<Rightarrow> (backed_block_list \<times> backed_block_list) comp" where
  "backed_block_list_move from to start0 end0 =
     (let start = (if start0 = 0 then (case data_blocks from of [] \<Rightarrow> 0 | b # _ \<Rightarrow> bb_addr b) else start0)
      in if start = 0 then Inr (from, to)
         else case split_at start (data_blocks from) of
           None \<Rightarrow> Inl Use_After_Free
         | Some (pre, chain) \<Rightarrow>
             (let endp = (if end0 = 0 then bb_addr (last chain) else end0)
              in case split_at endp chain of
                   None \<Rightarrow> Inl Use_After_Free
                 | Some (seg0, e # post) \<Rightarrow>
                     (let seg = seg0 @ [e];
                          from' = from\<lparr>data_blocks := pre @ post, last_used := 0\<rparr>;
                          to' = to\<lparr>last_used := 0,
                                  data_blocks :=
                                    (if data_blocks to = [] then seg
                                     else link_after (data_blocks to) seg (bb_block (hd chain)))\<rparr>
                      in Inr (from', to'))
                 | Some (seg0, []) \<Rightarrow> Inl Use_After_Free))"

text \<open>
  Merging \<open>b\<close> into \<open>a\<close>: the return code, and \<open>a\<close> after the call. Code 0 means that \<open>b\<close>
  has been freed.
\<close>

definition same_source :: "bb_content \<Rightarrow> u32 \<Rightarrow> bb_content \<Rightarrow> bool" where
  "same_source ca alen cb =
     (case (ca, cb) of
        (BB_Fill v, BB_Fill w) \<Rightarrow> v = w
      | (BB_File p _ off, BB_File q _ off') \<Rightarrow> p = q \<and> off + int (unat alen) = off'
      | (BB_Fd fd off, BB_Fd fd' off') \<Rightarrow> fd = fd' \<and> off + int (unat alen) = off'
      | _ \<Rightarrow> False)"

definition merge_bb ::
    "u32 \<Rightarrow> backed_block option \<Rightarrow> backed_block option \<Rightarrow> (int \<times> backed_block option) comp" where
  "merge_bb block_size pa pb =
     (case (pa, pb) of
        (Some a, Some b) \<Rightarrow>
          assertC (bb_block a < bb_block b) Assert_Failed
            (if backed_block_type_of a \<noteq> backed_block_type_of b then Inr (- EINVAL, pa)
             else bindC (udivC (bb_len a) block_size) (\<lambda>block_len.
               if bb_block a + block_len \<noteq> bb_block b then Inr (- EINVAL, pa)
               else if \<not> same_source (bb_cont a) (bb_len a) (bb_cont b) then Inr (- EINVAL, pa)
               else Inr (0, Some (a\<lparr>bb_len := bb_len a + bb_len b\<rparr>))))
      | _ \<Rightarrow> Inr (- EINVAL, pa))"

text \<open>The search of the insertion point: the rest of the list behind the node reached.\<close>

fun advance :: "u32 \<Rightarrow> backed_block list \<Rightarrow> backed_block \<Rightarrow> backed_block list \<Rightarrow>
    backed_block list \<times> backed_block \<times> backed_block list" where
  "advance nb pre bb [] = (pre, bb, [])"
| "advance nb pre bb (c # cs) =
     (if bb_block c < nb then advance nb (pre @ [bb]) c cs else (pre, bb, c # cs))"

text \<open>Linking the new node behind \<open>bb\<close> and the two attempts to merge.\<close>

definition link_and_merge ::
    "u32 \<Rightarrow> backed_block list \<Rightarrow> backed_block \<Rightarrow> backed_block \<Rightarrow> backed_block list \<Rightarrow> backed_block list comp" where
  "link_and_merge block_size pre bb new suf =
     bindC (merge_bb block_size (Some new) (case suf of [] \<Rightarrow> None | c # _ \<Rightarrow> Some c)) (\<lambda>(rc, new1).
     let suf1 = (if rc = 0 then tl suf else suf)
     in bindC (merge_bb block_size (Some bb) new1) (\<lambda>(rc2, bb1).
        Inr (if rc2 = 0 then pre @ (case bb1 of None \<Rightarrow> [] | Some b \<Rightarrow> [b]) @ suf1
             else pre @ bb # (case new1 of None \<Rightarrow> [] | Some n \<Rightarrow> [n]) @ suf1)))"

definition queue_bb :: "backed_block_list \<Rightarrow> backed_block \<Rightarrow> (int \<times> backed_block_list) comp" where
  "queue_bb bbl new_bb =
     (case data_blocks bbl of
        [] \<Rightarrow> Inr (0, bbl\<lparr>data_blocks := [new_bb]\<rparr>)
      | first # rest \<Rightarrow>
          if bb_block first > bb_block new_bb
          then Inr (0, bbl\<lparr>data_blocks := new_bb # first # rest\<rparr>)
          else bindC
            (if last_used bbl = 0 then Inr ([], first # rest)
             else case find_node (last_used bbl) (new_bb # first # rest) of
                    None \<Rightarrow> Inl Use_After_Free
                  | Some lu \<Rightarrow>
                      if bb_block new_bb > bb_block lu
                      then (case split_at (last_used bbl) (first # rest) of
                              None \<Rightarrow> Inl Use_After_Free
                            | Some (pre, post) \<Rightarrow> Inr (pre, post))
                      else Inr ([], first # rest))
            (\<lambda>(pre0, post0).
               let (pre, bb, suf) = advance (bb_block new_bb) pre0 (hd post0) (tl post0)
               in bindC (link_and_merge (bbl_block_size bbl) pre bb new_bb suf) (\<lambda>l.
                    Inr (0, bbl\<lparr>data_blocks := l, last_used := bb_addr new_bb\<rparr>))))"

definition backed_block_add_fill ::
    "ptr option \<Rightarrow> backed_block_list \<Rightarrow> u32 \<Rightarrow> u32 \<Rightarrow> u32 \<Rightarrow> (int \<times> backed_block_list) comp" where
  "backed_block_add_fill alloc bbl fill_val len block =
     (case alloc of None \<Rightarrow> Inr (- ENOMEM, bbl)
      | Some p \<Rightarrow> queue_bb bbl \<lparr>bb_addr = p, bb_block = block, bb_len = len, bb_cont = BB_Fill fill_val\<rparr>)"

definition backed_block_add_data ::
    "ptr option \<Rightarrow> backed_block_list \<Rightarrow> ptr \<Rightarrow> u32 \<Rightarrow> u32 \<Rightarrow> (int \<times> backed_block_list) comp" where
  "backed_block_add_data alloc bbl data len block =
     (case alloc of None \<Rightarrow> Inr (- ENOMEM, bbl)
      | Some p \<Rightarrow> queue_bb bbl \<lparr>bb_addr = p, bb_block = block, bb_len = len, bb_cont = BB_Data data\<rparr>)"

text \<open>\<open>name_copy\<close> is the address \<^verbatim>\<open>strdup\<close> returns.\<close>

definition backed_block_add_file ::
    "ptr option \<Rightarrow> ptr \<Rightarrow> backed_block_list \<Rightarrow> string \<Rightarrow> int \<Rightarrow> u32 \<Rightarrow> u32 \<Rightarrow> (int \<times> backed_block_list) comp" where
  "backed_block_add_file alloc name_copy bbl filename offset len block =
     (case alloc of None \<Rightarrow> Inr (- ENOMEM, bbl)
      | Some p \<Rightarrow> queue_bb bbl \<lparr>bb_addr = p, bb_block = block, bb_len = len,
                               bb_cont = BB_File name_copy filename offset\<rparr>)"

definition backed_block_add_fd ::
    "ptr option \<Rightarrow> backed_block_list \<Rightarrow> int \<Rightarrow> int \<Rightarrow> u32 \<Rightarrow> u32 \<Rightarrow> (int \<times> backed_block_list) comp" where
  "backed_block_add_fd alloc bbl fd offset len block =
     (case alloc of None \<Rightarrow> Inr (- ENOMEM, bbl)
      | Some p \<Rightarrow> queue_bb bbl \<lparr>bb_addr = p, bb_block = block, bb_len = len, bb_cont = BB_Fd fd offset\<rparr>)"

text \<open>The content of the second half of a split node.\<close>

fun shift_content :: "bb_content \<Rightarrow> u32 \<Rightarrow> bb_content" where
  "shift_content (BB_Data p) n = BB_Data (p + unat n)"
| "shift_content (BB_File p s off) n = BB_File p s (off + int (unat n))"
| "shift_content (BB_Fd fd off) n = BB_Fd fd (off + int (unat n))"
| "shift_content (BB_Fill v) n = BB_Fill v"

definition backed_block_split ::
    "ptr option \<Rightarrow> backed_block_list \<Rightarrow> ptr \<Rightarrow> u32 \<Rightarrow> (int \<times> backed_block_list) comp" where
  "backed_block_split alloc bbl pbb max_len0 =
     (case split_at pbb (data_blocks bbl) of
        Some (pre, bb # post) \<Rightarrow>
          bindC (ALIGN_DOWN max_len0 (bbl_block_size bbl)) (\<lambda>max_len.
            if bb_len bb \<le> max_len then Inr (0, bbl)
            else case alloc of
                   None \<Rightarrow> Inr (- ENOMEM, bbl)
                 | Some p \<Rightarrow>
                     (let new_bb = \<lparr>bb_addr = p,
                                    bb_block = bb_block bb + max_len div bbl_block_size bbl,
                                    bb_len = bb_len bb - max_len,
                                    bb_cont = shift_content (bb_cont bb) max_len\<rparr>
                      in Inr (0, bbl\<lparr>data_blocks := pre @ bb\<lparr>bb_len := max_len\<rparr> # new_bb # post\<rparr>)))
      | _ \<Rightarrow> Inl Use_After_Free)"

section \<open>What a list stands for\<close>

text \<open>
  The source of one byte of the image: a byte of memory, of a named file, of a file
  descriptor, or of a fill word.
\<close>

datatype byte_src =
    Mem_Byte nat
  | File_Byte string int
  | Fd_Byte int int
  | Fill_Byte u32 nat

fun content_at :: "bb_content \<Rightarrow> nat \<Rightarrow> byte_src" where
  "content_at (BB_Data p) i = Mem_Byte (p + i)"
| "content_at (BB_File _ s off) i = File_Byte s (off + int i)"
| "content_at (BB_Fd fd off) i = Fd_Byte fd (off + int i)"
| "content_at (BB_Fill v) i = Fill_Byte v (i mod 4)"

definition bb_start :: "nat \<Rightarrow> backed_block \<Rightarrow> nat" where
  "bb_start bs b = unat (bb_block b) * bs"

definition bb_image :: "nat \<Rightarrow> backed_block \<Rightarrow> nat \<Rightarrow> byte_src option" where
  "bb_image bs b x =
     (if bb_start bs b \<le> x \<and> x < bb_start bs b + unat (bb_len b)
      then Some (content_at (bb_cont b) (x - bb_start bs b)) else None)"

fun image_of :: "nat \<Rightarrow> backed_block list \<Rightarrow> nat \<Rightarrow> byte_src option" where
  "image_of bs [] x = None"
| "image_of bs (b # l) x = (case bb_image bs b x of Some s \<Rightarrow> Some s | None \<Rightarrow> image_of bs l x)"

text \<open>The first block after a node, and what a well-formed list satisfies.\<close>

definition bb_end :: "nat \<Rightarrow> backed_block \<Rightarrow> nat" where
  "bb_end bs b = unat (bb_block b) + (unat (bb_len b) + bs - 1) div bs"

definition before :: "nat \<Rightarrow> backed_block \<Rightarrow> backed_block \<Rightarrow> bool" where
  "before bs a b \<longleftrightarrow> bb_end bs a \<le> unat (bb_block b)"

text \<open>Two nodes that share a name copy have the same name.\<close>

definition names_agree :: "backed_block \<Rightarrow> backed_block \<Rightarrow> bool" where
  "names_agree a b =
     (case (bb_cont a, bb_cont b) of
        (BB_File p s _, BB_File q t _) \<Rightarrow> p = q \<longrightarrow> s = t
      | _ \<Rightarrow> True)"

definition blocks_ok :: "nat \<Rightarrow> backed_block list \<Rightarrow> bool" where
  "blocks_ok bs l \<longleftrightarrow>
     sorted_wrt (before bs) l \<and> (\<forall>b \<in> set l. 0 < bb_len b) \<and> distinct (map bb_addr l) \<and>
     (\<forall>b \<in> set l. bb_addr b \<noteq> 0) \<and> (\<forall>a \<in> set l. \<forall>b \<in> set l. names_agree a b)"

definition total_len :: "backed_block list \<Rightarrow> nat" where
  "total_len l = sum_list (map (\<lambda>b. unat (bb_len b)) l)"

definition bbl_ok :: "backed_block_list \<Rightarrow> bool" where
  "bbl_ok bbl \<longleftrightarrow>
     0 < bbl_block_size bbl \<and> 4 dvd unat (bbl_block_size bbl) \<and>
     blocks_ok (unat (bbl_block_size bbl)) (data_blocks bbl)"

text \<open>Two nodes the code merges, and the result.\<close>

definition adjacent :: "nat \<Rightarrow> backed_block \<Rightarrow> backed_block \<Rightarrow> bool" where
  "adjacent bs a b \<longleftrightarrow>
     unat (bb_block a) + unat (bb_len a) div bs = unat (bb_block b) \<and> bs dvd unat (bb_len a) \<and>
     same_source (bb_cont a) (bb_len a) (bb_cont b)"

definition merged :: "backed_block \<Rightarrow> backed_block \<Rightarrow> backed_block" where
  "merged a b = a\<lparr>bb_len := bb_len a + bb_len b\<rparr>"

text \<open>When a node can be queued: it overlaps no node of the list, and no merge wraps.\<close>

definition can_queue :: "backed_block_list \<Rightarrow> backed_block \<Rightarrow> bool" where
  "can_queue bbl new \<longleftrightarrow>
     0 < bb_len new \<and> bb_addr new \<noteq> 0 \<and> bb_addr new \<notin> bb_addr ` set (data_blocks bbl) \<and>
     (\<forall>b \<in> set (data_blocks bbl).
        (before (unat (bbl_block_size bbl)) b new \<or> before (unat (bbl_block_size bbl)) new b) \<and>
        names_agree b new \<and> names_agree new b \<and>
        unat (bb_len b) + unat (bb_len new) < 2 ^ 32 \<and>
        (\<forall>c \<in> set (data_blocks bbl).
           before (unat (bbl_block_size bbl)) b new \<longrightarrow> before (unat (bbl_block_size bbl)) new c \<longrightarrow>
           unat (bb_len b) + unat (bb_len new) + unat (bb_len c) < 2 ^ 32))"

definition cursor_ok :: "backed_block_list \<Rightarrow> backed_block \<Rightarrow> bool" where
  "cursor_ok bbl new \<longleftrightarrow>
     last_used bbl = 0 \<or> last_used bbl \<in> bb_addr ` set (data_blocks bbl) \<or> last_used bbl = bb_addr new"

definition add_image :: "(nat \<Rightarrow> byte_src option) \<Rightarrow> (nat \<Rightarrow> byte_src option) \<Rightarrow> nat \<Rightarrow> byte_src option" where
  "add_image new old x = (case new x of Some s \<Rightarrow> Some s | None \<Rightarrow> old x)"

text \<open>Cutting a node at a block boundary inside it gives two nodes with the image of the one.\<close>

definition cut_low :: "backed_block \<Rightarrow> u32 \<Rightarrow> backed_block" where
  "cut_low b m = b\<lparr>bb_len := m\<rparr>"

definition cut_high :: "ptr \<Rightarrow> u32 \<Rightarrow> backed_block \<Rightarrow> u32 \<Rightarrow> backed_block" where
  "cut_high p block_size b m =
     \<lparr>bb_addr = p, bb_block = bb_block b + m div block_size, bb_len = bb_len b - m,
      bb_cont = shift_content (bb_cont b) m\<rparr>"

text \<open>A chain that lies between the nodes of the other list, behind its first one, is linked there.\<close>

definition chain_fits :: "nat \<Rightarrow> backed_block list \<Rightarrow> backed_block list \<Rightarrow> bool" where
  "chain_fits n seg l \<longleftrightarrow>
     (\<forall>a \<in> set l. (\<forall>c \<in> set seg. before n a c) \<or> (\<forall>c \<in> set seg. before n c a)) \<and>
     (l \<noteq> [] \<longrightarrow> (\<forall>c \<in> set seg. before n (hd l) c)) \<and>
     bb_addr ` set seg \<inter> bb_addr ` set l = {} \<and>
     (\<forall>a \<in> set l. \<forall>c \<in> set seg. names_agree a c \<and> names_agree c a)"

definition sample_bbl :: backed_block_list where
  "sample_bbl = \<lparr>data_blocks = [\<lparr>bb_addr = 8, bb_block = 1, bb_len = 8, bb_cont = BB_Fd 3 0\<rparr>,
                               \<lparr>bb_addr = 16, bb_block = 4, bb_len = 8, bb_cont = BB_Fd 3 12\<rparr>],
                last_used = 8, bbl_block_size = 4\<rparr>"

section \<open>Searching the list\<close>

lemma split_at_Some:
  "split_at p l = Some (pre, post) \<Longrightarrow>
     l = pre @ post \<and> post \<noteq> [] \<and> bb_addr (hd post) = p \<and> find_node p l = Some (hd post)"
proof (induction l arbitrary: pre)
  case (Cons b l)
  then show ?case by (cases "bb_addr b = p") auto
qed simp

lemma split_at_None: "split_at p l = None \<longleftrightarrow> p \<notin> bb_addr ` set l"
  by (induction l) auto

lemma split_at_mem:
  assumes "distinct (map bb_addr (pre @ b # post))"
  shows "split_at (bb_addr b) (pre @ b # post) = Some (pre, b # post)"
  using assms by (induction pre) auto

lemma find_node_None: "find_node p l = None \<longleftrightarrow> p \<notin> bb_addr ` set l"
  by (induction l) auto

lemma find_node_mem: "find_node p l = Some b \<Longrightarrow> b \<in> set l \<and> bb_addr b = p"
  by (induction l) (auto split: if_splits)

lemma advance_spec:
  assumes "advance nb pre bb suf = (pre', bb', suf')"
  shows "pre' @ bb' # suf' = pre @ bb # suf"
    and "bb_block bb < nb \<Longrightarrow> bb_block bb' < nb"
    and "suf' = [] \<or> \<not> bb_block (hd suf') < nb"
  using assms by (induction nb pre bb suf rule: advance.induct) (auto split: if_splits)

section \<open>Arithmetic of blocks\<close>

lemma bb_end_gt: "0 < bb_len b \<Longrightarrow> 0 < bs \<Longrightarrow> unat (bb_block b) < bb_end bs b"
  using ceil_div_pos[of "unat (bb_len b)" bs] by (simp add: bb_end_def unat_gt_0 word_gt_0)

lemma before_block_less:
  "before bs a b \<Longrightarrow> 0 < bb_len a \<Longrightarrow> 0 < bs \<Longrightarrow> bb_block a < bb_block b"
  using bb_end_gt[of a bs] by (simp add: before_def word_less_nat_alt)

text \<open>The last byte of a node lies before its end block.\<close>

lemma bb_bytes_end:
  assumes "0 < bs"
  shows "bb_start bs b + unat (bb_len b) \<le> bb_end bs b * bs"
  using ceil_div_mult[OF assms, of "unat (bb_len b)"]
  by (simp add: bb_end_def bb_start_def algebra_simps)

lemma before_image_disjoint:
  assumes "before bs a b" "0 < bs" "bb_image bs a x = Some s"
  shows "bb_image bs b x = None"
proof -
  have "x < bb_end bs a * bs"
    using assms(3) bb_bytes_end[OF assms(2), of a] by (auto simp: bb_image_def split: if_splits)
  also have "\<dots> \<le> bb_start bs b"
    using assms(1) by (simp add: before_def bb_start_def)
  finally show ?thesis by (simp add: bb_image_def)
qed

section \<open>Merging\<close>

text \<open>On nodes in order, the attempt either refuses or merges two adjacent nodes.\<close>

lemma merge_bb_cases:
  assumes bs: "0 < block_size" and ord: "before (unat block_size) a b" "0 < bb_len a"
  shows "merge_bb block_size (Some a) (Some b) = Inr (- EINVAL, Some a) \<or>
         merge_bb block_size (Some a) (Some b) = Inr (0, Some (merged a b)) \<and> adjacent (unat block_size) a b"
proof -
  let ?n = "unat block_size"
  have n: "0 < ?n" using bs by (simp add: unat_gt_0 word_gt_0)
  have lt: "bb_block a < bb_block b" using before_block_less[OF ord n] .
  have floor: "unat (bb_block a) + unat (bb_len a) div ?n \<le> bb_end ?n a"
    unfolding bb_end_def by (rule add_left_mono, rule div_le_mono) (use n in simp)
  have fits: "unat (bb_block a) + unat (bb_len a) div ?n \<le> unat (bb_block b)"
    using floor ord(1) by (simp add: before_def)
  have sum: "unat (bb_block a + bb_len a div block_size) = unat (bb_block a) + unat (bb_len a) div ?n"
  proof -
    have "unat (bb_block a) + unat (bb_len a div block_size) < 2 ^ 32"
      using fits unat_u32_less[of "bb_block b"] by (simp add: unat_div_distrib)
    then show ?thesis by (simp add: unat_add_u32 unat_div_distrib)
  qed
  have adj: "adjacent ?n a b"
    if "bb_block a + bb_len a div block_size = bb_block b" "same_source (bb_cont a) (bb_len a) (bb_cont b)"
  proof -
    have eq: "unat (bb_block a) + unat (bb_len a) div ?n = unat (bb_block b)"
      using that(1) sum by simp
    have "(unat (bb_len a) + ?n - 1) div ?n \<le> unat (bb_len a) div ?n"
      using eq ord(1) by (simp add: before_def bb_end_def)
    then have "?n dvd unat (bb_len a)" using n by (intro ceil_div_eq_floor)
    with eq that(2) show ?thesis by (simp add: adjacent_def)
  qed
  have "merge_bb block_size (Some a) (Some b) =
      (if backed_block_type_of a \<noteq> backed_block_type_of b then Inr (- EINVAL, Some a)
       else if bb_block a + bb_len a div block_size \<noteq> bb_block b then Inr (- EINVAL, Some a)
       else if \<not> same_source (bb_cont a) (bb_len a) (bb_cont b) then Inr (- EINVAL, Some a)
       else Inr (0, Some (merged a b)))"
    using lt bs[THEN word_gt_0[THEN iffD1]] by (simp add: merge_bb_def udivC_def merged_def)
  with adj show ?thesis by (auto split: if_splits)
qed

lemma unat_merged_len:
  "unat (bb_len a) + unat (bb_len b) < 2 ^ 32 \<Longrightarrow>
     unat (bb_len (merged a b)) = unat (bb_len a) + unat (bb_len b)"
  by (simp add: merged_def unat_add_u32)

lemma merged_end:
  assumes "adjacent bs a b" "0 < bs" "unat (bb_len a) + unat (bb_len b) < 2 ^ 32"
  shows "bb_end bs (merged a b) = bb_end bs b"
proof -
  from assms(1) obtain q where q: "unat (bb_len a) = bs * q" "unat (bb_block b) = unat (bb_block a) + q"
    using assms(2) by (auto simp: adjacent_def)
  have "(unat (bb_len a) + unat (bb_len b) + bs - 1) div bs = ((unat (bb_len b) + bs - 1) + q * bs) div bs"
    using q(1) assms(2) by (simp add: algebra_simps)
  also have "\<dots> = q + (unat (bb_len b) + bs - 1) div bs"
    using assms(2) by (subst div_mult_self1) auto
  finally show ?thesis
    unfolding bb_end_def unat_merged_len[OF assms(3)] q(2) by (simp add: merged_def)
qed

lemma merged_image:
  assumes adj: "adjacent bs a b" and bs: "0 < bs" "4 dvd bs" and names: "names_agree a b"
    and len: "unat (bb_len a) + unat (bb_len b) < 2 ^ 32"
  shows "bb_image bs (merged a b) x =
     (case bb_image bs a x of Some s \<Rightarrow> Some s | None \<Rightarrow> bb_image bs b x)"
proof -
  let ?A = "bb_start bs a" and ?la = "unat (bb_len a)" and ?lb = "unat (bb_len b)"
  from adj obtain q where q: "?la = bs * q" "unat (bb_block b) = unat (bb_block a) + q"
    using bs(1) by (auto simp: adjacent_def)
  have B: "bb_start bs b = ?A + ?la" using q by (simp add: bb_start_def algebra_simps)
  have four: "4 dvd ?la" using q(1) bs(2) by simp
  have cont: "content_at (bb_cont a) (?la + i) = content_at (bb_cont b) i" for i
  proof -
    have "same_source (bb_cont a) (bb_len a) (bb_cont b)" using adj by (simp add: adjacent_def)
    moreover have "(?la + i) mod 4 = i mod 4" using four by (metis mod_add_left_eq add_0 dvd_imp_mod_0)
    ultimately show ?thesis
      using names by (cases "bb_cont a"; cases "bb_cont b") (auto simp: same_source_def names_agree_def)
  qed
  have img: "bb_image bs (merged a b) x =
      (if ?A \<le> x \<and> x < ?A + (?la + ?lb) then Some (content_at (bb_cont a) (x - ?A)) else None)"
    using unat_merged_len[OF len] by (simp add: bb_image_def bb_start_def merged_def)
  show ?thesis
  proof (cases "?A + ?la \<le> x")
    case True
    then have "x - ?A = ?la + (x - (?A + ?la))" by simp
    then have "content_at (bb_cont a) (x - ?A) = content_at (bb_cont b) (x - (?A + ?la))"
      using cont by metis
    then show ?thesis using True unfolding img by (simp add: bb_image_def B)
  next
    case False
    then show ?thesis unfolding img by (auto simp: bb_image_def B)
  qed
qed

section \<open>Images of lists\<close>

lemma image_of_append:
  "image_of bs (xs @ ys) x = (case image_of bs xs x of Some s \<Rightarrow> Some s | None \<Rightarrow> image_of bs ys x)"
  by (induction xs) (auto split: option.splits)

lemma image_of_SomeD: "image_of bs l x = Some s \<Longrightarrow> \<exists>b \<in> set l. bb_image bs b x = Some s"
  by (induction l) (auto split: option.splits)

text \<open>In an ordered list at most one node covers a byte, so the image depends on the set of nodes only.\<close>

lemma image_of_iff:
  assumes "sorted_wrt (before bs) l" "0 < bs"
  shows "image_of bs l x = Some s \<longleftrightarrow> (\<exists>b \<in> set l. bb_image bs b x = Some s)"
  using assms
proof (induction l)
  case (Cons b l)
  then show ?case
    using before_image_disjoint[of bs b _ x] by (fastforce split: option.splits)
qed simp

lemma image_of_insert:
  assumes "sorted_wrt (before bs) (xs @ b # ys)" "0 < bs"
  shows "image_of bs (xs @ b # ys) x =
     (case bb_image bs b x of Some s \<Rightarrow> Some s | None \<Rightarrow> image_of bs (xs @ ys) x)"
proof (cases "bb_image bs b x")
  case None
  then show ?thesis by (cases "image_of bs xs x") (simp_all add: image_of_append)
next
  case (Some s)
  then have "image_of bs (xs @ b # ys) x = Some s" using image_of_iff[OF assms] by auto
  with Some show ?thesis by simp
qed

section \<open>Merging keeps the list\<close>

lemma names_agree_merged [simp]:
  "names_agree (merged a b) c = names_agree a c" "names_agree c (merged a b) = names_agree c a"
  by (simp_all add: names_agree_def merged_def)

lemma bb_addr_merged [simp]: "bb_addr (merged a b) = bb_addr a" "bb_block (merged a b) = bb_block a"
  by (simp_all add: merged_def)

lemma before_merged:
  "before bs c (merged a b) = before bs c a"
  by (simp add: before_def merged_def)

lemma merge_keeps:
  assumes ok: "blocks_ok bs (pre @ a # b # suf)" and adj: "adjacent bs a b"
    and bs: "0 < bs" "4 dvd bs" and len: "unat (bb_len a) + unat (bb_len b) < 2 ^ 32"
  shows "blocks_ok bs (pre @ merged a b # suf)"
    and "image_of bs (pre @ merged a b # suf) = image_of bs (pre @ a # b # suf)"
proof -
  have "0 < unat (bb_len a)" using ok by (simp add: blocks_ok_def unat_gt_0 word_gt_0)
  then have pos: "0 < bb_len (merged a b)"
    using unat_merged_len[OF len] by (metis add_gr_0 unat_gt_0 word_gt_0)
  have suf: "\<forall>c \<in> set suf. before bs (merged a b) c"
    using ok merged_end[OF adj bs(1) len] by (simp add: blocks_ok_def sorted_wrt_append before_def)
  show "blocks_ok bs (pre @ merged a b # suf)"
    using ok pos suf by (auto simp: blocks_ok_def sorted_wrt_append before_merged)
  have "names_agree a b" using ok by (simp add: blocks_ok_def)
  then show "image_of bs (pre @ merged a b # suf) = image_of bs (pre @ a # b # suf)"
    using merged_image[OF adj bs _ len] by (auto simp: image_of_append fun_eq_iff split: option.splits)
qed

text \<open>One attempt: it returns, and what it does to the list is invisible in the image.\<close>

lemma merge_attempt:
  assumes ok: "blocks_ok (unat block_size) (pre @ a # b # suf)"
    and bs: "0 < block_size" "4 dvd unat block_size" and len: "unat (bb_len a) + unat (bb_len b) < 2 ^ 32"
  obtains "merge_bb block_size (Some a) (Some b) = Inr (- EINVAL, Some a)"
  | "merge_bb block_size (Some a) (Some b) = Inr (0, Some (merged a b))"
    "blocks_ok (unat block_size) (pre @ merged a b # suf)"
    "image_of (unat block_size) (pre @ merged a b # suf) = image_of (unat block_size) (pre @ a # b # suf)"
proof -
  have ord: "before (unat block_size) a b" "0 < bb_len a"
    using ok by (simp_all add: blocks_ok_def sorted_wrt_append)
  have n: "0 < unat block_size" using bs(1) by (simp add: unat_gt_0 word_gt_0)
  from merge_bb_cases[OF bs(1) ord] show thesis
    using merge_keeps[OF ok _ n bs(2) len] that by blast
qed

lemma merge_bb_None [simp]: "merge_bb block_size (Some a) None = Inr (- EINVAL, Some a)"
  by (simp add: merge_bb_def)

lemma EINVAL_nz [simp]: "EINVAL \<noteq> 0" "ENOMEM \<noteq> 0"
  by (simp_all add: EINVAL_def ENOMEM_def)

text \<open>Linking and both attempts: the image is that of the list with the node linked in.\<close>

lemma link_and_merge_ok:
  assumes ok: "blocks_ok (unat block_size) (pre @ bb # new # suf)"
    and bs: "0 < block_size" "4 dvd unat block_size"
    and len: "unat (bb_len bb) + unat (bb_len new) < 2 ^ 32"
             "\<And>c. c \<in> set suf \<Longrightarrow> unat (bb_len bb) + unat (bb_len new) + unat (bb_len c) < 2 ^ 32"
  shows "\<exists>l. link_and_merge block_size pre bb new suf = Inr l \<and> blocks_ok (unat block_size) l \<and>
     image_of (unat block_size) l = image_of (unat block_size) (pre @ bb # new # suf)"
proof -
  let ?n = "unat block_size"
  have second: "\<exists>l. bindC (merge_bb block_size (Some bb) (Some n1)) (\<lambda>(rc2, bb1).
        Inr (if rc2 = 0 then pre @ (case bb1 of None \<Rightarrow> [] | Some b \<Rightarrow> [b]) @ s1
             else pre @ bb # (case Some n1 of None \<Rightarrow> [] | Some n \<Rightarrow> [n]) @ s1)) = Inr l \<and>
      blocks_ok ?n l \<and> image_of ?n l = image_of ?n (pre @ bb # n1 # s1)"
    if "blocks_ok ?n (pre @ bb # n1 # s1)" "unat (bb_len bb) + unat (bb_len n1) < 2 ^ 32" for n1 s1
    by (rule merge_attempt[OF that(1) bs that(2)]) (simp_all add: that(1))
  show ?thesis
  proof (cases suf)
    case Nil
    then show ?thesis using second[of new "[]"] ok len(1) by (simp add: link_and_merge_def Let_def)
  next
    case (Cons c cs)
    have ok': "blocks_ok ?n ((pre @ [bb]) @ new # c # cs)" using ok Cons by simp
    have lc: "unat (bb_len new) + unat (bb_len c) < 2 ^ 32" using len(2)[of c] Cons by simp
    show ?thesis
    proof (rule merge_attempt[OF ok' bs lc])
      assume "merge_bb block_size (Some new) (Some c) = Inr (- EINVAL, Some new)"
      then show ?thesis using second[of new "c # cs"] ok len(1) Cons by (simp add: link_and_merge_def Let_def)
    next
      assume m: "merge_bb block_size (Some new) (Some c) = Inr (0, Some (merged new c))"
        and k: "blocks_ok ?n ((pre @ [bb]) @ merged new c # cs)"
          "image_of ?n ((pre @ [bb]) @ merged new c # cs) = image_of ?n ((pre @ [bb]) @ new # c # cs)"
      have "unat (bb_len bb) + unat (bb_len (merged new c)) < 2 ^ 32"
        using len(2)[of c] unat_merged_len[OF lc] Cons by simp
      then show ?thesis using second[of "merged new c" cs] m k Cons by (simp add: link_and_merge_def Let_def cong: if_cong)
    qed
  qed
qed

section \<open>Queueing a block\<close>

lemma names_agree_refl [simp]: "names_agree b b"
  by (cases "bb_cont b") (simp_all add: names_agree_def)

text \<open>A node linked between the nodes below and above it gives an ordered list.\<close>

lemma blocks_ok_insert:
  assumes ok: "blocks_ok bs (xs @ ys)" and bs: "0 < bs"
    and new: "0 < bb_len new" "bb_addr new \<noteq> 0" "bb_addr new \<notin> bb_addr ` set (xs @ ys)"
      "\<forall>b \<in> set (xs @ ys). names_agree b new \<and> names_agree new b"
    and ord: "\<forall>b \<in> set xs. before bs b new" "\<forall>b \<in> set ys. before bs new b"
  shows "blocks_ok bs (xs @ new # ys)"
    and "image_of bs (xs @ new # ys) = add_image (bb_image bs new) (image_of bs (xs @ ys))"
proof -
  show k: "blocks_ok bs (xs @ new # ys)"
    using assms by (auto simp: blocks_ok_def sorted_wrt_append)
  then show "image_of bs (xs @ new # ys) = add_image (bb_image bs new) (image_of bs (xs @ ys))"
    using image_of_insert[of bs xs new ys] bs by (simp add: blocks_ok_def add_image_def fun_eq_iff)
qed

lemma before_not_rev:
  assumes "before bs a b \<or> before bs b a" "0 < bb_len a" "0 < bb_len b" "0 < bs"
  shows "bb_block a < bb_block b \<Longrightarrow> before bs a b" and "\<not> bb_block a < bb_block b \<Longrightarrow> before bs b a"
  using assms before_block_less[of bs a b] before_block_less[of bs b a] by auto

lemma sorted_before_block:
  assumes "blocks_ok bs (xs @ b # ys)" "0 < bs"
  shows "\<forall>a \<in> set xs. bb_block a < bb_block b" "\<forall>c \<in> set ys. bb_block b < bb_block c"
  using assms before_block_less[of bs] by (auto simp: blocks_ok_def sorted_wrt_append)

text \<open>The search starts at or after the first node, from a node below the new one, so it ends between its neighbours.\<close>

lemma advance_neighbours:
  assumes ok: "blocks_ok bs (pre @ bb # suf)" and bs: "0 < bs" and lt: "bb_block bb < bb_block new"
    and new: "0 < bb_len new" "\<forall>b \<in> set (pre @ bb # suf). before bs b new \<or> before bs new b"
    and adv: "advance (bb_block new) pre bb suf = (pre', bb', suf')"
  shows "pre' @ bb' # suf' = pre @ bb # suf"
    and "\<forall>b \<in> set (pre' @ [bb']). before bs b new" and "\<forall>b \<in> set suf'. before bs new b"
proof -
  show eq: "pre' @ bb' # suf' = pre @ bb # suf" using advance_spec(1)[OF adv] .
  have ok': "blocks_ok bs (pre' @ bb' # suf')" using ok eq by simp
  have pos: "\<forall>b \<in> set (pre' @ bb' # suf'). 0 < bb_len b" using ok' by (simp add: blocks_ok_def)
  have fit: "\<forall>b \<in> set (pre' @ bb' # suf'). before bs b new \<or> before bs new b" using new(2) eq by metis
  have lt': "bb_block bb' < bb_block new" using advance_spec(2)[OF adv lt] .
  have "\<forall>b \<in> set (pre' @ [bb']). bb_block b < bb_block new"
    using sorted_before_block(1)[OF ok' bs] lt' by auto
  then show "\<forall>b \<in> set (pre' @ [bb']). before bs b new"
    using before_not_rev(1)[OF _ _ new(1) bs] pos fit by auto
  have "\<forall>b \<in> set suf'. \<not> bb_block b < bb_block new"
  proof (cases suf')
    case (Cons c cs)
    then have "\<forall>b \<in> set cs. bb_block c < bb_block b"
      using sorted_before_block(2)[of bs "pre' @ [bb']" c cs] ok' bs by simp
    then show ?thesis using advance_spec(3)[OF adv] Cons by auto
  qed simp
  then show "\<forall>b \<in> set suf'. before bs new b"
    using before_not_rev(2)[OF _ _ new(1) bs] pos fit by auto
qed

lemma queue_bb_from:
  assumes ok: "bbl_ok bbl" and can: "can_queue bbl new" and l: "data_blocks bbl = pre @ bb # suf"
    and lt: "bb_block bb < bb_block new"
  shows "\<exists>l. (let (pre1, b1, suf1) = advance (bb_block new) pre bb suf
              in link_and_merge (bbl_block_size bbl) pre1 b1 new suf1) = Inr l \<and>
            blocks_ok (unat (bbl_block_size bbl)) l \<and>
            image_of (unat (bbl_block_size bbl)) l =
              add_image (bb_image (unat (bbl_block_size bbl)) new)
                        (image_of (unat (bbl_block_size bbl)) (data_blocks bbl))"
proof -
  let ?w = "bbl_block_size bbl" let ?n = "unat ?w"
  obtain pre1 b1 suf1 where adv: "advance (bb_block new) pre bb suf = (pre1, b1, suf1)"
    by (metis prod_cases3)
  have w: "0 < ?w" "4 dvd ?n" and bok: "blocks_ok ?n (pre @ bb # suf)" using ok l by (simp_all add: bbl_ok_def)
  have n: "0 < ?n" using w(1) by (simp add: unat_gt_0 word_gt_0)
  have new: "0 < bb_len new" "\<forall>b \<in> set (pre @ bb # suf). before ?n b new \<or> before ?n new b"
    using can l by (simp_all add: can_queue_def)
  note nb = advance_neighbours[OF bok n lt new adv]
  have eq: "data_blocks bbl = (pre1 @ [b1]) @ suf1" using nb(1) l by simp
  have ins: "blocks_ok ?n ((pre1 @ [b1]) @ new # suf1)"
    "image_of ?n ((pre1 @ [b1]) @ new # suf1) = add_image (bb_image ?n new) (image_of ?n ((pre1 @ [b1]) @ suf1))"
    using can bok l eq by (intro blocks_ok_insert[OF _ n _ _ _ _ nb(2,3)]; simp add: can_queue_def)+
  have len: "unat (bb_len b1) + unat (bb_len new) < 2 ^ 32"
    "\<And>c. c \<in> set suf1 \<Longrightarrow> unat (bb_len b1) + unat (bb_len new) + unat (bb_len c) < 2 ^ 32"
    using can eq nb(2,3) by (auto simp: can_queue_def)
  show ?thesis
    using link_and_merge_ok[of ?w pre1 b1 new suf1, OF _ w len] ins eq adv by simp
qed

text \<open>The start the cursor gives is a node of the list below the new one.\<close>

lemma queue_bb_start:
  assumes l: "data_blocks bbl = first # rest" and dist: "distinct (map bb_addr (new # first # rest))"
    and lt: "bb_block first < bb_block new" and cur: "cursor_ok bbl new"
  obtains pre bb suf where "data_blocks bbl = pre @ bb # suf" "bb_block bb < bb_block new"
    "queue_bb bbl new =
        (let (pre1, b1, suf1) = advance (bb_block new) pre bb suf
         in bindC (link_and_merge (bbl_block_size bbl) pre1 b1 new suf1)
              (\<lambda>l. Inr (0, bbl\<lparr>data_blocks := l, last_used := bb_addr new\<rparr>)))"
proof -
  let ?p = "last_used bbl"
  have lt': "\<not> bb_block new < bb_block first" using lt by simp
  consider (none) "?p = 0" | (new) "?p \<noteq> 0" "?p = bb_addr new"
    | (node) "?p \<noteq> 0" "?p \<noteq> bb_addr new" "?p \<in> bb_addr ` set (first # rest)"
    using cur unfolding cursor_ok_def l by metis
  then show thesis
  proof cases
    case none
    then show thesis using that[of "[]" first rest] l lt lt' by (simp add: queue_bb_def)
  next
    case new
    then show thesis using that[of "[]" first rest] l lt lt' by (simp add: queue_bb_def)
  next
    case node
    then obtain pre post where sp: "split_at ?p (first # rest) = Some (pre, post)"
      using split_at_None[of ?p "first # rest"] by (cases "split_at ?p (first # rest)") auto
    note sp' = split_at_Some[OF sp]
    have "find_node ?p (first # rest) = Some (hd post)" using sp' by blast
    then have fn: "find_node ?p (new # first # rest) = Some (hd post)" using node(2) by simp
    obtain lu post' where post: "post = lu # post'" using sp' by (cases post) auto
    show thesis
    proof (cases "bb_block lu < bb_block new")
      case True
      then have "queue_bb bbl new =
          (let (pre1, b1, suf1) = advance (bb_block new) pre lu post'
           in bindC (link_and_merge (bbl_block_size bbl) pre1 b1 new suf1)
                (\<lambda>l. Inr (0, bbl\<lparr>data_blocks := l, last_used := bb_addr new\<rparr>)))"
        using lt' sp fn node(1) post unfolding queue_bb_def l by simp
      moreover have "data_blocks bbl = pre @ lu # post'" using sp' l post by simp
      ultimately show thesis using that True by blast
    next
      case False
      then show thesis using that[of "[]" first rest] l lt lt' fn node(1) post by (simp add: queue_bb_def)
    qed
  qed
qed

lemma queue_bb_sound:
  assumes ok: "bbl_ok bbl" and can: "can_queue bbl new" and cur: "cursor_ok bbl new"
  shows "\<exists>bbl'. queue_bb bbl new = Inr (0, bbl') \<and> bbl_ok bbl' \<and> bbl_block_size bbl' = bbl_block_size bbl \<and>
     image_of (unat (bbl_block_size bbl)) (data_blocks bbl') =
       add_image (bb_image (unat (bbl_block_size bbl)) new)
                 (image_of (unat (bbl_block_size bbl)) (data_blocks bbl))"
proof (cases "data_blocks bbl")
  case Nil
  then show ?thesis using ok can
    by (auto simp: queue_bb_def bbl_ok_def blocks_ok_def can_queue_def add_image_def fun_eq_iff split: option.splits)
next
  case (Cons first rest)
  let ?w = "bbl_block_size bbl" let ?n = "unat ?w"
  have w: "0 < ?w" "4 dvd ?n" and bok: "blocks_ok ?n (first # rest)" using ok Cons by (simp_all add: bbl_ok_def)
  have n: "0 < ?n" using w(1) by (simp add: unat_gt_0 word_gt_0)
  have pos: "\<forall>b \<in> set (first # rest). 0 < bb_len b" using bok by (simp add: blocks_ok_def)
  have new: "0 < bb_len new" "\<forall>b \<in> set (first # rest). before ?n b new \<or> before ?n new b"
    using can Cons by (simp_all add: can_queue_def)
  show ?thesis
  proof (cases "bb_block new < bb_block first")
    case True
    then have "\<forall>b \<in> set (first # rest). bb_block new < bb_block b"
      using sorted_before_block(2)[of ?n "[]" first rest] bok n by auto
    then have bef: "\<forall>b \<in> set (first # rest). before ?n new b"
      using before_not_rev(2)[OF _ _ new(1) n] new(2) pos by (meson not_less_iff_gr_or_eq)
    have nm: "bb_addr new \<noteq> 0" "bb_addr new \<notin> bb_addr ` set ([] @ first # rest)"
      "\<forall>b \<in> set ([] @ first # rest). names_agree b new \<and> names_agree new b"
      using can Cons by (simp_all add: can_queue_def)
    have "blocks_ok ?n ([] @ new # first # rest)"
      "image_of ?n ([] @ new # first # rest) = add_image (bb_image ?n new) (image_of ?n ([] @ first # rest))"
      using bok by (intro blocks_ok_insert[OF _ n new(1) nm _ bef]; simp)+
    then show ?thesis using True Cons w by (auto simp: queue_bb_def bbl_ok_def)
  next
    case False
    have ne: "bb_block first \<noteq> bb_block new"
      using new(2) before_block_less[of ?n first new] before_block_less[of ?n new first] n pos new(1) by auto
    have dist: "distinct (map bb_addr (new # first # rest))"
      using bok can Cons by (auto simp: blocks_ok_def can_queue_def)
    from ne have ltf: "bb_block first < bb_block new" using False by simp
    obtain pre bb suf where start: "data_blocks bbl = pre @ bb # suf" "bb_block bb < bb_block new"
      and cont: "queue_bb bbl new =
        (let (pre1, b1, suf1) = advance (bb_block new) pre bb suf
         in bindC (link_and_merge ?w pre1 b1 new suf1)
              (\<lambda>l. Inr (0, bbl\<lparr>data_blocks := l, last_used := bb_addr new\<rparr>)))"
      using dist ltf cur by (rule queue_bb_start[OF Cons])
    obtain l where l: "(let (pre1, b1, suf1) = advance (bb_block new) pre bb suf
              in link_and_merge ?w pre1 b1 new suf1) = Inr l" "blocks_ok ?n l"
      "image_of ?n l = add_image (bb_image ?n new) (image_of ?n (data_blocks bbl))"
      using queue_bb_from[OF ok can start] by blast
    have "queue_bb bbl new = Inr (0, bbl\<lparr>data_blocks := l, last_used := bb_addr new\<rparr>)"
      using cont l(1) by (auto simp: split_beta Let_def)
    then show ?thesis using l w by (simp add: bbl_ok_def)
  qed
qed

section \<open>Splitting and moving\<close>

lemma shift_content_at:
  "4 dvd unat n \<Longrightarrow> content_at (shift_content c n) i = content_at c (unat n + i)"
proof (cases c)
  case (BB_Fill v)
  assume "4 dvd unat n"
  then have "(unat n + i) mod 4 = i mod 4" by (metis mod_add_left_eq add_0 dvd_imp_mod_0)
  with BB_Fill show ?thesis by simp
qed (auto simp: algebra_simps)

lemma cut_facts:
  assumes n: "n = unat block_size" "0 < n" "4 dvd n" and m: "n dvd unat m" "0 < m" "m < bb_len b"
    and fin: "bb_end n b \<le> 2 ^ 32"
  shows "unat (bb_block (cut_high p block_size b m)) = unat (bb_block b) + unat m div n"
    and "unat (bb_len (cut_high p block_size b m)) = unat (bb_len b) - unat m"
    and "bb_end n (cut_low b m) = unat (bb_block (cut_high p block_size b m))"
    and "bb_end n (cut_high p block_size b m) = bb_end n b"
    and "bb_image n b x = (case bb_image n (cut_low b m) x of Some s \<Rightarrow> Some s
                           | None \<Rightarrow> bb_image n (cut_high p block_size b m) x)"
proof -
  obtain k where k: "unat m = n * k" using m(1) by blast
  have ml: "unat m < unat (bb_len b)" using m(3) by (simp add: word_less_nat_alt)
  have e: "bb_end n b = unat (bb_block b) + k + (unat (bb_len b) - unat m + n - 1) div n"
  proof -
    have "unat (bb_len b) + n - 1 = (unat (bb_len b) - unat m + n - 1) + k * n"
      using ml k n(2) by (simp add: algebra_simps)
    then have "(unat (bb_len b) + n - 1) div n = k + (unat (bb_len b) - unat m + n - 1) div n"
      using n(2) by (metis div_mult_self1 less_numeral_extra(3))
    then show ?thesis by (simp add: bb_end_def)
  qed
  have pos: "0 < (unat (bb_len b) - unat m + n - 1) div n" using ml n(2) by (intro ceil_div_pos) auto
  have kd: "unat m div n = k" using k n(2) by simp
  show blk: "unat (bb_block (cut_high p block_size b m)) = unat (bb_block b) + unat m div n"
    using fin e pos kd by (simp add: cut_high_def unat_add_u32 unat_div_distrib n(1)[symmetric])
  show len: "unat (bb_len (cut_high p block_size b m)) = unat (bb_len b) - unat m"
    using m(3) by (simp add: cut_high_def unat_sub)
  show "bb_end n (cut_low b m) = unat (bb_block (cut_high p block_size b m))"
    unfolding blk using ceil_div_dvd[OF n(2) m(1)] by (simp add: bb_end_def cut_low_def)
  show "bb_end n (cut_high p block_size b m) = bb_end n b"
    unfolding e bb_end_def[of n "cut_high p block_size b m"] blk len kd by simp
  have st: "bb_start n (cut_high p block_size b m) = bb_start n b + unat m"
    unfolding bb_start_def blk kd k by (simp add: algebra_simps)
  have four: "4 dvd unat m" using n(3) k by simp
  show "bb_image n b x = (case bb_image n (cut_low b m) x of Some s \<Rightarrow> Some s
                           | None \<Rightarrow> bb_image n (cut_high p block_size b m) x)"
  proof (cases "x < bb_start n b + unat m")
    case True
    then show ?thesis using ml st by (simp add: bb_image_def bb_start_def cut_low_def)
  next
    case False
    then have "bb_image n (cut_high p block_size b m) x =
        (if x < bb_start n b + unat (bb_len b)
         then Some (content_at (bb_cont b) (unat m + (x - (bb_start n b + unat m)))) else None)"
      using ml len st shift_content_at[OF four, of "bb_cont b"] by (simp add: bb_image_def) (simp add: cut_high_def)
    with False show ?thesis by (simp add: bb_image_def bb_start_def cut_low_def)
  qed
qed

lemma names_agree_cut [simp]:
  "names_agree (cut_low b m) c = names_agree b c" "names_agree c (cut_low b m) = names_agree c b"
  "names_agree (cut_high p w b m) c = names_agree b c" "names_agree c (cut_high p w b m) = names_agree c b"
  by (cases "bb_cont b"; cases "bb_cont c"; simp add: names_agree_def cut_low_def cut_high_def)+

lemma cut_sel [simp]: "bb_addr (cut_low b m) = bb_addr b" "bb_block (cut_low b m) = bb_block b"
  "bb_len (cut_low b m) = m" "bb_addr (cut_high p w b m) = p"
  by (simp_all add: cut_low_def cut_high_def)

lemma blocks_ok_cut:
  assumes ok: "blocks_ok n (pre @ b # post)"
    and n: "n = unat block_size" "0 < n" "4 dvd n" and m: "n dvd unat m" "0 < m" "m < bb_len b"
    and fin: "bb_end n b \<le> 2 ^ 32" and p: "p \<noteq> 0" "p \<notin> bb_addr ` set (pre @ b # post)"
  shows "blocks_ok n (pre @ cut_low b m # cut_high p block_size b m # post)"
    and "image_of n (pre @ cut_low b m # cut_high p block_size b m # post) = image_of n (pre @ b # post)"
proof -
  let ?h = "cut_high p block_size b m"
  note c = cut_facts[OF n m fin, where p = p]
  have len: "0 < bb_len ?h" using c(2) m(3) by (simp add: word_less_nat_alt)
  have ord: "before n (cut_low b m) ?h" "\<And>x. before n x (cut_low b m) = before n x b"
    "\<And>x. before n ?h x = before n b x"
    using c(3,4) by (simp_all add: before_def)
  have lh: "before n x ?h" if "before n x b" for x
    using that c(1) by (simp add: before_def)
  have hl: "before n (cut_low b m) x" if "before n b x" for x
    using that c(3,4) bb_end_gt[OF len n(2)] by (simp add: before_def)
  show "blocks_ok n (pre @ cut_low b m # ?h # post)"
    using ok len ord lh hl p m(2) by (auto simp: blocks_ok_def sorted_wrt_append)
  show "image_of n (pre @ cut_low b m # ?h # post) = image_of n (pre @ b # post)"
    using c(5) by (simp add: image_of_append fun_eq_iff split: option.splits)
qed

text \<open>Where the chain is linked: behind the nodes up to its start block.\<close>

lemma link_after_spec:
  assumes "xs \<noteq> []"
  shows "\<exists>ys zs. xs = ys @ zs \<and> ys \<noteq> [] \<and> link_after xs seg nb = ys @ seg @ zs \<and>
     (\<forall>y \<in> set (tl ys). \<not> nb < bb_block y) \<and> (zs = [] \<or> nb < bb_block (hd zs))"
  using assms
proof (induction xs seg nb rule: link_after.induct)
  case (2 b seg nb)
  show ?case by (intro exI[of _ "[b]"] exI[of _ "[]"]) simp
next
  case (3 b c bs seg nb)
  show ?case
  proof (cases "nb < bb_block c")
    case True
    then show ?thesis by (intro exI[of _ "[b]"] exI[of _ "c # bs"]) simp
  next
    case False
    with 3 have "\<exists>ys zs. c # bs = ys @ zs \<and> ys \<noteq> [] \<and> link_after (c # bs) seg nb = ys @ seg @ zs \<and>
      (\<forall>y \<in> set (tl ys). \<not> nb < bb_block y) \<and> (zs = [] \<or> nb < bb_block (hd zs))" by blast
    then obtain ys zs where r: "c # bs = ys @ zs" "ys \<noteq> []" "link_after (c # bs) seg nb = ys @ seg @ zs"
      "\<forall>y \<in> set (tl ys). \<not> nb < bb_block y" "zs = [] \<or> nb < bb_block (hd zs)" by (elim exE conjE) (rule that)
    then have "hd ys = c" by (metis hd_append2 list.sel(1))
    with r False have "\<forall>y \<in> set ys. \<not> nb < bb_block y" by (cases ys) auto
    then have tl: "\<forall>y \<in> set (tl (b # ys)). \<not> nb < bb_block y" by simp
    have "link_after (b # c # bs) seg nb = (b # ys) @ seg @ zs" using r(3) False by simp
    moreover have "b # c # bs = (b # ys) @ zs" using r(1) by simp
    ultimately show ?thesis using tl r(5) by blast
  qed
qed auto

lemma link_after_ok:
  assumes ok: "blocks_ok n l" "blocks_ok n seg" and n: "0 < n" and seg: "seg \<noteq> []" and l: "l \<noteq> []"
    and fits: "chain_fits n seg l"
  shows "blocks_ok n (link_after l seg (bb_block (hd seg)))"
    and "image_of n (link_after l seg (bb_block (hd seg))) = add_image (image_of n seg) (image_of n l)"
proof -
  let ?r = "link_after l seg (bb_block (hd seg))"
  from link_after_spec[OF l, of seg "bb_block (hd seg)"] obtain ys zs where r: "l = ys @ zs" "ys \<noteq> []" "?r = ys @ seg @ zs"
    "\<forall>y \<in> set (tl ys). \<not> bb_block (hd seg) < bb_block y" "zs = [] \<or> bb_block (hd seg) < bb_block (hd zs)"
    by (elim exE conjE) (rule that)
  have pos: "\<forall>b \<in> set seg. 0 < bb_len b" "\<forall>b \<in> set l. 0 < bb_len b" using ok by (simp_all add: blocks_ok_def)
  have hs: "hd seg \<in> set seg" using seg by simp
  have low: "\<forall>a \<in> set ys. \<forall>c \<in> set seg. before n a c"
  proof
    fix a assume a: "a \<in> set ys"
    show "\<forall>c \<in> set seg. before n a c"
    proof (cases "a = hd l")
      case True
      then show ?thesis using fits l by (simp add: chain_fits_def)
    next
      case False
      then have "a \<in> set (tl ys)" using a r(1,2) by (cases ys) auto
      then have "\<not> before n (hd seg) a" using r(4) before_block_less[of n "hd seg" a] pos(1) hs n by blast
      then show ?thesis using fits a r(1) hs by (auto simp: chain_fits_def)
    qed
  qed
  have high: "\<forall>a \<in> set zs. \<forall>c \<in> set seg. before n c a"
  proof
    fix a assume a: "a \<in> set zs"
    have "sorted_wrt (before n) zs" using ok(1) r(1) by (simp add: blocks_ok_def sorted_wrt_append)
    then have "a = hd zs \<or> before n (hd zs) a" using a by (cases zs) auto
    then have "bb_block (hd zs) \<le> bb_block a"
      using before_block_less[of n "hd zs" a] pos(2) r(1) a n by (cases zs) auto
    then have "bb_block (hd seg) < bb_block a" using r(5) a by (cases zs) auto
    then have "\<not> before n a (hd seg)" using before_block_less[of n a "hd seg"] pos(2) r(1) a n by auto
    then show "\<forall>c \<in> set seg. before n c a" using fits a r(1) hs by (auto simp: chain_fits_def)
  qed
  have sets: "set ?r = set seg \<union> set l" using r(1,3) by auto
  have "blocks_ok n (ys @ seg @ zs)"
    using ok fits low high unfolding r(1)
    by (auto simp: blocks_ok_def sorted_wrt_append chain_fits_def)
  then show k: "blocks_ok n ?r" unfolding r(3) .
  show "image_of n ?r = add_image (image_of n seg) (image_of n l)"
  proof
    fix x
    have iff: "image_of n ?r x = Some s \<longleftrightarrow> image_of n seg x = Some s \<or> image_of n l x = Some s" for s
      using ok k image_of_iff[of n _ x s] n sets by (auto simp: blocks_ok_def)
    show "image_of n ?r x = add_image (image_of n seg) (image_of n l) x"
    proof (cases "image_of n seg x")
      case None
      then have "image_of n ?r x = Some s \<longleftrightarrow> image_of n l x = Some s" for s using iff[of s] by simp
      then have "image_of n ?r x = image_of n l x" by (rule option_eqI)
      with None show ?thesis by (simp add: add_image_def)
    next
      case (Some s)
      then show ?thesis using iff[of s] by (simp add: add_image_def)
    qed
  qed
qed

text \<open>What a duplicate block number does to each of the two attempts.\<close>

lemma merge_bb_returns:
  "bb_block a < bb_block b \<Longrightarrow> 0 < block_size \<Longrightarrow>
     \<exists>rc a'. merge_bb block_size (Some a) (Some b) = Inr (rc, Some a') \<and> bb_block a' = bb_block a"
  by (auto simp: merge_bb_def udivC_def word_gt_0)

lemma merge_bb_assert: "\<not> bb_block a < bb_block b \<Longrightarrow> merge_bb block_size (Some a) (Some b) = Inl Assert_Failed"
  by (simp add: merge_bb_def assertC_def)

lemma link_and_merge_above:
  "bb_block c = bb_block new \<Longrightarrow> link_and_merge block_size pre bb new (c # suf) = Inl Assert_Failed"
  by (simp add: link_and_merge_def merge_bb_assert)

lemma link_and_merge_below:
  assumes "bb_block bb = bb_block new" "suf = [] \<or> bb_block new < bb_block (hd suf)" "0 < block_size"
  shows "link_and_merge block_size pre bb new suf = Inl Assert_Failed"
proof (cases suf)
  case Nil
  then show ?thesis using assms(1) by (simp add: link_and_merge_def merge_bb_assert)
next
  case (Cons c cs)
  then obtain rc n1 where "merge_bb block_size (Some new) (Some c) = Inr (rc, Some n1)" "bb_block n1 = bb_block new"
    using merge_bb_returns[of new c block_size] assms(2,3) by auto
  then show ?thesis using assms(1) Cons by (simp add: link_and_merge_def Let_def merge_bb_assert)
qed

lemma queue_bb_first_duplicate:
  assumes ok: "bbl_ok bbl" and l: "data_blocks bbl = first # rest" and eq: "bb_block first = bb_block new"
    and cur: "cursor_ok bbl new"
  shows "queue_bb bbl new = Inl Assert_Failed"
proof -
  have w: "0 < bbl_block_size bbl" and bok: "blocks_ok (unat (bbl_block_size bbl)) (first # rest)"
    using ok l by (simp_all add: bbl_ok_def)
  have above: "\<forall>c \<in> set rest. bb_block new < bb_block c"
    using sorted_before_block(2)[of _ "[]" first rest] bok w eq by (simp add: unat_gt_0 word_gt_0)
  have adv: "advance (bb_block new) [] first rest = ([], first, rest)"
    using above by (cases rest) auto
  have dead: "link_and_merge (bbl_block_size bbl) [] first new rest = Inl Assert_Failed"
    using above w by (intro link_and_merge_below[OF eq]) (cases rest; simp)+
  show ?thesis
  proof (cases "last_used bbl = 0")
    case True
    then show ?thesis using adv dead eq unfolding queue_bb_def l by simp
  next
    case False
    then have "find_node (last_used bbl) (new # first # rest) \<noteq> None"
      using cur l unfolding find_node_None cursor_ok_def by auto
    then obtain lu where lu: "find_node (last_used bbl) (new # first # rest) = Some lu" by blast
    then have "\<not> bb_block lu < bb_block new"
      using find_node_mem[OF lu] above eq by (auto simp: not_less intro: less_imp_le)
    then show ?thesis using adv dead eq lu False unfolding queue_bb_def l by simp
  qed
qed

section \<open>Theorems\<close>




text \<open>C16: Splitting a node at a length of at least one block leaves an ordered list with the same
  image, in which the node starts where it did and has at most that length; the rest of it is in a
  new node behind it.\<close>

theorem backed_block_split_correct:
  assumes ok: "bbl_ok bbl" and mem: "b \<in> set (data_blocks bbl)"
    and fin: "bb_end (unat (bbl_block_size bbl)) b \<le> 2 ^ 32"
    and p: "p \<noteq> 0" "p \<notin> bb_addr ` set (data_blocks bbl)"
    and max: "bbl_block_size bbl \<le> max_len"
  shows "\<exists>bbl'. backed_block_split (Some p) bbl (bb_addr b) max_len = Inr (0, bbl') \<and> bbl_ok bbl' \<and>
     image_of (unat (bbl_block_size bbl)) (data_blocks bbl') =
       image_of (unat (bbl_block_size bbl)) (data_blocks bbl) \<and>
     (\<exists>b' \<in> set (data_blocks bbl'). bb_addr b' = bb_addr b \<and> bb_block b' = bb_block b \<and> bb_len b' \<le> max_len)"
proof -
  let ?w = "bbl_block_size bbl" let ?n = "unat ?w" let ?m = "?w * (max_len div ?w)"
  from mem obtain pre post where l: "data_blocks bbl = pre @ b # post" by (meson split_list)
  have w: "0 < ?w" "4 dvd ?n" and bok: "blocks_ok ?n (pre @ b # post)" using ok l by (simp_all add: bbl_ok_def)
  have n: "0 < ?n" using w(1) by (simp add: unat_gt_0 word_gt_0)
  have sp: "split_at (bb_addr b) (data_blocks bbl) = Some (pre, b # post)"
    using split_at_mem[of pre b post] bok l by (simp add: blocks_ok_def)
  have um: "unat ?m = ?n * (unat max_len div ?n)"
  proof -
    have "?n * (unat max_len div ?n) < 2 ^ 32"
      using unat_u32_less[of max_len] by (simp add: le_less_trans[OF times_div_less_eq_dividend])
    then show ?thesis by (simp add: unat_word_ariths(2) unat_div_distrib)
  qed
  have mpos: "0 < ?m" using um max n by (simp add: word_less_nat_alt word_le_nat_alt div_greater_zero_iff)
  have mle: "?m \<le> max_len" unfolding word_le_nat_alt um by simp
  show ?thesis
  proof (cases "bb_len b \<le> ?m")
    case True
    then show ?thesis using sp w ok mem mle
      by (auto simp: backed_block_split_def ALIGN_DOWN_def udivC_def word_gt_0 intro!: bexI[of _ b])
  next
    case False
    then have lt: "?m < bb_len b" by simp
    have d: "?n dvd unat ?m" using um by simp
    have pp: "p \<notin> bb_addr ` set (pre @ b # post)" using p(2) l by simp
    note cut = blocks_ok_cut[OF bok refl n w(2) d mpos lt fin p(1) pp]
    have "backed_block_split (Some p) bbl (bb_addr b) max_len =
        Inr (0, bbl\<lparr>data_blocks := pre @ cut_low b ?m # cut_high p ?w b ?m # post\<rparr>)"
      using sp w(1) False
      by (simp add: backed_block_split_def ALIGN_DOWN_def udivC_def word_gt_0 Let_def cut_low_def cut_high_def)
    then show ?thesis using cut w l mle by (auto simp: bbl_ok_def)
  qed
qed

text \<open>C17: Moving a run of nodes to a list in which it fits into one gap behind the first node: the
  run leaves the first list, the second one stays ordered and its image gains exactly the bytes of
  the run, and both cursors are reset.\<close>

theorem backed_block_list_move_correct:
  assumes ok: "bbl_ok from" "bbl_ok to" "bbl_block_size to = bbl_block_size from"
    and l: "data_blocks from = pre @ seg @ post" "seg \<noteq> []"
    and fits: "chain_fits (unat (bbl_block_size from)) seg (data_blocks to)"
  shows "\<exists>from' to'. backed_block_list_move from to (bb_addr (hd seg)) (bb_addr (last seg)) = Inr (from', to') \<and>
     bbl_ok from' \<and> bbl_ok to' \<and> data_blocks from' = pre @ post \<and> last_used from' = 0 \<and> last_used to' = 0 \<and>
     image_of (unat (bbl_block_size to)) (data_blocks to') =
       add_image (image_of (unat (bbl_block_size to)) seg) (image_of (unat (bbl_block_size to)) (data_blocks to))"
proof -
  let ?w = "bbl_block_size from" let ?n = "unat ?w"
  have bok: "blocks_ok ?n (pre @ seg @ post)" "blocks_ok ?n (data_blocks to)" and w: "0 < ?w" "4 dvd ?n"
    using ok l by (simp_all add: bbl_ok_def)
  have n: "0 < ?n" using w(1) by (simp add: unat_gt_0 word_gt_0)
  have seg: "blocks_ok ?n seg" "blocks_ok ?n (pre @ post)"
    using bok(1) by (auto simp: blocks_ok_def sorted_wrt_append)
  obtain b bs where sb: "seg = b # bs" using l(2) by (cases seg) auto
  have sp1: "split_at (bb_addr (hd seg)) (data_blocks from) = Some (pre, seg @ post)"
    using split_at_mem[of pre b "bs @ post"] bok(1) l sb by (simp add: blocks_ok_def)
  have ss: "seg @ post = butlast seg @ last seg # post" using l(2) by simp
  have "distinct (map bb_addr (seg @ post))" using bok(1) by (simp add: blocks_ok_def)
  then have sp2: "split_at (bb_addr (last seg)) (seg @ post) = Some (butlast seg, last seg # post)"
    unfolding ss by (rule split_at_mem)
  have nz: "bb_addr (hd seg) \<noteq> 0" "bb_addr (last seg) \<noteq> 0" using seg(1) l(2) by (simp_all add: blocks_ok_def)
  let ?to = "if data_blocks to = [] then seg else link_after (data_blocks to) seg (bb_block (hd seg))"
  have mv: "backed_block_list_move from to (bb_addr (hd seg)) (bb_addr (last seg)) =
      Inr (from\<lparr>data_blocks := pre @ post, last_used := 0\<rparr>, to\<lparr>last_used := 0, data_blocks := ?to\<rparr>)"
    using sp1 sp2 nz l(2) by (simp add: backed_block_list_move_def Let_def)
  have "blocks_ok ?n ?to \<and> image_of ?n ?to = add_image (image_of ?n seg) (image_of ?n (data_blocks to))"
    using link_after_ok[OF bok(2) seg(1) n l(2) _ fits] seg(1)
    by (auto simp: add_image_def fun_eq_iff split: option.splits)
  then show ?thesis using mv seg(2) w ok(3) by (simp add: bbl_ok_def)
qed


text \<open>C25: After a merge into the preceding block the cursor points at the freed node: the next block
  that is not below the first one follows it, unless the allocator hands out that address again.\<close>

theorem queue_bb_dangling:
  assumes q: "queue_bb bbl new = Inr (0, bbl')" and ne: "data_blocks bbl \<noteq> []"
    and above: "bb_block (hd (data_blocks bbl)) \<le> bb_block new" and nz: "bb_addr new \<noteq> 0"
    and freed: "bb_addr new \<notin> bb_addr ` set (data_blocks bbl')"
    and next_bb: "data_blocks bbl' \<noteq> []" "bb_block (hd (data_blocks bbl')) \<le> bb_block next_new"
      "bb_addr next_new \<noteq> bb_addr new"
  shows "queue_bb bbl' next_new = Inl Use_After_Free"
proof -
  obtain f r where l: "data_blocks bbl = f # r" using ne by (cases "data_blocks bbl") auto
  have "\<not> bb_block new < bb_block f" using above l by (simp add: not_less)
  then have lu: "last_used bbl' = bb_addr new"
    using q unfolding queue_bb_def l by (simp only: list.case if_False) (auto simp: split_beta Let_def)
  obtain f' r' where l': "data_blocks bbl' = f' # r'" using next_bb(1) by (cases "data_blocks bbl'") auto
  have "find_node (bb_addr new) (next_new # f' # r') = None"
    unfolding find_node_None using freed next_bb(3) l' by auto
  then show ?thesis using next_bb(2) nz unfolding queue_bb_def l' lu by (simp add: not_less)
qed

theorem queue_bb_dangling_witness:
  "queue_bb \<lparr>data_blocks = [\<lparr>bb_addr = 8, bb_block = 0, bb_len = 8, bb_cont = BB_Fill 0\<rparr>],
             last_used = 16, bbl_block_size = 4\<rparr>
      \<lparr>bb_addr = 24, bb_block = 4, bb_len = 4, bb_cont = BB_Fill 0\<rparr> = Inl Use_After_Free"
  by (rule queue_bb_dangling[of "\<lparr>data_blocks = [\<lparr>bb_addr = 8, bb_block = 0, bb_len = 4, bb_cont = BB_Fill 0\<rparr>],
             last_used = 0, bbl_block_size = 4\<rparr>" "\<lparr>bb_addr = 16, bb_block = 1, bb_len = 4, bb_cont = BB_Fill 0\<rparr>"])
    (simp_all add: queue_bb_def link_and_merge_def merge_bb_def udivC_def backed_block_type_of_def same_source_def)

theorem backed_block_split_correct_witness:
  "\<exists>bbl'. backed_block_split (Some 24) sample_bbl 16 7 = Inr (0, bbl') \<and> bbl_ok bbl' \<and>
      image_of 4 (data_blocks bbl') = image_of 4 (data_blocks sample_bbl)"
proof -
  have "bbl_ok sample_bbl" by (simp add: sample_bbl_def bbl_ok_def blocks_ok_def before_def bb_end_def names_agree_def)
  from backed_block_split_correct[OF this, of "\<lparr>bb_addr = 16, bb_block = 4, bb_len = 8, bb_cont = BB_Fd 3 12\<rparr>" 24 7]
  show ?thesis by (auto simp: sample_bbl_def bb_end_def)
qed

theorem backed_block_list_move_correct_witness:
  "\<exists>from' to'. backed_block_list_move sample_bbl (backed_block_list_new 4) 16 16 = Inr (from', to') \<and>
      bbl_ok from' \<and> bbl_ok to' \<and> image_of 4 (data_blocks to') 20 = Some (Fd_Byte 3 16)"
proof -
  let ?b = "\<lparr>bb_addr = 16, bb_block = 4, bb_len = 8, bb_cont = BB_Fd 3 12\<rparr>"
  have "bbl_ok sample_bbl" "bbl_ok (backed_block_list_new 4)"
    by (simp_all add: sample_bbl_def bbl_ok_def blocks_ok_def before_def bb_end_def names_agree_def backed_block_list_new_def)
  from backed_block_list_move_correct[OF this, of "[hd (data_blocks sample_bbl)]" "[?b]" "[]"]
  show ?thesis
    by (auto simp: sample_bbl_def backed_block_list_new_def chain_fits_def add_image_def bb_image_def bb_start_def)
qed

text \<open>A chain below the first node of the target is still linked behind it.\<close>

theorem backed_block_list_move_unordered:
  "\<exists>from' to'. backed_block_list_move
      \<lparr>data_blocks = [\<lparr>bb_addr = 8, bb_block = 0, bb_len = 4, bb_cont = BB_Fill 0\<rparr>], last_used = 0, bbl_block_size = 4\<rparr>
      \<lparr>data_blocks = [\<lparr>bb_addr = 16, bb_block = 5, bb_len = 4, bb_cont = BB_Fill 0\<rparr>], last_used = 0, bbl_block_size = 4\<rparr>
      0 0 = Inr (from', to') \<and> map bb_block (data_blocks to') = [5, 0]"
  by (simp add: backed_block_list_move_def Let_def)

text \<open>Two runs of one fill value whose lengths add up to 4 GiB become a node of length 0.\<close>

theorem queue_bb_length_wraps:
  "\<exists>bbl'. queue_bb \<lparr>data_blocks = [\<lparr>bb_addr = 8, bb_block = 0, bb_len = 0x80000000, bb_cont = BB_Fill 0\<rparr>],
                   last_used = 0, bbl_block_size = 4096\<rparr>
      \<lparr>bb_addr = 16, bb_block = 0x80000, bb_len = 0x80000000, bb_cont = BB_Fill 0\<rparr> = Inr (0, bbl') \<and>
     map bb_len (data_blocks bbl') = [0]"
  by (simp add: queue_bb_def link_and_merge_def merge_bb_def udivC_def backed_block_type_of_def same_source_def)

text \<open>Both halves of a split file block free the same name copy.\<close>

theorem backed_block_split_frees_twice:
  "\<exists>bbl'. backed_block_split (Some 16)
      \<lparr>data_blocks = [\<lparr>bb_addr = 8, bb_block = 0, bb_len = 8, bb_cont = BB_File 99 ''f'' 0\<rparr>],
       last_used = 0, bbl_block_size = 4\<rparr> 8 4 = Inr (0, bbl') \<and>
     \<not> distinct (backed_block_list_destroy bbl')"
  by (simp add: backed_block_split_def ALIGN_DOWN_def udivC_def Let_def backed_block_list_destroy_def backed_block_destroy_def)

end
