(* ===== verification/Output_File.thy ===== *)
theory Output_File
  imports Backed_Block Crc32
begin

text \<open>
  Writing an image, \<^verbatim>\<open>system/core/libsparse/output_file.c\<close>. An \<^verbatim>\<open>output_file\<close> writes through
  a table of operations to a sink: an open file, a compressed file, or a user callback. The
  type of the sink's state is a type variable, and the table is a record of functions on it.
  The second table of the code, sparse or normal chunks, has two instances, which are tags
  here. What the written bytes are read from (memory, open files) is an environment that the
  writing does not change: the output is none of the inputs.
\<close>

section \<open>The environment\<close>

text \<open>
  Memory, \<^verbatim>\<open>open\<close> (a descriptor, or a negated error number), and the contents of the file
  behind a descriptor.
\<close>

record environment =
  env_mem :: "ptr \<Rightarrow> u8"
  env_open :: "string \<Rightarrow> int"
  env_fd :: "int \<Rightarrow> u8 list option"

definition EBADF :: int where "EBADF = 9"

definition page_size :: nat where "page_size = 4096"

text \<open>
  Mapping a file and reading \<open>n\<close> bytes \<open>d\<close> bytes behind the start of the mapping: the rest of
  the last page of the file reads as zeros, a page behind it is a bus error.
\<close>

definition page_end :: "u8 list \<Rightarrow> nat" where
  "page_end c = page_size * ((length c + page_size - 1) div page_size)"

definition file_bytes :: "u8 list \<Rightarrow> nat \<Rightarrow> nat \<Rightarrow> u8 list" where
  "file_bytes c off n = map (\<lambda>i. if i < length c then c ! i else 0) [off..<off + n]"

definition sys_mmap :: "environment \<Rightarrow> int \<Rightarrow> int \<Rightarrow> int \<Rightarrow> int + u8 list" where
  "sys_mmap E fd len off =
     (case env_fd E fd of
        None \<Rightarrow> Inl EBADF
      | Some c \<Rightarrow> if len = 0 \<or> off < 0 then Inl EINVAL else if len < 0 then Inl ENOMEM else Inr c)"

section \<open>Sinks\<close>

record 's output_file_ops =
  op_open :: "'s \<Rightarrow> int \<Rightarrow> int \<times> 's"
  op_skip :: "'s \<Rightarrow> int \<Rightarrow> int \<times> 's"
  op_pad :: "'s \<Rightarrow> int \<Rightarrow> int \<times> 's"
  op_write :: "'s \<Rightarrow> u8 list \<Rightarrow> int \<times> 's"

text \<open>An open file: its bytes, its position, and the size at which the device is full.\<close>

record file_sink =
  fs_data :: "u8 list"
  fs_pos :: nat
  fs_cap :: "nat option"

definition overwrite :: "u8 list \<Rightarrow> nat \<Rightarrow> u8 list \<Rightarrow> u8 list" where
  "overwrite d p b =
     (if b = [] then d else take p d @ replicate (p - length d) 0 @ b @ drop (p + length b) d)"

definition sys_write :: "file_sink \<Rightarrow> u8 list \<Rightarrow> int \<times> file_sink" where
  "sys_write f b =
     (let n = (case fs_cap f of None \<Rightarrow> length b | Some c \<Rightarrow> min (length b) (c - fs_pos f))
      in if b \<noteq> [] \<and> n = 0 then (-1, f)
         else (int n, f\<lparr>fs_data := overwrite (fs_data f) (fs_pos f) (take n b), fs_pos := fs_pos f + n\<rparr>))"

definition sys_lseek_cur :: "file_sink \<Rightarrow> int \<Rightarrow> int \<times> file_sink" where
  "sys_lseek_cur f cnt =
     (let p = int (fs_pos f) + cnt in if p < 0 \<or> 2 ^ 63 \<le> p then (-1, f) else (p, f\<lparr>fs_pos := nat p\<rparr>))"

definition sys_ftruncate :: "file_sink \<Rightarrow> int \<Rightarrow> int \<times> file_sink" where
  "sys_ftruncate f len =
     (if len < 0 then (-1, f)
      else (0, f\<lparr>fs_data := take (nat len) (fs_data f) @ replicate (nat len - length (fs_data f)) 0\<rparr>))"

definition file_open :: "file_sink \<Rightarrow> int \<Rightarrow> int \<times> file_sink" where
  "file_open f fd = (0, f)"

definition file_skip :: "file_sink \<Rightarrow> int \<Rightarrow> int \<times> file_sink" where
  "file_skip f cnt = (let (ret, f1) = sys_lseek_cur f cnt in if ret < 0 then (-1, f1) else (0, f1))"

definition file_pad :: "file_sink \<Rightarrow> int \<Rightarrow> int \<times> file_sink" where
  "file_pad f len = (let (ret, f1) = sys_ftruncate f len in if ret < 0 then (- EINVAL, f1) else (0, f1))"

definition file_write :: "file_sink \<Rightarrow> u8 list \<Rightarrow> int \<times> file_sink" where
  "file_write f b =
     (let (ret, f1) = sys_write f b
      in if ret < 0 then (-1, f1) else if ret < int (length b) then (-1, f1) else (0, f1))"

definition file_ops :: "file_sink output_file_ops" where
  "file_ops = \<lparr>op_open = file_open, op_skip = file_skip, op_pad = file_pad, op_write = file_write\<rparr>"

text \<open>The compression library, as the functions the code calls on a handle that may be null.\<close>

record 'g gzlib =
  gzdopen :: "int \<Rightarrow> 'g option"
  gzerrno :: "int \<Rightarrow> int"
  gzseek_cur :: "'g option \<Rightarrow> int \<Rightarrow> int \<times> 'g option"
  gzseek_set :: "'g option \<Rightarrow> int \<Rightarrow> int \<times> 'g option"
  gztell :: "'g option \<Rightarrow> int"
  gzwrite :: "'g option \<Rightarrow> u8 list \<Rightarrow> int \<times> 'g option"

definition gz_file_open :: "'g gzlib \<Rightarrow> 'g option \<Rightarrow> int \<Rightarrow> int \<times> 'g option" where
  "gz_file_open z g fd =
     (case gzdopen z fd of None \<Rightarrow> (- gzerrno z fd, None) | Some h \<Rightarrow> (0, Some h))"

definition gz_file_skip :: "'g gzlib \<Rightarrow> 'g option \<Rightarrow> int \<Rightarrow> int \<times> 'g option" where
  "gz_file_skip z g cnt = (let (ret, g1) = gzseek_cur z g cnt in if ret < 0 then (-1, g1) else (0, g1))"

definition gz_file_pad :: "'g gzlib \<Rightarrow> 'g option \<Rightarrow> int \<Rightarrow> int \<times> 'g option" where
  "gz_file_pad z g len =
     (let ret = gztell z g
      in if ret < 0 then (-1, g)
         else if ret \<ge> len then (0, g)
         else let (ret2, g1) = gzseek_set z g (len - 1)
              in if ret2 < 0 then (-1, g1) else (0, snd (gzwrite z g1 [0])))"

definition gz_file_write :: "'g gzlib \<Rightarrow> 'g option \<Rightarrow> u8 list \<Rightarrow> int \<times> 'g option" where
  "gz_file_write z g b =
     (let (ret, g1) = gzwrite z g b
      in if ret < 0 then (-1, g1) else if ret < int (length b) then (-1, g1) else (0, g1))"

definition gz_file_ops :: "'g gzlib \<Rightarrow> 'g option output_file_ops" where
  "gz_file_ops z = \<lparr>op_open = gz_file_open z, op_skip = gz_file_skip z, op_pad = gz_file_pad z,
                   op_write = gz_file_write z\<rparr>"

text \<open>
  A callback with its private data: it is given the bytes, or no buffer and a length for bytes
  that are skipped.
\<close>

type_synonym 'p write_callback = "'p \<Rightarrow> u8 list option \<Rightarrow> int \<Rightarrow> int \<times> 'p"

definition INT_MAX :: int where "INT_MAX = 2147483647"

definition callback_file_open :: "'p \<Rightarrow> int \<Rightarrow> int \<times> 'p" where
  "callback_file_open p fd = (0, p)"

function callback_file_skip :: "'p write_callback \<Rightarrow> 'p \<Rightarrow> int \<Rightarrow> int \<times> 'p" where
  "callback_file_skip w p off =
     (if off > 0
      then let to_write = min off INT_MAX; (ret, p1) = w p None to_write
           in if ret < 0 then (ret, p1) else callback_file_skip w p1 (off - to_write)
      else (0, p))"
  by pat_completeness auto
termination
  by (relation "measure (\<lambda>(w, p, off). nat off)") (auto simp: INT_MAX_def)

definition callback_file_pad :: "'p \<Rightarrow> int \<Rightarrow> int \<times> 'p" where
  "callback_file_pad p len = (-1, p)"

definition callback_file_write :: "'p write_callback \<Rightarrow> 'p \<Rightarrow> u8 list \<Rightarrow> int \<times> 'p" where
  "callback_file_write w p b = w p (Some b) (int (length b))"

definition callback_file_ops :: "'p write_callback \<Rightarrow> 'p output_file_ops" where
  "callback_file_ops w = \<lparr>op_open = callback_file_open, op_skip = callback_file_skip w,
                         op_pad = callback_file_pad, op_write = callback_file_write w\<rparr>"

section \<open>Output files\<close>

datatype sparse_file_ops = Sparse_File_Ops | Normal_File_Ops

text \<open>
  The two buffers are not fields: \<^verbatim>\<open>zero_buf\<close> is never written, and \<^verbatim>\<open>fill_buf\<close> is filled
  before each use, up to the bytes behind its last whole word, which stay zero.
\<close>

record 's output_file =
  cur_out_ptr :: int
  chunk_cnt :: u32
  of_crc32 :: u32
  of_ops :: "'s output_file_ops"
  sparse_ops :: sparse_file_ops
  use_crc :: bool
  of_block_size :: u32
  of_len :: int
  of_sink :: 's

definition zero_buf :: "u32 \<Rightarrow> u8 list" where
  "zero_buf block_size = replicate (unat block_size) 0"

definition fill_buf :: "u32 \<Rightarrow> u32 \<Rightarrow> u8 list" where
  "fill_buf block_size v =
     concat (replicate (unat block_size div 4) (le32 v)) @ replicate (unat block_size mod 4) 0"

definition ops_write :: "'s output_file \<Rightarrow> u8 list \<Rightarrow> int \<times> 's output_file" where
  "ops_write out b = (let (ret, s) = op_write (of_ops out) (of_sink out) b in (ret, out\<lparr>of_sink := s\<rparr>))"

definition ops_skip :: "'s output_file \<Rightarrow> int \<Rightarrow> int \<times> 's output_file" where
  "ops_skip out n = (let (ret, s) = op_skip (of_ops out) (of_sink out) n in (ret, out\<lparr>of_sink := s\<rparr>))"

definition ops_pad :: "'s output_file \<Rightarrow> int \<Rightarrow> int \<times> 's output_file" where
  "ops_pad out n = (let (ret, s) = op_pad (of_ops out) (of_sink out) n in (ret, out\<lparr>of_sink := s\<rparr>))"

text \<open>A chunk is accounted for once it is written.\<close>

definition chunk_done :: "'s output_file \<Rightarrow> int \<Rightarrow> 's output_file" where
  "chunk_done out n = out\<lparr>cur_out_ptr := cur_out_ptr out + n, chunk_cnt := chunk_cnt out + 1\<rparr>"

definition write_sparse_skip_chunk :: "'s output_file \<Rightarrow> int \<Rightarrow> (int \<times> 's output_file) comp" where
  "write_sparse_skip_chunk out skip_len =
     (let bs = int (unat (of_block_size out))
      in if bs = 0 then Inl Division_By_Zero
         else if skip_len mod bs \<noteq> 0 then Inr (-1, out)
         else let hdr = \<lparr>ch_chunk_type = CHUNK_TYPE_DONT_CARE, ch_reserved1 = 0,
                         ch_chunk_sz = word_of_int (skip_len div bs),
                         ch_total_sz = word_of_nat CHUNK_HEADER_LEN\<rparr>;
                  (ret, out1) = ops_write out (chunk_header_bytes hdr)
              in if ret < 0 then Inr (-1, out1) else Inr (0, chunk_done out1 skip_len))"

definition write_sparse_fill_chunk :: "'s output_file \<Rightarrow> u32 \<Rightarrow> u32 \<Rightarrow> (int \<times> 's output_file) comp" where
  "write_sparse_fill_chunk out len fill_val =
     bindC (ALIGN len (of_block_size out)) (\<lambda>rnd_up_len.
     let hdr = \<lparr>ch_chunk_type = CHUNK_TYPE_FILL, ch_reserved1 = 0,
                ch_chunk_sz = rnd_up_len div of_block_size out,
                ch_total_sz = word_of_nat (CHUNK_HEADER_LEN + 4)\<rparr>;
         (ret, out1) = ops_write out (chunk_header_bytes hdr)
     in if ret < 0 then Inr (-1, out1)
        else let (ret2, out2) = ops_write out1 (le32 fill_val)
             in if ret2 < 0 then Inr (-1, out2)
                else let out3 = (if use_crc out2
                                 then out2\<lparr>of_crc32 := ((\<lambda>c. sparse_crc32 c (le32 fill_val)) ^^
                                                        unat (of_block_size out2 div 4)) (of_crc32 out2)\<rparr>
                                 else out2)
                     in Inr (0, chunk_done out3 (sint rnd_up_len)))"

text \<open>
  \<open>data\<close> is what the pointer of the code points at, \<open>len\<close> bytes. The operations take an
  \<^verbatim>\<open>int\<close> as length: a length that does not fit becomes negative, and the call reads outside
  the buffer.
\<close>

definition write_sparse_data_chunk :: "'s output_file \<Rightarrow> u32 \<Rightarrow> u8 list \<Rightarrow> (int \<times> 's output_file) comp" where
  "write_sparse_data_chunk out len data =
     bindC (ALIGN len (of_block_size out)) (\<lambda>rnd_up_len.
     let zero_len = rnd_up_len - len;
         hdr = \<lparr>ch_chunk_type = CHUNK_TYPE_RAW, ch_reserved1 = 0,
                ch_chunk_sz = rnd_up_len div of_block_size out,
                ch_total_sz = word_of_nat CHUNK_HEADER_LEN + rnd_up_len\<rparr>;
         (ret, out1) = ops_write out (chunk_header_bytes hdr)
     in if ret < 0 then Inr (-1, out1)
        else assertC (unat len < 2 ^ 31) Out_Of_Bounds
          (let (ret2, out2) = ops_write out1 data
           in if ret2 < 0 then Inr (-1, out2)
              else assertC (zero_len \<le> of_block_size out) Out_Of_Bounds
                (let zeros = take (unat zero_len) (zero_buf (of_block_size out));
                     (ret3, out3) = (if zero_len \<noteq> 0 then ops_write out2 zeros else (0, out2))
                 in if ret3 < 0 then Inr (-1, out3)
                    else let out4 = (if use_crc out3
                                     then out3\<lparr>of_crc32 := sparse_crc32 (sparse_crc32 (of_crc32 out3) data) zeros\<rparr>
                                     else out3)
                         in Inr (0, chunk_done out4 (sint rnd_up_len)))))"

text \<open>The result of the second write is not looked at.\<close>

definition write_sparse_end_chunk :: "'s output_file \<Rightarrow> (int \<times> 's output_file) comp" where
  "write_sparse_end_chunk out =
     (if use_crc out
      then let hdr = \<lparr>ch_chunk_type = CHUNK_TYPE_CRC32, ch_reserved1 = 0, ch_chunk_sz = 0,
                      ch_total_sz = word_of_nat (CHUNK_HEADER_LEN + 4)\<rparr>;
               (ret, out1) = ops_write out (chunk_header_bytes hdr)
           in if ret < 0 then Inr (ret, out1)
              else let (_, out2) = ops_write out1 (le32 (of_crc32 out1))
                   in Inr (0, out2\<lparr>chunk_cnt := chunk_cnt out2 + 1\<rparr>)
      else Inr (0, out))"

definition write_normal_data_chunk :: "'s output_file \<Rightarrow> u32 \<Rightarrow> u8 list \<Rightarrow> (int \<times> 's output_file) comp" where
  "write_normal_data_chunk out len data =
     bindC (ALIGN len (of_block_size out)) (\<lambda>rnd_up_len.
     assertC (unat len < 2 ^ 31) Out_Of_Bounds
       (let (ret, out1) = ops_write out data
        in if ret < 0 then Inr (ret, out1)
           else if rnd_up_len > len then Inr (ops_skip out1 (int (unat (rnd_up_len - len))))
           else Inr (ret, out1)))"

function normal_fill_loop :: "'s output_file \<Rightarrow> u8 list \<Rightarrow> nat \<Rightarrow> nat \<Rightarrow> (int \<times> 's output_file) comp" where
  "normal_fill_loop out buf bs len =
     (if len = 0 then Inr (0, out)
      else if bs = 0 then Inl Diverges
      else let write_len = min len bs; (ret, out1) = ops_write out (take write_len buf)
           in if ret < 0 then Inr (ret, out1) else normal_fill_loop out1 buf bs (len - write_len))"
  by pat_completeness auto
termination
  by (relation "measure (\<lambda>(out, buf, bs, len). len)") auto

definition write_normal_fill_chunk :: "'s output_file \<Rightarrow> u32 \<Rightarrow> u32 \<Rightarrow> (int \<times> 's output_file) comp" where
  "write_normal_fill_chunk out len fill_val =
     normal_fill_loop out (fill_buf (of_block_size out) fill_val) (unat (of_block_size out)) (unat len)"

definition write_normal_skip_chunk :: "'s output_file \<Rightarrow> int \<Rightarrow> (int \<times> 's output_file) comp" where
  "write_normal_skip_chunk out len = Inr (ops_skip out len)"

definition write_normal_end_chunk :: "'s output_file \<Rightarrow> (int \<times> 's output_file) comp" where
  "write_normal_end_chunk out = Inr (ops_pad out (of_len out))"

section \<open>Operations\<close>

definition write_end_chunk :: "'s output_file \<Rightarrow> (int \<times> 's output_file) comp" where
  "write_end_chunk out =
     (case sparse_ops out of Sparse_File_Ops \<Rightarrow> write_sparse_end_chunk out
      | Normal_File_Ops \<Rightarrow> write_normal_end_chunk out)"

text \<open>Closing returns the sink; the result of the end chunk is not looked at.\<close>

definition output_file_close :: "'s output_file \<Rightarrow> 's comp" where
  "output_file_close out = bindC (write_end_chunk out) (\<lambda>(_, out1). Inr (of_sink out1))"

text \<open>Division of a signed operand by a positive one, rounded towards zero.\<close>

definition cdiv :: "int \<Rightarrow> int \<Rightarrow> int" where
  "cdiv a b = (if a < 0 then - ((- a) div b) else a div b)"

text \<open>The first two flags say whether the allocations of the two buffers succeed.\<close>

definition output_file_init ::
    "bool \<Rightarrow> bool \<Rightarrow> 's output_file \<Rightarrow> u32 \<Rightarrow> int \<Rightarrow> bool \<Rightarrow> u32 \<Rightarrow> bool \<Rightarrow> (int \<times> 's output_file) comp" where
  "output_file_init zero_ok fill_ok out block_size len sparse chunks crc =
     (let out1 = out\<lparr>of_len := len, of_block_size := block_size, cur_out_ptr := 0, chunk_cnt := 0,
                     of_crc32 := 0, use_crc := crc\<rparr>
      in if \<not> zero_ok then Inr (- ENOMEM, out1)
         else if \<not> fill_ok then Inr (- ENOMEM, out1)
         else if sparse
         then let out2 = out1\<lparr>sparse_ops := Sparse_File_Ops\<rparr>
              in assertC (block_size \<noteq> 0) Division_By_Zero
                (let hdr = \<lparr>sh_magic = SPARSE_HEADER_MAGIC, sh_major_version = 1, sh_minor_version = 0,
                            sh_file_hdr_sz = word_of_nat SPARSE_HEADER_LEN,
                            sh_chunk_hdr_sz = word_of_nat CHUNK_HEADER_LEN, sh_blk_sz = block_size,
                            sh_total_blks = word_of_int (cdiv len (int (unat block_size))),
                            sh_total_chunks = chunks + (if crc then 1 else 0), sh_image_checksum = 0\<rparr>;
                     (ret, out3) = ops_write out2 (sparse_header_bytes hdr)
                 in if ret < 0 then Inr (ret, out3) else Inr (0, out3))
         else Inr (0, out1\<lparr>sparse_ops := Normal_File_Ops\<rparr>))"

text \<open>The zeroed struct that the allocators of the three kinds return, with its table and its sink.\<close>

definition new_output_file :: "'s output_file_ops \<Rightarrow> 's \<Rightarrow> 's output_file" where
  "new_output_file ops s =
     \<lparr>cur_out_ptr = 0, chunk_cnt = 0, of_crc32 = 0, of_ops = ops, sparse_ops = Normal_File_Ops, use_crc = False,
      of_block_size = 0, of_len = 0, of_sink = s\<rparr>"

definition output_file_new_gz :: "bool \<Rightarrow> 'g gzlib \<Rightarrow> 'g option output_file option" where
  "output_file_new_gz alloc_ok z = (if alloc_ok then Some (new_output_file (gz_file_ops z) None) else None)"

definition output_file_new_normal :: "bool \<Rightarrow> file_sink \<Rightarrow> file_sink output_file option" where
  "output_file_new_normal alloc_ok f = (if alloc_ok then Some (new_output_file file_ops f) else None)"

text \<open>Opening returns the output file (\<open>None\<close> for null) and the sink as it is left.\<close>

definition output_file_open_callback ::
    "bool \<times> bool \<times> bool \<Rightarrow> 'p write_callback \<Rightarrow> 'p \<Rightarrow> u32 \<Rightarrow> int \<Rightarrow> bool \<Rightarrow> u32 \<Rightarrow> bool \<Rightarrow>
     ('p output_file option \<times> 'p) comp" where
  "output_file_open_callback allocs w priv block_size len sparse chunks crc =
     (let (struct_ok, zero_ok, fill_ok) = allocs
      in if \<not> struct_ok then Inr (None, priv)
         else bindC (output_file_init zero_ok fill_ok (new_output_file (callback_file_ops w) priv)
                       block_size len sparse chunks crc)
                (\<lambda>(ret, out). if ret < 0 then Inr (None, of_sink out) else Inr (Some out, of_sink out)))"

text \<open>\<open>new_out\<close> is what \<open>output_file_new_gz\<close> or \<open>output_file_new_normal\<close> returned. The result of the open operation is not looked at.\<close>

definition output_file_open_fd ::
    "bool \<times> bool \<Rightarrow> 's output_file option \<Rightarrow> int \<Rightarrow> u32 \<Rightarrow> int \<Rightarrow> bool \<Rightarrow> u32 \<Rightarrow> bool \<Rightarrow>
     's output_file option comp" where
  "output_file_open_fd allocs new_out fd block_size len sparse chunks crc =
     (case new_out of
        None \<Rightarrow> Inr None
      | Some out \<Rightarrow>
          let out1 = out\<lparr>of_sink := snd (op_open (of_ops out) (of_sink out) fd)\<rparr>
          in bindC (output_file_init (fst allocs) (snd allocs) out1 block_size len sparse chunks crc)
               (\<lambda>(ret, out2). if ret < 0 then Inr None else Inr (Some out2)))"

definition write_data_chunk :: "'s output_file \<Rightarrow> u32 \<Rightarrow> u8 list \<Rightarrow> (int \<times> 's output_file) comp" where
  "write_data_chunk out len data =
     (case sparse_ops out of Sparse_File_Ops \<Rightarrow> write_sparse_data_chunk out len data
      | Normal_File_Ops \<Rightarrow> write_normal_data_chunk out len data)"

definition write_fill_chunk :: "'s output_file \<Rightarrow> u32 \<Rightarrow> u32 \<Rightarrow> (int \<times> 's output_file) comp" where
  "write_fill_chunk out len fill_val =
     (case sparse_ops out of Sparse_File_Ops \<Rightarrow> write_sparse_fill_chunk out len fill_val
      | Normal_File_Ops \<Rightarrow> write_normal_fill_chunk out len fill_val)"

definition write_fd_chunk :: "environment \<Rightarrow> 's output_file \<Rightarrow> u32 \<Rightarrow> int \<Rightarrow> int \<Rightarrow> (int \<times> 's output_file) comp" where
  "write_fd_chunk E out len fd offset =
     (let aligned_diff = offset mod int page_size;
          aligned_offset = offset - aligned_diff;
          buffer_size = sint (len + word_of_int aligned_diff)
      in case sys_mmap E fd buffer_size aligned_offset of
           Inl errno \<Rightarrow> Inr (- errno, out)
         | Inr c \<Rightarrow>
             if nat offset + unat len \<le> page_end c
             then write_data_chunk out len (file_bytes c (nat offset) (unat len))
             else Inl Bus_Error)"

definition write_file_chunk :: "environment \<Rightarrow> 's output_file \<Rightarrow> u32 \<Rightarrow> string \<Rightarrow> int \<Rightarrow> (int \<times> 's output_file) comp" where
  "write_file_chunk E out len file offset =
     (let file_fd = env_open E file
      in if file_fd < 0 then Inr (file_fd, out) else write_fd_chunk E out len file_fd offset)"

definition write_skip_chunk :: "'s output_file \<Rightarrow> int \<Rightarrow> (int \<times> 's output_file) comp" where
  "write_skip_chunk out len =
     (case sparse_ops out of Sparse_File_Ops \<Rightarrow> write_sparse_skip_chunk out len
      | Normal_File_Ops \<Rightarrow> write_normal_skip_chunk out len)"

text \<open>The chunks of an image, as the format describes them. The data of a raw chunk is whole blocks.\<close>

datatype chunk = Raw "u8 list" | Fill u32 nat | Skip nat

fun chunk_blocks :: "nat \<Rightarrow> chunk \<Rightarrow> nat" where
  "chunk_blocks bs (Raw d) = length d div bs"
| "chunk_blocks bs (Fill v n) = n"
| "chunk_blocks bs (Skip n) = n"

fun chunk_bytes :: "nat \<Rightarrow> chunk \<Rightarrow> u8 list" where
  "chunk_bytes bs (Raw d) =
     chunk_header_bytes \<lparr>ch_chunk_type = CHUNK_TYPE_RAW, ch_reserved1 = 0,
       ch_chunk_sz = word_of_nat (length d div bs), ch_total_sz = word_of_nat (CHUNK_HEADER_LEN + length d)\<rparr> @ d"
| "chunk_bytes bs (Fill v n) =
     chunk_header_bytes \<lparr>ch_chunk_type = CHUNK_TYPE_FILL, ch_reserved1 = 0,
       ch_chunk_sz = word_of_nat n, ch_total_sz = word_of_nat (CHUNK_HEADER_LEN + 4)\<rparr> @ le32 v"
| "chunk_bytes bs (Skip n) =
     chunk_header_bytes \<lparr>ch_chunk_type = CHUNK_TYPE_DONT_CARE, ch_reserved1 = 0,
       ch_chunk_sz = word_of_nat n, ch_total_sz = word_of_nat CHUNK_HEADER_LEN\<rparr>"

declare chunk_bytes.simps [simp del]

text \<open>The checksum the writer keeps: of a fill one block only, and of skipped blocks nothing.\<close>

fun writer_crc :: "nat \<Rightarrow> u32 \<Rightarrow> chunk \<Rightarrow> u32" where
  "writer_crc bs c (Raw d) = sparse_crc32 c d"
| "writer_crc bs c (Fill v n) = ((\<lambda>c. sparse_crc32 c (le32 v)) ^^ (bs div 4)) c"
| "writer_crc bs c (Skip n) = c"

text \<open>A number of bytes as whole blocks, and data filled up with zeros.\<close>

definition blocks_for :: "nat \<Rightarrow> nat \<Rightarrow> nat" where
  "blocks_for bs n = (n + bs - 1) div bs"

definition pad_block :: "nat \<Rightarrow> u8 list \<Rightarrow> u8 list" where
  "pad_block bs d = d @ replicate (bs * blocks_for bs (length d) - length d) 0"

definition same_file :: "'s output_file \<Rightarrow> 's output_file \<Rightarrow> bool" where
  "same_file a b \<longleftrightarrow> of_ops b = of_ops a \<and> sparse_ops b = sparse_ops a \<and> use_crc b = use_crc a \<and>
     of_block_size b = of_block_size a \<and> of_len b = of_len a"

section \<open>What is written\<close>

text \<open>
  What the chunk writers need of a sink: in a good state a write succeeds, and what can be seen
  of the sink (its bytes, or only their number) takes in the bytes written, in order.
\<close>

lemma blocks_for_bounds:
  assumes "0 < bs"
  shows "n \<le> bs * blocks_for bs n" "bs * blocks_for bs n - n < bs"
proof -
  show "n \<le> bs * blocks_for bs n" using ceil_div_mult[OF assms, of n] by (simp add: blocks_for_def mult.commute)
  have "bs * ((n + bs - 1) div bs) \<le> n + bs - 1" by simp
  then show "bs * blocks_for bs n - n < bs" using assms unfolding blocks_for_def by linarith
qed

locale byte_sink =
  fixes ops :: "'s output_file_ops"
    and good :: "'s \<Rightarrow> bool"
    and view :: "'s \<Rightarrow> 'v"
    and absorb :: "'v \<Rightarrow> u8 list \<Rightarrow> 'v"
  assumes write_ok: "good s \<Longrightarrow> \<exists>s'. op_write ops s b = (0, s') \<and> good s' \<and> view s' = absorb (view s) b"
    and absorb_append: "absorb (absorb v a) b = absorb v (a @ b)"
    and absorb_Nil: "absorb v [] = v"
begin

text \<open>One chunk more has been written.\<close>

definition emits :: "'s output_file \<Rightarrow> 's output_file \<Rightarrow> chunk \<Rightarrow> bool" where
  "emits out out' c \<longleftrightarrow> same_file out out' \<and> good (of_sink out') \<and>
     view (of_sink out') = absorb (view (of_sink out)) (chunk_bytes (unat (of_block_size out)) c) \<and>
     chunk_cnt out' = chunk_cnt out + 1 \<and>
     of_crc32 out' = (if use_crc out then writer_crc (unat (of_block_size out)) (of_crc32 out) c else of_crc32 out)"

lemma ops_write_ok:
  assumes "of_ops out = ops" "good (of_sink out)"
  obtains s' where "ops_write out b = (0, out\<lparr>of_sink := s'\<rparr>)" "good s'"
    "view s' = absorb (view (of_sink out)) b"
  using write_ok[OF assms(2), of b] assms(1) that by (auto simp: ops_write_def)

lemma write_sparse_skip_ok:
  assumes o: "of_ops out = ops" "good (of_sink out)" and bs: "of_block_size out = w" "0 < w"
  shows "\<exists>out'. write_sparse_skip_chunk out (int n * int (unat w)) = Inr (0, out') \<and> emits out out' (Skip n)"
proof -
  obtain s' where "ops_write out (chunk_bytes (unat w) (Skip n)) = (0, out\<lparr>of_sink := s'\<rparr>)" "good s'"
    "view s' = absorb (view (of_sink out)) (chunk_bytes (unat w) (Skip n))"
    using ops_write_ok[OF o] by blast
  then show ?thesis using bs
    by (simp add: chunk_bytes.simps write_sparse_skip_chunk_def Let_def emits_def same_file_def chunk_done_def word_gt_0 uint_0_iff)
qed

lemma write_sparse_fill_ok:
  assumes o: "of_ops out = ops" "good (of_sink out)" and bs: "of_block_size out = w" "0 < w"
    and len: "unat len + unat w \<le> 2 ^ 31"
  shows "\<exists>out'. write_sparse_fill_chunk out len v = Inr (0, out') \<and> emits out out' (Fill v (blocks_for (unat w) (unat len)))"
proof -
  let ?ch = "Fill v (blocks_for (unat w) (unat len))"
  obtain r where r: "ALIGN len w = Inr r" "unat r = unat w * blocks_for (unat w) (unat len)"
    using ALIGN_nat[of w len] bs len by (auto simp: blocks_for_def)
  have w0: "0 < unat w" using bs(2) by (simp add: unat_gt_0 word_gt_0)
  have "r div w = word_of_nat (blocks_for (unat w) (unat len))"
    by (rule word_div_of_nat) (use r(2) w0 in simp)
  then have hdr: "chunk_header_bytes \<lparr>ch_chunk_type = CHUNK_TYPE_FILL, ch_reserved1 = 0, ch_chunk_sz = r div w,
      ch_total_sz = word_of_nat (CHUNK_HEADER_LEN + 4)\<rparr> @ le32 v = chunk_bytes (unat w) ?ch" by (simp add: chunk_bytes.simps)
  obtain s1 where s1: "ops_write out (chunk_header_bytes \<lparr>ch_chunk_type = CHUNK_TYPE_FILL, ch_reserved1 = 0,
      ch_chunk_sz = r div w, ch_total_sz = word_of_nat (CHUNK_HEADER_LEN + 4)\<rparr>) = (0, out\<lparr>of_sink := s1\<rparr>)" "good s1"
    "view s1 = absorb (view (of_sink out)) (chunk_header_bytes \<lparr>ch_chunk_type = CHUNK_TYPE_FILL, ch_reserved1 = 0,
      ch_chunk_sz = r div w, ch_total_sz = word_of_nat (CHUNK_HEADER_LEN + 4)\<rparr>)"
    using ops_write_ok[OF o] by blast
  obtain s2 where s2: "ops_write (out\<lparr>of_sink := s1\<rparr>) (le32 v) = (0, out\<lparr>of_sink := s2\<rparr>)" "good s2"
    "view s2 = absorb (view s1) (le32 v)"
    using ops_write_ok[of "out\<lparr>of_sink := s1\<rparr>" "le32 v"] o(1) s1(2) by auto
  have "view s2 = absorb (view (of_sink out)) (chunk_bytes (unat w) ?ch)"
    unfolding s2(3) s1(3) absorb_append hdr ..
  then show ?thesis using r(1) s1(1) s2(1,2) bs(1)
    by (simp add: write_sparse_fill_chunk_def Let_def emits_def same_file_def chunk_done_def unat_div_distrib)
qed

lemma write_sparse_data_ok:
  assumes o: "of_ops out = ops" "good (of_sink out)" and bs: "of_block_size out = w" "0 < w"
    and len: "unat len + unat w \<le> 2 ^ 31" and d: "length d = unat len"
  shows "\<exists>out'. write_sparse_data_chunk out len d = Inr (0, out') \<and> emits out out' (Raw (pad_block (unat w) d))"
proof -
  let ?z = "unat w * blocks_for (unat w) (unat len) - unat len"
  obtain r where r: "ALIGN len w = Inr r" "unat r = unat w * blocks_for (unat w) (unat len)"
    using ALIGN_nat[of w len] bs len by (auto simp: blocks_for_def)
  have w0: "0 < unat w" using bs(2) by (simp add: unat_gt_0 word_gt_0)
  have le: "unat len \<le> unat r" "unat r - unat len < unat w"
    unfolding r(2) using blocks_for_bounds[OF w0, of "unat len"] by auto
  have z: "unat (r - len) = ?z" using le(1) r(2) by (simp add: unat_sub word_le_nat_alt)
  have zle: "r - len \<le> w" using z le(2) r(2) by (simp add: word_le_nat_alt)
  have zeros: "take (unat (r - len)) (zero_buf w) = replicate ?z 0"
    using z le(2) r(2) by (simp add: zero_buf_def)
  have pl: "length (pad_block (unat w) d) = unat r" using le(1) r(2) d by (simp add: pad_block_def)
  define hdr where "hdr = chunk_header_bytes \<lparr>ch_chunk_type = CHUNK_TYPE_RAW, ch_reserved1 = 0, ch_chunk_sz = r div w,
      ch_total_sz = word_of_nat CHUNK_HEADER_LEN + r\<rparr>"
  have hb: "hdr @ pad_block (unat w) d = chunk_bytes (unat w) (Raw (pad_block (unat w) d))"
    using word_div_of_nat[of r w "unat r div unat w"] by (simp add: hdr_def pl chunk_bytes.simps)
  obtain s1 where s1: "ops_write out hdr = (0, out\<lparr>of_sink := s1\<rparr>)" "good s1"
    "view s1 = absorb (view (of_sink out)) hdr" using ops_write_ok[OF o] by blast
  obtain s2 where s2: "ops_write (out\<lparr>of_sink := s1\<rparr>) d = (0, out\<lparr>of_sink := s2\<rparr>)" "good s2"
    "view s2 = absorb (view s1) d" using ops_write_ok[of "out\<lparr>of_sink := s1\<rparr>" d] o(1) s1(2) by auto
  obtain s3 where s3: "(if r - len \<noteq> 0 then ops_write (out\<lparr>of_sink := s2\<rparr>) (replicate ?z 0) else (0, out\<lparr>of_sink := s2\<rparr>)) =
      (0, out\<lparr>of_sink := s3\<rparr>)" "good s3" "view s3 = absorb (view s2) (replicate ?z 0)"
  proof (cases "r - len = 0")
    case True
    then show thesis using that[of s2] z s2(2) by (simp add: absorb_Nil)
  next
    case False
    then show thesis using that ops_write_ok[of "out\<lparr>of_sink := s2\<rparr>" "replicate ?z 0"] o(1) s2(2) by auto
  qed
  have v: "view s3 = absorb (view (of_sink out)) (chunk_bytes (unat w) (Raw (pad_block (unat w) d)))"
    unfolding s3(3) s2(3) s1(3) absorb_append hb[symmetric] by (simp add: pad_block_def d)
  have l31: "unat len < 2 ^ 31" using len w0 by simp
  have "write_sparse_data_chunk out len d = Inr (0, chunk_done
      ((out\<lparr>of_sink := s3\<rparr>)\<lparr>of_crc32 := (if use_crc out then sparse_crc32 (sparse_crc32 (of_crc32 out) d) (replicate ?z 0)
                                       else of_crc32 out)\<rparr>) (sint r))"
    using r(1) s1(1) s2(1) s3(1) bs(1) zle l31 unfolding write_sparse_data_chunk_def
    by (simp add: Let_def hdr_def[symmetric] zeros)
  then show ?thesis using v s3(2) bs(1)
    by (simp add: emits_def same_file_def chunk_done_def pad_block_def d sparse_crc32_append)
qed

end

end
