(* ===== verification/Sparse_File.thy ===== *)
theory Sparse_File
  imports Output_File
begin

text \<open>
  Sparse images as a whole, \<^verbatim>\<open>system/core/libsparse/sparse.c\<close>: adding blocks, writing an image
  to a file or a callback, its length, and splitting it into images of a limited size.
\<close>

section \<open>Definitions\<close>

record sparse_file =
  sf_block_size :: u32
  sf_len :: int
  sf_verbose :: bool
  backed_blocks :: backed_block_list

definition sparse_file_new :: "bool \<Rightarrow> bool \<Rightarrow> u32 \<Rightarrow> int \<Rightarrow> sparse_file option" where
  "sparse_file_new struct_ok list_ok block_size len =
     (if struct_ok \<and> list_ok
      then Some \<lparr>sf_block_size = block_size, sf_len = len, sf_verbose = False,
                 backed_blocks = backed_block_list_new block_size\<rparr>
      else None)"

definition sparse_file_destroy :: "sparse_file \<Rightarrow> ptr list" where
  "sparse_file_destroy s = backed_block_list_destroy (backed_blocks s)"

definition sparse_file_verbose :: "sparse_file \<Rightarrow> sparse_file" where
  "sparse_file_verbose s = s\<lparr>sf_verbose := True\<rparr>"

definition with_list :: "sparse_file \<Rightarrow> (int \<times> backed_block_list) comp \<Rightarrow> (int \<times> sparse_file) comp" where
  "with_list s m = bindC m (\<lambda>(ret, l). Inr (ret, s\<lparr>backed_blocks := l\<rparr>))"

definition sparse_file_add_data :: "ptr option \<Rightarrow> sparse_file \<Rightarrow> ptr \<Rightarrow> u32 \<Rightarrow> u32 \<Rightarrow> (int \<times> sparse_file) comp" where
  "sparse_file_add_data alloc s data len block =
     with_list s (backed_block_add_data alloc (backed_blocks s) data len block)"

definition sparse_file_add_fill :: "ptr option \<Rightarrow> sparse_file \<Rightarrow> u32 \<Rightarrow> u32 \<Rightarrow> u32 \<Rightarrow> (int \<times> sparse_file) comp" where
  "sparse_file_add_fill alloc s fill_val len block =
     with_list s (backed_block_add_fill alloc (backed_blocks s) fill_val len block)"

definition sparse_file_add_file ::
    "ptr option \<Rightarrow> ptr \<Rightarrow> sparse_file \<Rightarrow> string \<Rightarrow> int \<Rightarrow> u32 \<Rightarrow> u32 \<Rightarrow> (int \<times> sparse_file) comp" where
  "sparse_file_add_file alloc name_copy s filename file_offset len block =
     with_list s (backed_block_add_file alloc name_copy (backed_blocks s) filename file_offset len block)"

definition sparse_file_add_fd ::
    "ptr option \<Rightarrow> sparse_file \<Rightarrow> int \<Rightarrow> int \<Rightarrow> u32 \<Rightarrow> u32 \<Rightarrow> (int \<times> sparse_file) comp" where
  "sparse_file_add_fd alloc s fd file_offset len block =
     with_list s (backed_block_add_fd alloc (backed_blocks s) fd file_offset len block)"

text \<open>The loop over the list, with the block behind the last node and the count so far.\<close>

fun count_loop :: "u32 \<Rightarrow> backed_block list \<Rightarrow> u32 \<Rightarrow> u32 \<Rightarrow> (u32 \<times> u32) comp" where
  "count_loop block_size [] last_block chunks = Inr (last_block, chunks)"
| "count_loop block_size (bb # l) last_block chunks =
     bindC (DIV_ROUND_UP (bb_len bb) block_size) (\<lambda>n.
       count_loop block_size l (bb_block bb + n) (chunks + (if bb_block bb > last_block then 2 else 1)))"

definition sparse_count_chunks :: "sparse_file \<Rightarrow> u32 comp" where
  "sparse_count_chunks s =
     bindC (count_loop (sf_block_size s) (data_blocks (backed_blocks s)) 0 0) (\<lambda>(last_block, chunks).
       let bs = int (unat (sf_block_size s))
       in assertC (bs \<noteq> 0) Division_By_Zero
         (Inr (if int (unat last_block) < cdiv (sf_len s + bs - 1) bs then chunks + 1 else chunks)))"

definition sparse_file_write_block :: "environment \<Rightarrow> 's output_file \<Rightarrow> backed_block \<Rightarrow> (int \<times> 's output_file) comp" where
  "sparse_file_write_block E out bb =
     (case backed_block_type_of bb of
        BACKED_BLOCK_DATA \<Rightarrow>
          bindC (backed_block_data bb) (\<lambda>p.
            write_data_chunk out (bb_len bb) (map (env_mem E) [p..<p + unat (bb_len bb)]))
      | BACKED_BLOCK_FILE \<Rightarrow>
          bindC (backed_block_filename bb) (\<lambda>name.
          bindC (backed_block_file_offset bb) (\<lambda>off. write_file_chunk E out (bb_len bb) name off))
      | BACKED_BLOCK_FD \<Rightarrow>
          bindC (backed_block_fd bb) (\<lambda>fd.
          bindC (backed_block_file_offset bb) (\<lambda>off. write_fd_chunk E out (bb_len bb) fd off))
      | BACKED_BLOCK_FILL \<Rightarrow>
          bindC (backed_block_fill_val bb) (\<lambda>v. write_fill_chunk out (bb_len bb) v))"

text \<open>The results of the skip chunks are not looked at.\<close>

fun write_blocks :: "environment \<Rightarrow> u32 \<Rightarrow> backed_block list \<Rightarrow> u32 \<Rightarrow> 's output_file \<Rightarrow> (int \<times> u32 \<times> 's output_file) comp" where
  "write_blocks E block_size [] last_block out = Inr (0, last_block, out)"
| "write_blocks E block_size (bb # l) last_block out =
     bindC (if bb_block bb > last_block
            then bindC (write_skip_chunk out (int (unat (bb_block bb - last_block)) * int (unat block_size)))
                   (\<lambda>(_, out1). Inr out1)
            else Inr out) (\<lambda>out1.
     bindC (sparse_file_write_block E out1 bb) (\<lambda>(ret, out2).
       if ret \<noteq> 0 then Inr (ret, last_block, out2)
       else bindC (DIV_ROUND_UP (bb_len bb) block_size) (\<lambda>n.
              write_blocks E block_size l (bb_block bb + n) out2)))"

definition write_all_blocks :: "environment \<Rightarrow> sparse_file \<Rightarrow> 's output_file \<Rightarrow> (int \<times> 's output_file) comp" where
  "write_all_blocks E s out =
     bindC (write_blocks E (sf_block_size s) (data_blocks (backed_blocks s)) 0 out) (\<lambda>(ret, last_block, out1).
       if ret \<noteq> 0 then Inr (ret, out1)
       else let pad = sf_len s - int (unat last_block) * int (unat (sf_block_size s))
            in assertC (pad \<ge> 0) Assert_Failed
              (if pad > 0 then bindC (write_skip_chunk out1 pad) (\<lambda>(_, out2). Inr (0, out2))
               else Inr (0, out1)))"

definition sparse_file_write ::
    "environment \<Rightarrow> bool \<times> bool \<Rightarrow> 's output_file option \<Rightarrow> sparse_file \<Rightarrow> int \<Rightarrow> bool \<Rightarrow> bool \<Rightarrow> (int \<times> 's option) comp" where
  "sparse_file_write E allocs new_out s fd sparse crc =
     bindC (sparse_count_chunks s) (\<lambda>chunks.
     bindC (output_file_open_fd allocs new_out fd (sf_block_size s) (sf_len s) sparse chunks crc) (\<lambda>opened.
       case opened of
         None \<Rightarrow> Inr (- ENOMEM, None)
       | Some out \<Rightarrow>
           bindC (write_all_blocks E s out) (\<lambda>(ret, out1).
           bindC (output_file_close out1) (\<lambda>sink. Inr (ret, Some sink)))))"

definition sparse_file_callback ::
    "environment \<Rightarrow> bool \<times> bool \<times> bool \<Rightarrow> sparse_file \<Rightarrow> bool \<Rightarrow> bool \<Rightarrow> 'p write_callback \<Rightarrow> 'p \<Rightarrow> (int \<times> 'p) comp" where
  "sparse_file_callback E allocs s sparse crc w priv =
     bindC (sparse_count_chunks s) (\<lambda>chunks.
     bindC (output_file_open_callback allocs w priv (sf_block_size s) (sf_len s) sparse chunks crc)
       (\<lambda>(opened, priv1).
       case opened of
         None \<Rightarrow> Inr (- ENOMEM, priv1)
       | Some out \<Rightarrow>
           bindC (write_all_blocks E s out) (\<lambda>(ret, out1).
           bindC (output_file_close out1) (\<lambda>sink. Inr (ret, sink)))))"

definition out_counter_write :: "int write_callback" where
  "out_counter_write cnt data len = (0, cnt + len)"

definition sparse_file_len :: "environment \<Rightarrow> bool \<times> bool \<times> bool \<Rightarrow> sparse_file \<Rightarrow> bool \<Rightarrow> bool \<Rightarrow> int comp" where
  "sparse_file_len E allocs s sparse crc =
     bindC (sparse_count_chunks s) (\<lambda>chunks.
     bindC (output_file_open_callback allocs out_counter_write 0 (sf_block_size s) (sf_len s) sparse chunks crc)
       (\<lambda>(opened, _).
       case opened of
         None \<Rightarrow> Inr (-1)
       | Some out \<Rightarrow>
           bindC (write_all_blocks E s out) (\<lambda>(ret, out1).
           bindC (output_file_close out1) (\<lambda>cnt. Inr (if ret < 0 then -1 else cnt)))))"

text \<open>
  The scan for the nodes that fit into \<open>len\<close> bytes, with the overhead already taken off:
  how it ends, with the last node that fits (0 when there is none).
\<close>

datatype scan_end =
    Scan_Failed
  | Scan_Full ptr int ptr
  | Scan_All ptr

text \<open>
  \<open>Scan_Full b file_len last\<close>: the node at \<open>b\<close> exceeds the limit, after \<open>file_len\<close> bytes.
\<close>

fun scan_chunks ::
    "environment \<Rightarrow> u32 \<Rightarrow> int output_file \<Rightarrow> int \<Rightarrow> backed_block list \<Rightarrow> u32 \<Rightarrow> int \<Rightarrow> ptr \<Rightarrow> scan_end comp" where
  "scan_chunks E block_size out len [] last_block file_len last_bb = Inr (Scan_All last_bb)"
| "scan_chunks E block_size out len (bb # l) last_block file_len last_bb =
     bindC (DIV_ROUND_UP (bb_len bb) block_size) (\<lambda>n.
     bindC (sparse_file_write_block E
              (out\<lparr>of_sink := (if bb_block bb > last_block then int CHUNK_HEADER_LEN else 0)\<rparr>) bb) (\<lambda>(ret, out1).
       if ret \<noteq> 0 then Inr Scan_Failed
       else if file_len + of_sink out1 > len then Inr (Scan_Full (bb_addr bb) file_len last_bb)
       else scan_chunks E block_size out1 len l (bb_block bb + n) (file_len + of_sink out1) (bb_addr bb)))"

text \<open>
  The overhead that is taken off: the header, two chunk headers and a checksum. The result is
  the node that did not fit (0 for null), and both images.
\<close>

definition resparse_overhead :: nat where
  "resparse_overhead = SPARSE_HEADER_LEN + 2 * CHUNK_HEADER_LEN + 4"

definition move_blocks :: "sparse_file \<Rightarrow> sparse_file \<Rightarrow> ptr \<Rightarrow> ptr \<Rightarrow> ptr \<Rightarrow> (ptr \<times> sparse_file \<times> sparse_file) comp" where
  "move_blocks from to bb start last_bb =
     bindC (backed_block_list_move (backed_blocks from) (backed_blocks to) start last_bb) (\<lambda>(lf, lt).
       Inr (bb, from\<lparr>backed_blocks := lf\<rparr>, to\<lparr>backed_blocks := lt\<rparr>))"

definition move_chunks_up_to_len ::
    "environment \<Rightarrow> bool \<times> bool \<times> bool \<Rightarrow> ptr option \<Rightarrow> sparse_file \<Rightarrow> sparse_file \<Rightarrow> u32 \<Rightarrow>
     (ptr \<times> sparse_file \<times> sparse_file) comp" where
  "move_chunks_up_to_len E allocs alloc from to len0 =
     (let len = int (unat (len0 - word_of_nat resparse_overhead));
          l = data_blocks (backed_blocks from);
          start = (case l of [] \<Rightarrow> 0 | b # _ \<Rightarrow> bb_addr b)
      in bindC (output_file_open_callback allocs out_counter_write 0 (sf_block_size to) (sf_len to) True 0 False)
           (\<lambda>(opened, _).
           case opened of
             None \<Rightarrow> Inr (0, from, to)
           | Some out \<Rightarrow>
               bindC (scan_chunks E (sf_block_size to) out len l 0 0 0) (\<lambda>r.
                 case r of
                   Scan_Failed \<Rightarrow> Inr (0, from, to)
                 | Scan_All last_bb \<Rightarrow> move_blocks from to 0 start last_bb
                 | Scan_Full b file_len0 last_bb \<Rightarrow>
                     let file_len = file_len0 + int CHUNK_HEADER_LEN
                     in if last_bb = 0 \<or> len - file_len > len div 8
                        then bindC (backed_block_split alloc (backed_blocks from) b (word_of_int (len - file_len)))
                               (\<lambda>(_, lf). move_blocks (from\<lparr>backed_blocks := lf\<rparr>) to b start b)
                        else move_blocks from to b start last_bb)))"

text \<open>
  Splitting into pieces. \<open>alloc\<close> gives the results of the allocations of round \<open>i\<close>; with no
  bound on the rounds the loop may not end, and the result is then \<open>None\<close>. The pieces that
  exceed \<open>out_s_count\<close> are collected in \<open>tmp\<close>.
\<close>

partial_function (option) resparse_loop ::
    "environment \<Rightarrow> (nat \<Rightarrow> ptr option) \<Rightarrow> u32 \<Rightarrow> nat \<Rightarrow> nat \<Rightarrow> sparse_file \<Rightarrow> sparse_file \<Rightarrow> sparse_file list \<Rightarrow>
     (nat \<times> sparse_file \<times> sparse_file \<times> sparse_file list) comp option" where
  "resparse_loop E alloc max_len out_s_count c in_s tmp outs =
     (let s = \<lparr>sf_block_size = sf_block_size in_s, sf_len = sf_len in_s, sf_verbose = False,
               backed_blocks = backed_block_list_new (sf_block_size in_s)\<rparr>
      in case move_chunks_up_to_len E (True, True, True) (alloc c) in_s s max_len of
           Inl e \<Rightarrow> Some (Inl e)
         | Inr (bb, in1, s1) \<Rightarrow>
             (case (if c < out_s_count then Inr (tmp, outs @ [s1])
                    else bindC (backed_block_list_move (backed_blocks s1) (backed_blocks tmp) 0 0)
                           (\<lambda>(_, lt). Inr (tmp\<lparr>backed_blocks := lt\<rparr>, outs))) of
                Inl e \<Rightarrow> Some (Inl e)
              | Inr (tmp1, outs1) \<Rightarrow>
                  if bb \<noteq> 0 then resparse_loop E alloc max_len out_s_count (c + 1) in1 tmp1 outs1
                  else Some (Inr (c + 1, in1, tmp1, outs1))))"

definition sparse_file_resparse ::
    "environment \<Rightarrow> (nat \<Rightarrow> ptr option) \<Rightarrow> sparse_file \<Rightarrow> u32 \<Rightarrow> nat \<Rightarrow> (nat \<times> sparse_file \<times> sparse_file list) comp option" where
  "sparse_file_resparse E alloc in_s max_len out_s_count =
     (let tmp = \<lparr>sf_block_size = sf_block_size in_s, sf_len = sf_len in_s, sf_verbose = False,
                 backed_blocks = backed_block_list_new (sf_block_size in_s)\<rparr>
      in case resparse_loop E alloc max_len out_s_count 0 in_s tmp [] of
           None \<Rightarrow> None
         | Some (Inl e) \<Rightarrow> Some (Inl e)
         | Some (Inr (c, in1, tmp1, outs)) \<Rightarrow>
             Some (bindC (backed_block_list_move (backed_blocks tmp1) (backed_blocks in1) 0 0)
                     (\<lambda>(_, li). Inr (c, in1\<lparr>backed_blocks := li\<rparr>, outs))))"

text \<open>The bytes a node stands for, when they can be read.\<close>

definition fd_data :: "environment \<Rightarrow> int \<Rightarrow> int \<Rightarrow> nat \<Rightarrow> u8 list option" where
  "fd_data E fd off n =
     (case env_fd E fd of
        None \<Rightarrow> None
      | Some c \<Rightarrow> if 0 \<le> off \<and> nat off + n \<le> page_end c then Some (file_bytes c (nat off) n) else None)"

definition block_data :: "environment \<Rightarrow> backed_block \<Rightarrow> u8 list option" where
  "block_data E b =
     (case bb_cont b of
        BB_Data p \<Rightarrow> Some (map (env_mem E) [p..<p + unat (bb_len b)])
      | BB_File _ name off \<Rightarrow>
          if env_open E name < 0 then None else fd_data E (env_open E name) off (unat (bb_len b))
      | BB_Fd fd off \<Rightarrow> fd_data E fd off (unat (bb_len b))
      | BB_Fill v \<Rightarrow> Some (map (\<lambda>i. le32 v ! (i mod 4)) [0..<unat (bb_len b)]))"

definition block_chunk :: "environment \<Rightarrow> nat \<Rightarrow> backed_block \<Rightarrow> chunk option" where
  "block_chunk E bs b =
     (case bb_cont b of
        BB_Fill v \<Rightarrow> Some (Fill v (blocks_for bs (unat (bb_len b))))
      | _ \<Rightarrow> map_option (\<lambda>d. Raw (pad_block bs d)) (block_data E b))"

definition small_block :: "nat \<Rightarrow> backed_block \<Rightarrow> bool" where
  "small_block bs b \<longleftrightarrow> 0 < bb_len b \<and> unat (bb_len b) + bs + page_size \<le> 2 ^ 31"

text \<open>The chunks from block \<open>last\<close> to the end of the image.\<close>

fun chunks_from :: "environment \<Rightarrow> nat \<Rightarrow> nat \<Rightarrow> nat \<Rightarrow> backed_block list \<Rightarrow> chunk list option" where
  "chunks_from E bs nblk last_blk [] = Some (if last_blk < nblk then [Skip (nblk - last_blk)] else [])"
| "chunks_from E bs nblk last_blk (b # l) =
     (case (block_chunk E bs b, chunks_from E bs nblk (bb_end bs b) l) of
        (Some c, Some cs) \<Rightarrow>
          Some ((if last_blk < unat (bb_block b) then [Skip (unat (bb_block b) - last_blk)] else []) @ c # cs)
      | _ \<Rightarrow> None)"

definition image_chunks :: "environment \<Rightarrow> sparse_file \<Rightarrow> chunk list option" where
  "image_chunks E s =
     chunks_from E (unat (sf_block_size s)) (nat (sf_len s) div unat (sf_block_size s)) 0 (data_blocks (backed_blocks s))"

text \<open>An image whose nodes are in order and end within it, and whose length is whole blocks.\<close>

definition image_ok :: "sparse_file \<Rightarrow> bool" where
  "image_ok s \<longleftrightarrow>
     (let bs = unat (sf_block_size s); l = data_blocks (backed_blocks s)
      in bbl_block_size (backed_blocks s) = sf_block_size s \<and> bbl_ok (backed_blocks s) \<and>
         (\<forall>b \<in> set l. small_block bs b \<and> bb_end bs b \<le> nat (sf_len s) div bs) \<and>
         0 \<le> sf_len s \<and> int bs dvd sf_len s \<and> nat (sf_len s) div bs < 2 ^ 32)"

text \<open>All bytes of a sparse image.\<close>

definition crc_chunk_bytes :: "u32 \<Rightarrow> u8 list" where
  "crc_chunk_bytes c =
     chunk_header_bytes \<lparr>ch_chunk_type = CHUNK_TYPE_CRC32, ch_reserved1 = 0, ch_chunk_sz = 0,
                         ch_total_sz = word_of_nat (CHUNK_HEADER_LEN + 4)\<rparr> @ le32 c"

definition image_header :: "sparse_file \<Rightarrow> nat \<Rightarrow> sparse_header" where
  "image_header s n =
     \<lparr>sh_magic = SPARSE_HEADER_MAGIC, sh_major_version = 1, sh_minor_version = 0,
      sh_file_hdr_sz = word_of_nat SPARSE_HEADER_LEN, sh_chunk_hdr_sz = word_of_nat CHUNK_HEADER_LEN,
      sh_blk_sz = sf_block_size s, sh_total_blks = word_of_nat (nat (sf_len s) div unat (sf_block_size s)),
      sh_total_chunks = word_of_nat n, sh_image_checksum = 0\<rparr>"

definition image_bytes :: "sparse_file \<Rightarrow> bool \<Rightarrow> chunk list \<Rightarrow> u8 list" where
  "image_bytes s crc cs =
     sparse_header_bytes (image_header s (length cs + (if crc then 1 else 0))) @
     concat (map (chunk_bytes (unat (sf_block_size s))) cs) @
     (if crc then crc_chunk_bytes (foldl (writer_crc (unat (sf_block_size s))) 0 cs) else [])"

definition in_order :: "nat \<Rightarrow> nat \<Rightarrow> nat \<Rightarrow> backed_block list \<Rightarrow> bool" where
  "in_order bs nblk k l \<longleftrightarrow>
     sorted_wrt (before bs) l \<and> (\<forall>b \<in> set l. small_block bs b \<and> bb_end bs b \<le> nblk \<and> k \<le> unat (bb_block b)) \<and>
     k \<le> nblk"

section \<open>The chunks of an image\<close>

section \<open>Writing one block\<close>

lemma blocks_for_end: "bb_end bs b = unat (bb_block b) + blocks_for bs (unat (bb_len b))"
  by (simp add: bb_end_def blocks_for_def)

lemma mmap_ok:
  fixes len :: u32
  assumes "fd_data E fd off (unat len) = Some d" "0 < len" "unat len + page_size \<le> 2 ^ 31"
  shows "\<exists>c. sys_mmap E fd (sint (len + word_of_int (off mod int page_size))) (off - off mod int page_size) = Inr c \<and>
     nat off + unat len \<le> page_end c \<and> d = file_bytes c (nat off) (unat len)"
proof -
  from assms(1) obtain c where c: "env_fd E fd = Some c" "0 \<le> off" "nat off + unat len \<le> page_end c"
    "d = file_bytes c (nat off) (unat len)"
    by (auto simp: fd_data_def split: option.splits if_splits)
  define k where "k = off mod int page_size"
  have k: "0 \<le> k" "k < 4096" "k \<le> off" using c(2) zmod_le_nonneg_dividend[of off "int page_size"] by (simp_all add: k_def page_size_def)
  have len0: "0 < unat len" using assms(2) by (simp add: unat_gt_0 word_gt_0)
  have u: "unat (len + word_of_int k) = unat len + nat k"
  proof -
    have uk: "unat (word_of_int k :: u32) = nat k" using k by (simp add: unsigned_of_int take_bit_int_eq_self)
    then have "unat len + unat (word_of_int k :: u32) < 4294967296" using assms(3) k by (simp add: page_size_def)
    then show ?thesis using unat_add_u32[of len "word_of_int k"] uk by simp
  qed
  have "sint (len + word_of_int k) = int (unat len + nat k)"
    using sint_eq_unat[of "len + word_of_int k"] u assms(3) k by (simp add: page_size_def)
  then have "sys_mmap E fd (sint (len + word_of_int k)) (off - k) = Inr c"
    using c(1) k(1,3) len0 unfolding sys_mmap_def by (simp del: of_nat_unat)
  then show ?thesis unfolding k_def[symmetric] by (intro exI[of _ c] conjI c(3,4))
qed

lemma write_block_eq:
  "bb_cont b = BB_Data p \<Longrightarrow> sparse_file_write_block E out b =
     write_data_chunk out (bb_len b) (map (env_mem E) [p..<p + unat (bb_len b)])"
  "bb_cont b = BB_File q name off \<Longrightarrow> sparse_file_write_block E out b = write_file_chunk E out (bb_len b) name off"
  "bb_cont b = BB_Fd fd off \<Longrightarrow> sparse_file_write_block E out b = write_fd_chunk E out (bb_len b) fd off"
  "bb_cont b = BB_Fill v \<Longrightarrow> sparse_file_write_block E out b = write_fill_chunk out (bb_len b) v"
  by (simp_all add: sparse_file_write_block_def backed_block_type_of_def backed_block_data_def backed_block_filename_def
      backed_block_file_offset_def backed_block_fd_def backed_block_fill_val_def)

lemma block_chunk_eq:
  "bb_cont b = BB_Data p \<Longrightarrow>
     block_chunk E bs b = Some (Raw (pad_block bs (map (env_mem E) [p..<p + unat (bb_len b)])))"
  "bb_cont b = BB_File q name off \<Longrightarrow> block_chunk E bs b =
     (if env_open E name < 0 then None
      else map_option (\<lambda>d. Raw (pad_block bs d)) (fd_data E (env_open E name) off (unat (bb_len b))))"
  "bb_cont b = BB_Fd fd off \<Longrightarrow>
     block_chunk E bs b = map_option (\<lambda>d. Raw (pad_block bs d)) (fd_data E fd off (unat (bb_len b)))"
  "bb_cont b = BB_Fill v \<Longrightarrow> block_chunk E bs b = Some (Fill v (blocks_for bs (unat (bb_len b))))"
  by (simp_all add: block_chunk_def block_data_def)

context byte_sink
begin

lemma write_data_step:
  assumes o: "of_ops out = ops" "good (of_sink out)" "sparse_ops out = Sparse_File_Ops"
    and bs: "of_block_size out = w" "0 < w" and sm: "unat len + unat w \<le> 2 ^ 31" and d: "length d = unat len"
  shows "\<exists>out'. write_data_chunk out len d = Inr (0, out') \<and> emits out out' (Raw (pad_block (unat w) d))"
  using write_sparse_data_ok[OF o(1,2) bs sm d] o(3) by (simp add: write_data_chunk_def)

lemma write_fd_step:
  assumes o: "of_ops out = ops" "good (of_sink out)" "sparse_ops out = Sparse_File_Ops"
    and bs: "of_block_size out = w" "0 < w"
    and sm: "0 < len" "unat len + unat w + page_size \<le> 2 ^ 31" and d: "fd_data E fd off (unat len) = Some d"
  shows "\<exists>out'. write_fd_chunk E out len fd off = Inr (0, out') \<and> emits out out' (Raw (pad_block (unat w) d))"
proof -
  obtain c where c: "sys_mmap E fd (sint (len + word_of_int (off mod int page_size))) (off - off mod int page_size) = Inr c"
    "nat off + unat len \<le> page_end c" "d = file_bytes c (nat off) (unat len)"
    using mmap_ok[OF d sm(1)] sm(2) by auto
  have "length d = unat len" unfolding c(3) by (simp add: file_bytes_def)
  then have "\<exists>out'. write_data_chunk out len d = Inr (0, out') \<and> emits out out' (Raw (pad_block (unat w) d))"
    using sm(2) by (intro write_data_step[OF o bs]) simp_all
  moreover have "write_fd_chunk E out len fd off = write_data_chunk out len d"
    unfolding write_fd_chunk_def Let_def c(1) c(3) using c(2) by simp
  ultimately show ?thesis by simp
qed

lemma write_block_step:
  assumes o: "of_ops out = ops" "good (of_sink out)" "sparse_ops out = Sparse_File_Ops"
    and bs: "of_block_size out = w" "0 < w"
    and sm: "small_block (unat w) b" and ch: "block_chunk E (unat w) b = Some ch"
  shows "\<exists>out'. sparse_file_write_block E out b = Inr (0, out') \<and> emits out out' ch"
proof -
  have len: "0 < bb_len b" "unat (bb_len b) + unat w + page_size \<le> 2 ^ 31" "unat (bb_len b) + unat w \<le> 2 ^ 31"
    using sm by (auto simp: small_block_def page_size_def)
  show ?thesis
  proof (cases "bb_cont b")
    case (BB_Data p)
    have "ch = Raw (pad_block (unat w) (map (env_mem E) [p..<p + unat (bb_len b)]))"
      using ch unfolding block_chunk_eq(1)[OF BB_Data] by simp
    then show ?thesis
      unfolding write_block_eq(1)[OF BB_Data] using write_data_step[OF o bs len(3)] by simp
  next
    case (BB_File p name off)
    then obtain d where d: "env_open E name \<ge> 0" "fd_data E (env_open E name) off (unat (bb_len b)) = Some d"
      "ch = Raw (pad_block (unat w) d)"
      using ch unfolding block_chunk_eq(2)[OF BB_File] by (auto split: if_splits)
    have "write_file_chunk E out (bb_len b) name off = write_fd_chunk E out (bb_len b) (env_open E name) off"
      using d(1) by (simp add: write_file_chunk_def Let_def)
    then show ?thesis unfolding write_block_eq(2)[OF BB_File] d(3)
      using write_fd_step[OF o bs len(1,2) d(2)] by simp
  next
    case (BB_Fd fd off)
    then obtain d where d: "fd_data E fd off (unat (bb_len b)) = Some d" "ch = Raw (pad_block (unat w) d)"
      using ch unfolding block_chunk_eq(3)[OF BB_Fd] by auto
    show ?thesis unfolding write_block_eq(3)[OF BB_Fd] d(2) by (rule write_fd_step[OF o bs len(1,2) d(1)])
  next
    case (BB_Fill v)
    have "ch = Fill v (blocks_for (unat w) (unat (bb_len b)))"
      using ch unfolding block_chunk_eq(4)[OF BB_Fill] by simp
    then show ?thesis unfolding write_block_eq(4)[OF BB_Fill]
      using write_sparse_fill_ok[OF o(1,2) bs len(3), of v] o(3) by (simp add: write_fill_chunk_def)
  qed
qed

end

section \<open>Writing an image\<close>

text \<open>What the loops rely on: the rounding does not wrap, and the block behind a node is its end.\<close>

lemma node_round:
  assumes "0 < w" "small_block (unat w) b" "bb_end (unat w) b < 2 ^ 32"
  obtains q where "DIV_ROUND_UP (bb_len b) w = Inr q" "unat (bb_block b + q) = bb_end (unat w) b"
proof -
  have "unat (bb_len b) + unat w \<le> 4294967296" using assms(2) by (simp add: small_block_def)
  from DIV_ROUND_UP_nat[OF assms(1) this] obtain q where q: "DIV_ROUND_UP (bb_len b) w = Inr q"
    "unat q = blocks_for (unat w) (unat (bb_len b))" by (auto simp: blocks_for_def)
  have "unat (bb_block b + q) = bb_end (unat w) b"
    using assms(3) q(2) by (simp add: unat_add_u32 blocks_for_end)
  with q(1) show thesis using that by blast
qed

lemma in_order_Cons:
  assumes "in_order bs nblk k (b # l)"
  shows "in_order bs nblk (bb_end bs b) l" "small_block bs b" "bb_end bs b \<le> nblk" "k \<le> unat (bb_block b)"
  using assms by (auto simp: in_order_def before_def)

lemma chunks_from_ConsE:
  assumes "chunks_from E bs nblk k (b # l) = Some cs"
  obtains c cs' where "block_chunk E bs b = Some c" "chunks_from E bs nblk (bb_end bs b) l = Some cs'"
    "cs = (if k < unat (bb_block b) then [Skip (unat (bb_block b) - k)] else []) @ c # cs'"
  using assms by (auto split: option.splits)

lemma count_loop_ok:
  assumes "in_order (unat w) nblk (unat last_block) l" "0 < w" "nblk < 2 ^ 32"
    "chunks_from E (unat w) nblk (unat last_block) l = Some cs"
  shows "\<exists>last' n. count_loop w l last_block k = Inr (last', n) \<and>
     (if unat last' < nblk then n + 1 else n) = k + word_of_nat (length cs)"
  using assms
proof (induction l arbitrary: last_block k cs)
  case Nil
  then show ?case by auto
next
  case (Cons b l)
  note io = in_order_Cons[OF Cons.prems(1)]
  obtain c cs' where c: "chunks_from E (unat w) nblk (bb_end (unat w) b) l = Some cs'"
    "cs = (if unat last_block < unat (bb_block b) then [Skip (unat (bb_block b) - unat last_block)] else []) @ c # cs'"
    using chunks_from_ConsE[OF Cons.prems(4)] by metis
  have "bb_end (unat w) b < 2 ^ 32" using io(3) Cons.prems(3) by simp
  then obtain q where q: "DIV_ROUND_UP (bb_len b) w = Inr q" "unat (bb_block b + q) = bb_end (unat w) b"
    using node_round[OF Cons.prems(2) io(2)] by metis
  let ?k = "k + (if bb_block b > last_block then 2 else 1)"
  obtain last' n where r: "count_loop w l (bb_block b + q) ?k = Inr (last', n)"
    "(if unat last' < nblk then n + 1 else n) = ?k + word_of_nat (length cs')"
    using Cons.IH[of "bb_block b + q" cs' ?k] io(1) Cons.prems(2,3) c(1) q(2) by auto
  have "?k + word_of_nat (length cs') = k + word_of_nat (length cs)"
    using c(2) by (simp add: word_less_nat_alt)
  with r q(1) show ?case by auto
qed

lemma image_blocks:
  assumes "image_ok s"
  shows "0 < sf_block_size s" "int (nat (sf_len s) div unat (sf_block_size s)) * int (unat (sf_block_size s)) = sf_len s"
    "nat (sf_len s) div unat (sf_block_size s) < 2 ^ 32"
    "in_order (unat (sf_block_size s)) (nat (sf_len s) div unat (sf_block_size s)) 0 (data_blocks (backed_blocks s))"
proof -
  show "0 < sf_block_size s" "nat (sf_len s) div unat (sf_block_size s) < 2 ^ 32"
    "in_order (unat (sf_block_size s)) (nat (sf_len s) div unat (sf_block_size s)) 0 (data_blocks (backed_blocks s))"
    using assms by (auto simp: image_ok_def Let_def bbl_ok_def blocks_ok_def in_order_def)
  have l: "0 \<le> sf_len s" "int (unat (sf_block_size s)) dvd sf_len s" using assms by (simp_all add: image_ok_def Let_def)
  then have "int (unat (sf_block_size s)) dvd int (nat (sf_len s))" by simp
  then have "unat (sf_block_size s) dvd nat (sf_len s)" by (simp only: of_nat_dvd_iff)
  then have "nat (sf_len s) div unat (sf_block_size s) * unat (sf_block_size s) = nat (sf_len s)" by simp
  then have "int (nat (sf_len s) div unat (sf_block_size s) * unat (sf_block_size s)) = int (nat (sf_len s))" by (rule arg_cong)
  then show "int (nat (sf_len s) div unat (sf_block_size s)) * int (unat (sf_block_size s)) = sf_len s"
    using l(1) by (simp only: of_nat_mult int_nat_eq if_True)
qed

lemma cdiv_round_up:
  assumes "0 < b" shows "cdiv (int n * int b + int b - 1) (int b) = int n"
proof -
  have "(int n * int b + int b - 1) div int b = int n"
  proof -
    have "int n * int b + int b - 1 = (int b - 1) + int n * int b" by simp
    also have "\<dots> div int b = int n + (int b - 1) div int b" using assms by (subst div_mult_self1) auto
    also have "(int b - 1) div int b = 0" using assms by (intro div_pos_pos_trivial) auto
    finally show ?thesis by simp
  qed
  moreover have "0 \<le> int n * int b" by simp
  then have "\<not> int n * int b + int b - 1 < 0" using assms by linarith
  ultimately show ?thesis unfolding cdiv_def by (simp only: if_False)
qed

lemma sparse_count_chunks_ok:
  assumes ok: "image_ok s" and cs: "image_chunks E s = Some cs"
  shows "sparse_count_chunks s = Inr (word_of_nat (length cs))"
proof -
  let ?w = "sf_block_size s" let ?n = "nat (sf_len s) div unat ?w"
  note im = image_blocks[OF ok]
  have w0: "0 < unat ?w" using im(1) by (simp add: unat_gt_0 word_gt_0)
  obtain last' n where r: "count_loop ?w (data_blocks (backed_blocks s)) 0 0 = Inr (last', n)"
    "(if unat last' < ?n then n + 1 else n) = 0 + word_of_nat (length cs)"
    using count_loop_ok[of ?w ?n 0 "data_blocks (backed_blocks s)" E cs 0] im cs by (auto simp: image_chunks_def)
  have cd: "cdiv (sf_len s + int (unat ?w) - 1) (int (unat ?w)) = int ?n"
    using cdiv_round_up[OF w0, of ?n] unfolding im(2) .
  show ?thesis unfolding sparse_count_chunks_def r(1) using r(2) w0 cd
    by (simp add: Let_def split del: if_split del: of_nat_unat)
qed

context byte_sink
begin

definition emits_all :: "'s output_file \<Rightarrow> 's output_file \<Rightarrow> chunk list \<Rightarrow> bool" where
  "emits_all out out' cs \<longleftrightarrow> same_file out out' \<and> good (of_sink out') \<and>
     view (of_sink out') = absorb (view (of_sink out)) (concat (map (chunk_bytes (unat (of_block_size out))) cs)) \<and>
     chunk_cnt out' = chunk_cnt out + word_of_nat (length cs) \<and>
     of_crc32 out' = (if use_crc out then foldl (writer_crc (unat (of_block_size out))) (of_crc32 out) cs
                      else of_crc32 out)"

lemma emits_all_Nil: "good (of_sink out) \<Longrightarrow> emits_all out out []"
  by (simp add: emits_all_def same_file_def absorb_Nil)

lemma emits_all_Cons: "emits out out1 c \<Longrightarrow> emits_all out1 out2 cs \<Longrightarrow> emits_all out out2 (c # cs)"
  by (simp add: emits_all_def emits_def same_file_def absorb_append)

text \<open>An output file the writer can go on with, and a skip chunk on it.\<close>

definition ready :: "'s output_file \<Rightarrow> u32 \<Rightarrow> bool" where
  "ready out w \<longleftrightarrow> of_ops out = ops \<and> good (of_sink out) \<and> sparse_ops out = Sparse_File_Ops \<and> of_block_size out = w"

lemma emits_ready: "ready out w \<Longrightarrow> emits out out' c \<Longrightarrow> ready out' w"
  by (simp add: ready_def emits_def same_file_def)

lemma skip_step:
  assumes "ready out w" "0 < w" "0 < n"
  obtains out' where "write_skip_chunk out (int n * int (unat w)) = Inr (0, out')" "emits out out' (Skip n)"
  using write_sparse_skip_ok[of out w n] assms by (auto simp: ready_def write_skip_chunk_def)

lemma gap_step:
  assumes r: "ready out w" and w: "0 < w" and k: "unat k \<le> unat b"
    and tail: "\<And>out1. ready out1 w \<Longrightarrow> \<exists>out2. F out1 = Inr (0, out2) \<and> emits_all out1 out2 cs"
  shows "\<exists>out2. bindC (if b > k
            then bindC (write_skip_chunk out (int (unat (b - k)) * int (unat w))) (\<lambda>(_, out1). Inr out1)
            else Inr out) F = Inr (0, out2) \<and>
     emits_all out out2 ((if unat k < unat b then [Skip (unat b - unat k)] else []) @ cs)"
proof (cases "b > k")
  case True
  then have d: "unat (b - k) = unat b - unat k" "0 < unat (b - k)" "unat k < unat b"
    by (auto simp: unat_sub word_less_nat_alt word_le_nat_alt less_imp_le)
  obtain o1 where o1: "write_skip_chunk out (int (unat (b - k)) * int (unat w)) = Inr (0, o1)" "emits out o1 (Skip (unat (b - k)))"
    using skip_step[OF r w d(2)] .
  obtain o2 where "F o1 = Inr (0, o2)" "emits_all o1 o2 cs" using tail[OF emits_ready[OF r o1(2)]] by blast
  then show ?thesis using o1 True d emits_all_Cons[OF o1(2)] by simp
next
  case False
  then have "\<not> unat k < unat b" by (simp add: word_less_nat_alt)
  then show ?thesis using False tail[OF r] by simp
qed

lemma write_blocks_ok:
  assumes "in_order (unat w) nblk (unat last_block) l" "0 < w" "nblk < 2 ^ 32" "ready out w"
    "chunks_from E (unat w) nblk (unat last_block) l = Some cs"
    and K: "\<And>k out1. unat k \<le> nblk \<Longrightarrow> ready out1 w \<Longrightarrow> \<exists>out2. K (0, k, out1) = Inr (0, out2) \<and>
        emits_all out1 out2 (if unat k < nblk then [Skip (nblk - unat k)] else [])"
  shows "\<exists>out'. bindC (write_blocks E w l last_block out) K = Inr (0, out') \<and> emits_all out out' cs"
  using assms(1,4,5)
proof (induction l arbitrary: last_block out cs)
  case Nil
  then show ?case using K[of last_block out] by (auto simp: in_order_def)
next
  case (Cons b l)
  note io = in_order_Cons[OF Cons.prems(1)]
  obtain c cs' where c: "block_chunk E (unat w) b = Some c"
    "chunks_from E (unat w) nblk (bb_end (unat w) b) l = Some cs'"
    "cs = (if unat last_block < unat (bb_block b) then [Skip (unat (bb_block b) - unat last_block)] else []) @ c # cs'"
    using chunks_from_ConsE[OF Cons.prems(3)] by metis
  have "bb_end (unat w) b < 2 ^ 32" using io(3) assms(3) by simp
  then obtain q where q: "DIV_ROUND_UP (bb_len b) w = Inr q" "unat (bb_block b + q) = bb_end (unat w) b"
    using node_round[OF assms(2) io(2)] by metis
  let ?F = "\<lambda>out1. bindC (sparse_file_write_block E out1 b) (\<lambda>(ret, out2).
       if ret \<noteq> 0 then K (ret, last_block, out2)
       else bindC (write_blocks E w l (bb_block b + q) out2) K)"
  have tail: "\<exists>out2. ?F out1 = Inr (0, out2) \<and> emits_all out1 out2 (c # cs')" if r1: "ready out1 w" for out1
  proof -
    obtain o2 where o2: "sparse_file_write_block E out1 b = Inr (0, o2)" "emits out1 o2 c"
      using write_block_step[of out1 w b E c] r1 assms(2) io(2) c(1) unfolding ready_def by auto
    obtain o3 where "bindC (write_blocks E w l (bb_block b + q) o2) K = Inr (0, o3)" "emits_all o2 o3 cs'"
      using Cons.IH[of "bb_block b + q" o2 cs'] io(1) c(2) emits_ready[OF r1 o2(2)] unfolding q(2) by auto
    with o2 emits_all_Cons[OF o2(2)] show ?thesis by simp
  qed
  have assoc: "bindC (write_blocks E w (b # l) last_block out) K =
      bindC (if bb_block b > last_block
            then bindC (write_skip_chunk out (int (unat (bb_block b - last_block)) * int (unat w))) (\<lambda>(_, out1). Inr out1)
            else Inr out) ?F"
    unfolding write_blocks.simps bindC_assoc q(1) by (intro bindC_cong refl) (auto simp: bindC_assoc intro!: bindC_cong)
  show ?case unfolding assoc c(3) by (rule gap_step[OF Cons.prems(2) assms(2) io(4) tail])
qed

end

lemma writer_header:
  assumes ok: "image_ok s"
  shows "\<lparr>sh_magic = SPARSE_HEADER_MAGIC, sh_major_version = 1, sh_minor_version = 0,
      sh_file_hdr_sz = word_of_nat SPARSE_HEADER_LEN, sh_chunk_hdr_sz = word_of_nat CHUNK_HEADER_LEN,
      sh_blk_sz = sf_block_size s,
      sh_total_blks = word_of_int (cdiv (sf_len s) (int (unat (sf_block_size s)))),
      sh_total_chunks = word_of_nat n + (if crc then 1 else 0), sh_image_checksum = 0\<rparr> =
    image_header s (n + (if crc then 1 else 0))"
proof -
  have "0 \<le> sf_len s" using ok by (simp add: image_ok_def Let_def)
  then have "cdiv (sf_len s) (int (unat (sf_block_size s))) = int (nat (sf_len s) div unat (sf_block_size s))"
    by (simp add: cdiv_def zdiv_int del: of_nat_unat)
  then show ?thesis by (simp add: image_header_def del: of_nat_unat)
qed

context byte_sink
begin

lemma write_all_ok:
  assumes ok: "image_ok s" and cs: "image_chunks E s = Some cs" and r: "ready out (sf_block_size s)"
  shows "\<exists>out'. write_all_blocks E s out = Inr (0, out') \<and> emits_all out out' cs"
proof -
  let ?w = "sf_block_size s" let ?n = "nat (sf_len s) div unat ?w"
  note im = image_blocks[OF ok]
  show ?thesis unfolding write_all_blocks_def
  proof (rule write_blocks_ok[where nblk = ?n])
    fix k :: u32 and out1 assume k: "unat k \<le> ?n" and r1: "ready out1 ?w"
    have pad: "sf_len s - int (unat k) * int (unat ?w) = int (?n - unat k) * int (unat ?w)"
      using im(2) by (simp only: of_nat_diff[OF k] left_diff_distrib)
    have w0: "0 < unat ?w" using im(1) by (simp add: unat_gt_0 word_gt_0)
    show "\<exists>out2. (case (0, k, out1) of (ret, last_block, out1) \<Rightarrow>
        if ret \<noteq> 0 then Inr (ret, out1)
        else let pad = sf_len s - int (unat last_block) * int (unat ?w)
             in assertC (pad \<ge> 0) Assert_Failed
               (if pad > 0 then bindC (write_skip_chunk out1 pad) (\<lambda>(_, out2). Inr (0, out2)) else Inr (0, out1))) =
        Inr (0, out2) \<and> emits_all out1 out2 (if unat k < ?n then [Skip (?n - unat k)] else [])"
    proof (cases "unat k < ?n")
      case True
      then obtain o2 where o2: "write_skip_chunk out1 (int (?n - unat k) * int (unat ?w)) = Inr (0, o2)"
        "emits out1 o2 (Skip (?n - unat k))" using skip_step[OF r1 im(1), of "?n - unat k"] by auto
      have "good (of_sink o2)" using o2(2) by (simp add: emits_def)
      then have "emits_all out1 o2 [Skip (?n - unat k)]" by (rule emits_all_Cons[OF o2(2) emits_all_Nil])
      moreover have "0 < int (?n - unat k) * int (unat ?w)"
        using True w0 by (intro mult_pos_pos) (simp_all only: of_nat_0_less_iff zero_less_diff)
      ultimately show ?thesis using True o2(1) unfolding Let_def prod.case pad by (simp del: of_nat_unat)
    next
      case False
      then have "?n - unat k = 0" using k by simp
      then show ?thesis using False r1 emits_all_Nil[of out1] unfolding Let_def prod.case pad
        by (simp add: ready_def del: of_nat_unat)
    qed
  qed (use im cs r in \<open>simp_all add: image_chunks_def\<close>)
qed

lemma init_ok:
  assumes ok: "image_ok s" and o: "of_ops out = ops" "good (of_sink out)"
  shows "\<exists>out'. output_file_init True True out (sf_block_size s) (sf_len s) True (word_of_nat n) crc = Inr (0, out') \<and>
     ready out' (sf_block_size s) \<and> use_crc out' = crc \<and> of_crc32 out' = 0 \<and> chunk_cnt out' = 0 \<and>
     view (of_sink out') = absorb (view (of_sink out)) (sparse_header_bytes (image_header s (n + (if crc then 1 else 0))))"
proof -
  let ?o = "out\<lparr>of_len := sf_len s, of_block_size := sf_block_size s, cur_out_ptr := 0, chunk_cnt := 0,
                of_crc32 := 0, use_crc := crc, sparse_ops := Sparse_File_Ops\<rparr>"
  let ?h = "sparse_header_bytes (image_header s (n + (if crc then 1 else 0)))"
  have w: "sf_block_size s \<noteq> 0" using image_blocks(1)[OF ok] by (simp add: word_gt_0)
  obtain s' where s': "ops_write ?o ?h = (0, ?o\<lparr>of_sink := s'\<rparr>)" "good s'" "view s' = absorb (view (of_sink out)) ?h"
    using ops_write_ok[of ?o ?h] o by auto
  have "output_file_init True True out (sf_block_size s) (sf_len s) True (word_of_nat n) crc = Inr (0, ?o\<lparr>of_sink := s'\<rparr>)"
    using w s'(1) unfolding output_file_init_def writer_header[OF ok] Let_def by simp
  then show ?thesis using s'(2,3) o(1) by (simp add: ready_def)
qed

lemma close_ok:
  assumes r: "ready out w"
  shows "\<exists>s'. output_file_close out = Inr s' \<and> good s' \<and>
     view s' = absorb (view (of_sink out)) (if use_crc out then crc_chunk_bytes (of_crc32 out) else [])"
proof (cases "use_crc out")
  case True
  let ?h = "chunk_header_bytes \<lparr>ch_chunk_type = CHUNK_TYPE_CRC32, ch_reserved1 = 0, ch_chunk_sz = 0,
      ch_total_sz = word_of_nat (CHUNK_HEADER_LEN + 4)\<rparr>"
  have o: "of_ops out = ops" "good (of_sink out)" "sparse_ops out = Sparse_File_Ops" using r by (simp_all add: ready_def)
  obtain s1 where s1: "ops_write out ?h = (0, out\<lparr>of_sink := s1\<rparr>)" "good s1" "view s1 = absorb (view (of_sink out)) ?h"
    using ops_write_ok[OF o(1,2)] by blast
  obtain s2 where s2: "ops_write (out\<lparr>of_sink := s1\<rparr>) (le32 (of_crc32 out)) = (0, out\<lparr>of_sink := s2\<rparr>)" "good s2"
    "view s2 = absorb (view s1) (le32 (of_crc32 out))"
    using ops_write_ok[of "out\<lparr>of_sink := s1\<rparr>"] o(1) s1(2) by auto
  have "output_file_close out = Inr s2"
    using True o(3) s1(1) s2(1) by (simp add: output_file_close_def write_end_chunk_def write_sparse_end_chunk_def Let_def)
  then show ?thesis using True s2(2,3) s1(3) by (simp add: absorb_append crc_chunk_bytes_def)
next
  case False
  then show ?thesis using r
    by (simp add: ready_def output_file_close_def write_end_chunk_def write_sparse_end_chunk_def absorb_Nil)
qed

text \<open>From the opened file to the closed one.\<close>

lemma image_written:
  assumes ok: "image_ok s" and cs: "image_chunks E s = Some cs" and o: "of_ops out = ops" "good (of_sink out)"
  shows "\<exists>o1 o2 s'. output_file_init True True out (sf_block_size s) (sf_len s) True (word_of_nat (length cs)) crc = Inr (0, o1) \<and>
     write_all_blocks E s o1 = Inr (0, o2) \<and> output_file_close o2 = Inr s' \<and> good s' \<and>
     chunk_cnt o2 = word_of_nat (length cs) \<and>
     view s' = absorb (view (of_sink out)) (image_bytes s crc cs)"
proof -
  obtain o1 where o1: "output_file_init True True out (sf_block_size s) (sf_len s) True (word_of_nat (length cs)) crc = Inr (0, o1)"
    "ready o1 (sf_block_size s)" "use_crc o1 = crc" "of_crc32 o1 = 0" "chunk_cnt o1 = 0"
    "view (of_sink o1) = absorb (view (of_sink out)) (sparse_header_bytes (image_header s (length cs + (if crc then 1 else 0))))"
    using init_ok[OF ok o] by blast
  obtain o2 where o2: "write_all_blocks E s o1 = Inr (0, o2)" "emits_all o1 o2 cs" using write_all_ok[OF ok cs o1(2)] by blast
  have r2: "ready o2 (sf_block_size s)" using o1(2) o2(2) by (simp add: ready_def emits_all_def same_file_def)
  obtain s' where s': "output_file_close o2 = Inr s'" "good s'"
    "view s' = absorb (view (of_sink o2)) (if use_crc o2 then crc_chunk_bytes (of_crc32 o2) else [])"
    using close_ok[OF r2] by blast
  have "view s' = absorb (view (of_sink out)) (image_bytes s crc cs)"
    using s'(3) o1(2-6) o2(2) by (simp add: emits_all_def same_file_def absorb_append image_bytes_def ready_def)
  moreover have "chunk_cnt o2 = word_of_nat (length cs)" using o2(2) o1(5) by (simp add: emits_all_def)
  ultimately show ?thesis using o1(1) o2(1) s'(1,2) by blast
qed

lemma write_fd_ok:
  assumes "image_ok s" "image_chunks E s = Some cs" "good (snd (op_open ops s0 fd))"
  shows "\<exists>s'. sparse_file_write E (True, True) (Some (new_output_file ops s0)) s fd True crc = Inr (0, Some s') \<and> good s' \<and>
     view s' = absorb (view (snd (op_open ops s0 fd))) (image_bytes s crc cs)"
proof -
  let ?o = "(new_output_file ops s0)\<lparr>of_sink := snd (op_open ops s0 fd)\<rparr>"
  obtain o1 o2 s' where w: "output_file_init True True ?o (sf_block_size s) (sf_len s) True (word_of_nat (length cs)) crc = Inr (0, o1)"
     "write_all_blocks E s o1 = Inr (0, o2)" "output_file_close o2 = Inr s'" "good s'"
     "view s' = absorb (view (snd (op_open ops s0 fd))) (image_bytes s crc cs)"
    using image_written[OF assms(1,2), of ?o crc] assms(3) by (auto simp: new_output_file_def)
  have "sparse_file_write E (True, True) (Some (new_output_file ops s0)) s fd True crc = Inr (0, Some s')"
    using w(1-3) unfolding sparse_file_write_def sparse_count_chunks_ok[OF assms(1,2)] output_file_open_fd_def
    by (simp add: Let_def new_output_file_def)
  with w(4,5) show ?thesis by blast
qed

lemma write_callback_ok:
  assumes "image_ok s" "image_chunks E s = Some cs" "good p" "ops = callback_file_ops cb"
  shows "\<exists>o1 o2 p'. output_file_open_callback (True, True, True) cb p (sf_block_size s) (sf_len s) True
            (word_of_nat (length cs)) crc = Inr (Some o1, of_sink o1) \<and>
     write_all_blocks E s o1 = Inr (0, o2) \<and> output_file_close o2 = Inr p' \<and> good p' \<and>
     view p' = absorb (view p) (image_bytes s crc cs)"
  using image_written[OF assms(1,2), of "new_output_file (callback_file_ops cb) p" crc] assms(3,4)
  by (auto simp: new_output_file_def output_file_open_callback_def)

end

section \<open>The sinks of the code\<close>

interpretation fsink: byte_sink file_ops "\<lambda>f. fs_cap f = None \<and> fs_pos f = length (fs_data f)" fs_data "(@)"
  by unfold_locales (auto simp: file_ops_def file_write_def sys_write_def overwrite_def Let_def)

interpretation csink: byte_sink "callback_file_ops out_counter_write" "\<lambda>_. True" id "\<lambda>n b. n + int (length b)"
  by unfold_locales (auto simp: callback_file_ops_def callback_file_write_def out_counter_write_def)

text \<open>An empty file, and images for the examples.\<close>

definition empty_file :: file_sink where
  "empty_file = \<lparr>fs_data = [], fs_pos = 0, fs_cap = None\<rparr>"

definition sample_env :: environment where
  "sample_env = \<lparr>env_mem = (\<lambda>_. 0), env_open = (\<lambda>_. -1), env_fd = (\<lambda>fd. if fd = 3 then Some [1, 2, 3, 4, 5, 6] else None)\<rparr>"

definition sample_image :: sparse_file where
  "sample_image = \<lparr>sf_block_size = 4, sf_len = 24, sf_verbose = False,
     backed_blocks = \<lparr>data_blocks = [\<lparr>bb_addr = 8, bb_block = 1, bb_len = 6, bb_cont = BB_Fd 3 0\<rparr>,
                                     \<lparr>bb_addr = 16, bb_block = 3, bb_len = 8, bb_cont = BB_Fill 7\<rparr>],
                      last_used = 0, bbl_block_size = 4\<rparr>\<rparr>"

definition resparse_sample :: sparse_file where
  "resparse_sample = \<lparr>sf_block_size = 4, sf_len = 200, sf_verbose = False,
     backed_blocks = \<lparr>data_blocks = [\<lparr>bb_addr = 8, bb_block = 1, bb_len = 100, bb_cont = BB_Data 0\<rparr>],
                      last_used = 0, bbl_block_size = 4\<rparr>\<rparr>"

text \<open>An image without blocks.\<close>

definition empty_image :: "u32 \<Rightarrow> int \<Rightarrow> sparse_file" where
  "empty_image block_size len =
     \<lparr>sf_block_size = block_size, sf_len = len, sf_verbose = False, backed_blocks = backed_block_list_new block_size\<rparr>"

definition partial_fill :: sparse_file where
  "partial_fill = \<lparr>sf_block_size = 4, sf_len = 8, sf_verbose = False,
     backed_blocks = \<lparr>data_blocks = [\<lparr>bb_addr = 8, bb_block = 0, bb_len = 2, bb_cont = BB_Fill 0\<rparr>,
                                     \<lparr>bb_addr = 16, bb_block = 1, bb_len = 4, bb_cont = BB_Data 0\<rparr>],
                      last_used = 0, bbl_block_size = 4\<rparr>\<rparr>"

lemma write_file_bytes:
  assumes "image_ok s" "image_chunks E s = Some cs"
  shows "\<exists>f. sparse_file_write E (True, True) (output_file_new_normal True empty_file) s fd True crc = Inr (0, Some f) \<and>
     fs_data f = image_bytes s crc cs"
  using fsink.write_fd_ok[OF assms, of empty_file fd crc]
  by (auto simp: output_file_new_normal_def file_ops_def file_open_def empty_file_def)

lemma sample_image_ok: "image_ok sample_image"
  by (simp add: image_ok_def sample_image_def bbl_ok_def blocks_ok_def before_def bb_end_def
      names_agree_def small_block_def page_size_def)

lemma sample_image_chunks:
  "image_chunks sample_env sample_image = Some [Skip 1, Raw [1, 2, 3, 4, 5, 6, 0, 0], Fill 7 2, Skip 1]"
  by code_simp

section \<open>Theorems\<close>



text \<open>The pieces of a split image can exceed the limit: room for the header of a leading skip chunk is not set aside.\<close>

theorem resparse_exceeds_limit:
  "case move_chunks_up_to_len sample_env (True, True, True) (Some 16) resparse_sample (empty_image 4 200) 88 of
     Inr (bb, from, to) \<Rightarrow> bb \<noteq> 0 \<and> sparse_file_len sample_env (True, True, True) to True True = Inr 100
   | Inl e \<Rightarrow> False"
  by (simp add: move_chunks_up_to_len_def resparse_sample_def empty_image_def backed_block_list_new_def DIV_ROUND_UP_def
      output_file_open_callback_def output_file_init_def new_output_file_def callback_file_ops_def write_all_blocks_def
      udivC_def cdiv_def sparse_file_write_block_def backed_block_type_of_def
      write_fill_chunk_def write_data_chunk_def write_skip_chunk_def backed_block_fill_val_def backed_block_data_def
      ops_write_def ops_skip_def ops_pad_def ALIGN_def upt_conv_Cons resparse_overhead_def move_blocks_def SPARSE_HEADER_LEN_def CHUNK_HEADER_LEN_def
      Let_def callback_file_write_def out_counter_write_def sparse_file_len_def sparse_count_chunks_def
      write_sparse_data_chunk_def write_sparse_skip_chunk_def write_sparse_end_chunk_def chunk_done_def
      output_file_close_def write_end_chunk_def backed_block_split_def backed_block_list_move_def
      ALIGN_DOWN_def zero_buf_def)

text \<open>In the normal format a fill that is not whole blocks moves everything behind it.\<close>

theorem normal_fill_shifts:
  "case sparse_file_write (sample_env\<lparr>env_mem := (\<lambda>p. 5)\<rparr>) (True, True) (output_file_new_normal True empty_file) partial_fill 5 False False of
     Inr (ret, Some f) \<Rightarrow> ret = 0 \<and> fs_data f = [0, 0, 5, 5, 5, 5, 0, 0]
   | _ \<Rightarrow> False"
  by (simp add: sparse_file_write_def sparse_count_chunks_def partial_fill_def DIV_ROUND_UP_def output_file_new_normal_def
      output_file_open_fd_def output_file_init_def new_output_file_def file_ops_def file_open_def write_all_blocks_def
      udivC_def cdiv_def sparse_file_write_block_def backed_block_type_of_def
      write_fill_chunk_def write_data_chunk_def write_skip_chunk_def backed_block_fill_val_def backed_block_data_def
      ops_write_def ops_skip_def ops_pad_def ALIGN_def upt_conv_Cons
      write_normal_fill_chunk_def write_normal_data_chunk_def write_normal_skip_chunk_def write_normal_end_chunk_def
      normal_fill_loop.simps fill_buf_def file_write_def file_skip_def file_pad_def sys_write_def sys_lseek_cur_def
      sys_ftruncate_def overwrite_def empty_file_def le32_def output_file_close_def write_end_chunk_def replicate_numeral2 Let_def)

end
