(* ===== verification/Sparse_Read.thy ===== *)
theory Sparse_Read
  imports Sparse_File
begin

text \<open>
  Reading images, \<^verbatim>\<open>system/core/libsparse/sparse_read.c\<close>, and \<^verbatim>\<open>read_all\<close> of
  \<^verbatim>\<open>output_file.c\<close>. The allocator is a function of the list a node is allocated for. Messages
  are not modelled.
\<close>

section \<open>Files that are read\<close>

text \<open>
  The bytes, the position, and how \<^verbatim>\<open>read\<close> behaves at a position for a length: a negated error
  number, or how many of the bytes that are there it delivers, at least one.
\<close>

record rfile =
  rf_data :: "u8 list"
  rf_pos :: nat
  rf_read :: "nat \<Rightarrow> nat \<Rightarrow> int"

definition sys_read :: "rfile \<Rightarrow> nat \<Rightarrow> int \<times> u8 list \<times> rfile" where
  "sys_read f n =
     (let avail = min n (length (rf_data f) - rf_pos f); r = rf_read f (rf_pos f) n
      in if r < 0 then (r, [], f)
         else if avail = 0 then (0, [], f)
         else let k = max 1 (min avail (nat r))
              in (int k, take k (drop (rf_pos f) (rf_data f)), f\<lparr>rf_pos := rf_pos f + k\<rparr>))"

function read_all :: "rfile \<Rightarrow> nat \<Rightarrow> int \<times> u8 list \<times> rfile" where
  "read_all f len =
     (if len = 0 then (0, [], f)
      else let (ret, b, f1) = sys_read f len
           in if ret < 0 then (ret, b, f1)
              else if ret = 0 then (- EINVAL, b, f1)
              else let (ret2, b2, f2) = read_all f1 (len - nat ret) in (ret2, b @ b2, f2))"
  by pat_completeness auto
termination
  by (relation "measure (\<lambda>(f, len). len)") auto

section \<open>Chunks\<close>

definition COPY_BUF_SIZE :: nat where "COPY_BUF_SIZE = 1048576"

definition skip_bytes :: "rfile \<Rightarrow> nat \<Rightarrow> rfile" where
  "skip_bytes f n = f\<lparr>rf_pos := rf_pos f + n\<rparr>"

text \<open>The checksum of \<open>len\<close> bytes that are read, a buffer at a time.\<close>

function raw_crc_loop :: "rfile \<Rightarrow> nat \<Rightarrow> u32 \<Rightarrow> int \<times> rfile \<times> u32" where
  "raw_crc_loop f len crc =
     (if len = 0 then (0, f, crc)
      else let chunk = min len COPY_BUF_SIZE; (ret, b, f1) = read_all f chunk
           in if ret < 0 then (ret, f1, crc) else raw_crc_loop f1 (len - chunk) (sparse_crc32 crc b))"
  by pat_completeness auto
termination
  by (relation "measure (\<lambda>(f, len, crc). len)") (auto simp: COPY_BUF_SIZE_def)

text \<open>The first \<open>n\<close> bytes of a buffer filled with a word, and the checksum of a longer run.\<close>

definition word_bytes :: "u32 \<Rightarrow> nat \<Rightarrow> u8 list" where
  "word_bytes v n = map (\<lambda>i. le32 v ! (i mod 4)) [0..<n]"

function buffer_crc_loop :: "u32 \<Rightarrow> nat \<Rightarrow> u32 \<Rightarrow> u32" where
  "buffer_crc_loop v len crc =
     (if len = 0 then crc
      else let chunk = min len COPY_BUF_SIZE
           in buffer_crc_loop v (len - chunk) (sparse_crc32 crc (word_bytes v chunk)))"
  by pat_completeness auto
termination
  by (relation "measure (\<lambda>(v, len, crc). len)") (auto simp: COPY_BUF_SIZE_def)

text \<open>What the handlers of the chunks pass on: the return code, the image, the file, and the checksum (\<open>None\<close> for the null pointer).\<close>

type_synonym read_result = "(int \<times> sparse_file \<times> rfile \<times> u32 option) comp"

definition process_raw_chunk ::
    "(backed_block_list \<Rightarrow> ptr option) \<Rightarrow> sparse_file \<Rightarrow> u32 \<Rightarrow> rfile \<Rightarrow> int \<Rightarrow> int \<Rightarrow> u32 \<Rightarrow> u32 \<Rightarrow> u32 option \<Rightarrow> read_result" where
  "process_raw_chunk alloc s chunk_size f fd offset blocks block crc =
     (let len = blocks * sf_block_size s
      in assertC (sf_block_size s \<noteq> 0) Division_By_Zero
        (if chunk_size mod sf_block_size s \<noteq> 0 then Inr (- EINVAL, s, f, crc)
         else if chunk_size div sf_block_size s \<noteq> blocks then Inr (- EINVAL, s, f, crc)
         else bindC (sparse_file_add_fd (alloc (backed_blocks s)) s fd offset len block) (\<lambda>(ret, s1).
           if ret < 0 then Inr (ret, s1, f, crc)
           else case crc of
                  Some c \<Rightarrow> (let (ret2, f1, c1) = raw_crc_loop f (unat len) c
                             in Inr (if ret2 < 0 then ret2 else 0, s1, f1, Some c1))
                | None \<Rightarrow> Inr (0, s1, skip_bytes f (unat len), crc))))"

definition process_fill_chunk ::
    "(backed_block_list \<Rightarrow> ptr option) \<Rightarrow> sparse_file \<Rightarrow> u32 \<Rightarrow> rfile \<Rightarrow> u32 \<Rightarrow> u32 \<Rightarrow> u32 option \<Rightarrow> read_result" where
  "process_fill_chunk alloc s chunk_size f blocks block crc =
     (let len = unat blocks * unat (sf_block_size s)
      in if chunk_size \<noteq> 4 then Inr (- EINVAL, s, f, crc)
         else let (ret, b, f1) = read_all f 4
              in if ret < 0 then Inr (ret, s, f1, crc)
                 else let fill_val = get32 b 0
                      in bindC (sparse_file_add_fill (alloc (backed_blocks s)) s fill_val (word_of_nat len) block)
                           (\<lambda>(ret2, s1).
                           if ret2 < 0 then Inr (ret2, s1, f1, crc)
                           else Inr (0, s1, f1, map_option (buffer_crc_loop fill_val len) crc)))"

definition process_skip_chunk :: "sparse_file \<Rightarrow> u32 \<Rightarrow> u32 \<Rightarrow> u32 option \<Rightarrow> int \<times> u32 option" where
  "process_skip_chunk s chunk_size blocks crc =
     (if chunk_size \<noteq> 0 then (- EINVAL, crc)
      else (0, map_option (buffer_crc_loop 0 (unat blocks * unat (sf_block_size s))) crc))"

definition process_crc32_chunk :: "rfile \<Rightarrow> u32 \<Rightarrow> u32 \<Rightarrow> int \<times> rfile" where
  "process_crc32_chunk f chunk_size crc =
     (if chunk_size \<noteq> 4 then (- EINVAL, f)
      else let (ret, b, f1) = read_all f 4
           in if ret < 0 then (ret, f1) else if get32 b 0 \<noteq> crc then (- EINVAL, f1) else (0, f1))"

definition process_chunk ::
    "(backed_block_list \<Rightarrow> ptr option) \<Rightarrow> sparse_file \<Rightarrow> rfile \<Rightarrow> int \<Rightarrow> int \<Rightarrow> u32 \<Rightarrow> chunk_header \<Rightarrow> u32 \<Rightarrow> u32 option \<Rightarrow> read_result" where
  "process_chunk alloc s f fd offset chunk_hdr_sz ch cur_block crc =
     (let chunk_data_size = ch_total_sz ch - chunk_hdr_sz
      in if ch_chunk_type ch = CHUNK_TYPE_RAW
         then bindC (process_raw_chunk alloc s chunk_data_size f fd offset (ch_chunk_sz ch) cur_block crc)
                (\<lambda>(ret, s1, f1, crc1). Inr (if ret < 0 then ret else sint (ch_chunk_sz ch), s1, f1, crc1))
         else if ch_chunk_type ch = CHUNK_TYPE_FILL
         then bindC (process_fill_chunk alloc s chunk_data_size f (ch_chunk_sz ch) cur_block crc)
                (\<lambda>(ret, s1, f1, crc1). Inr (if ret < 0 then ret else sint (ch_chunk_sz ch), s1, f1, crc1))
         else if ch_chunk_type ch = CHUNK_TYPE_DONT_CARE
         then let (ret, crc1) = process_skip_chunk s chunk_data_size (ch_chunk_sz ch) crc
              in if chunk_data_size \<noteq> 0 \<and> ret < 0 then Inr (ret, s, f, crc1)
                 else Inr (sint (ch_chunk_sz ch), s, f, crc1)
         else if ch_chunk_type ch = CHUNK_TYPE_CRC32
         then (case crc of
                 None \<Rightarrow> Inl Null_Dereference
               | Some c \<Rightarrow> (let (ret, f1) = process_crc32_chunk f chunk_data_size c
                            in Inr (if ret < 0 then ret else 0, s, f1, crc)))
         else Inr (0, s, f, crc))"

section \<open>Images\<close>

fun read_chunks ::
    "(backed_block_list \<Rightarrow> ptr option) \<Rightarrow> int \<Rightarrow> u16 \<Rightarrow> nat \<Rightarrow> sparse_file \<Rightarrow> rfile \<Rightarrow> u32 \<Rightarrow> u32 option \<Rightarrow>
     (int \<times> sparse_file \<times> rfile \<times> u32) comp" where
  "read_chunks alloc fd chunk_hdr_sz 0 s f cur_block crc = Inr (0, s, f, cur_block)"
| "read_chunks alloc fd chunk_hdr_sz (Suc n) s f cur_block crc =
     (let (ret, b, f1) = read_all f CHUNK_HEADER_LEN
      in if ret < 0 then Inr (ret, s, f1, cur_block)
         else let f2 = (if unat chunk_hdr_sz > CHUNK_HEADER_LEN
                        then skip_bytes f1 (unat chunk_hdr_sz - CHUNK_HEADER_LEN) else f1)
              in bindC (process_chunk alloc s f2 fd (int (rf_pos f2)) (ucast chunk_hdr_sz) (chunk_header_of b) cur_block crc)
                   (\<lambda>(ret2, s1, f3, crc1).
                   if ret2 < 0 then Inr (ret2, s1, f3, cur_block)
                   else read_chunks alloc fd chunk_hdr_sz n s1 f3 (cur_block + word_of_int ret2) crc1))"

text \<open>\<open>buf_ok\<close>: the copy buffer is there or can be allocated.\<close>

definition sparse_file_read_sparse ::
    "(backed_block_list \<Rightarrow> ptr option) \<Rightarrow> bool \<Rightarrow> sparse_file \<Rightarrow> rfile \<Rightarrow> int \<Rightarrow> bool \<Rightarrow> (int \<times> sparse_file \<times> rfile) comp" where
  "sparse_file_read_sparse alloc buf_ok s f fd crc =
     (if \<not> buf_ok then Inr (- ENOMEM, s, f)
      else let crc_ptr = (if crc then Some 0 else None); (ret, b, f1) = read_all f SPARSE_HEADER_LEN
      in if ret < 0 then Inr (ret, s, f1)
         else let sh = sparse_header_of b
         in if sh_magic sh \<noteq> SPARSE_HEADER_MAGIC then Inr (- EINVAL, s, f1)
         else if sh_major_version sh \<noteq> 1 then Inr (- EINVAL, s, f1)
         else if unat (sh_file_hdr_sz sh) < SPARSE_HEADER_LEN then Inr (- EINVAL, s, f1)
         else if unat (sh_chunk_hdr_sz sh) < CHUNK_HEADER_LEN then Inr (- EINVAL, s, f1)
         else let f2 = (if unat (sh_file_hdr_sz sh) > SPARSE_HEADER_LEN
                        then skip_bytes f1 (unat (sh_file_hdr_sz sh) - SPARSE_HEADER_LEN) else f1)
              in bindC (read_chunks alloc fd (sh_chunk_hdr_sz sh) (unat (sh_total_chunks sh)) s f2 0 crc_ptr)
                   (\<lambda>(ret2, s1, f3, cur_block).
                   if ret2 < 0 then Inr (ret2, s1, f3)
                   else if sh_total_blks sh \<noteq> cur_block then Inr (- EINVAL, s1, f3)
                   else Inr (0, s1, f3)))"

text \<open>Whether the words of a block are all equal to the first one.\<close>

definition is_sparse_block :: "u8 list \<Rightarrow> nat \<Rightarrow> bool" where
  "is_sparse_block buf bs = list_all (\<lambda>i. get32 buf 0 = get32 buf (4 * i)) [1..<bs div 4]"

text \<open>The results of adding a block are not looked at.\<close>

function read_normal_loop ::
    "(backed_block_list \<Rightarrow> ptr option) \<Rightarrow> int \<Rightarrow> sparse_file \<Rightarrow> rfile \<Rightarrow> nat \<Rightarrow> int \<Rightarrow> u32 \<Rightarrow> (int \<times> sparse_file \<times> rfile) comp" where
  "read_normal_loop alloc fd s f remain offset block =
     (if remain = 0 then Inr (0, s, f)
      else if sf_block_size s = 0 then Inl Diverges
      else let bs = unat (sf_block_size s); to_read = min remain bs; (ret, buf, f1) = read_all f to_read
      in if ret < 0 then Inr (ret, s, f1)
         else case (if to_read = bs \<and> is_sparse_block buf bs
                    then assertC (4 \<le> bs) Out_Of_Bounds
                           (sparse_file_add_fill (alloc (backed_blocks s)) s (get32 buf 0) (word_of_nat to_read) block)
                    else sparse_file_add_fd (alloc (backed_blocks s)) s fd offset (word_of_nat to_read) block) of
                Inl e \<Rightarrow> Inl e
              | Inr (_, s1) \<Rightarrow>
                  read_normal_loop alloc fd s1 f1 (remain - to_read)
                    (offset + int to_read) (block + 1))"
  by pat_completeness auto
termination
  by (relation "measure (\<lambda>(alloc, fd, s, f, remain, offset, block). remain)") (auto simp: unat_gt_0)

definition sparse_file_read_normal ::
    "(backed_block_list \<Rightarrow> ptr option) \<Rightarrow> bool \<Rightarrow> sparse_file \<Rightarrow> rfile \<Rightarrow> int \<Rightarrow> (int \<times> sparse_file \<times> rfile) comp" where
  "sparse_file_read_normal alloc buf_ok s f fd =
     (if \<not> buf_ok then Inr (- ENOMEM, s, f) else read_normal_loop alloc fd s f (nat (sf_len s)) 0 0)"

definition sparse_file_read ::
    "(backed_block_list \<Rightarrow> ptr option) \<Rightarrow> bool \<Rightarrow> sparse_file \<Rightarrow> rfile \<Rightarrow> int \<Rightarrow> bool \<Rightarrow> bool \<Rightarrow> (int \<times> sparse_file \<times> rfile) comp" where
  "sparse_file_read alloc buf_ok s f fd sparse crc =
     (if crc \<and> \<not> sparse then Inr (- EINVAL, s, f)
      else if sparse then sparse_file_read_sparse alloc buf_ok s f fd crc
      else sparse_file_read_normal alloc buf_ok s f fd)"

definition sparse_file_import ::
    "(backed_block_list \<Rightarrow> ptr option) \<Rightarrow> bool \<Rightarrow> bool \<Rightarrow> rfile \<Rightarrow> int \<Rightarrow> bool \<Rightarrow> bool \<Rightarrow> (sparse_file option \<times> rfile) comp" where
  "sparse_file_import alloc new_ok buf_ok f fd verbose crc =
     (let (ret, b, f1) = read_all f SPARSE_HEADER_LEN
      in if ret < 0 then Inr (None, f1)
         else let sh = sparse_header_of b
         in if sh_magic sh \<noteq> SPARSE_HEADER_MAGIC then Inr (None, f1)
         else if sh_major_version sh \<noteq> 1 then Inr (None, f1)
         else if unat (sh_file_hdr_sz sh) < SPARSE_HEADER_LEN then Inr (None, f1)
         else if unat (sh_chunk_hdr_sz sh) < CHUNK_HEADER_LEN then Inr (None, f1)
         else case sparse_file_new new_ok new_ok (sh_blk_sz sh) (int (unat (sh_total_blks sh)) * int (unat (sh_blk_sz sh))) of
                None \<Rightarrow> Inr (None, f1)
              | Some s \<Rightarrow>
                  bindC (sparse_file_read alloc buf_ok (s\<lparr>sf_verbose := verbose\<rparr>) (f1\<lparr>rf_pos := 0\<rparr>) fd True crc)
                    (\<lambda>(ret2, s1, f2). Inr (if ret2 < 0 then None else Some s1, f2)))"

definition sparse_file_import_auto ::
    "(backed_block_list \<Rightarrow> ptr option) \<Rightarrow> bool \<Rightarrow> bool \<Rightarrow> rfile \<Rightarrow> int \<Rightarrow> bool \<Rightarrow> bool \<Rightarrow> (sparse_file option \<times> rfile) comp" where
  "sparse_file_import_auto alloc new_ok buf_ok f fd crc verbose =
     bindC (sparse_file_import alloc new_ok buf_ok f fd verbose crc) (\<lambda>(r, f1).
       case r of
         Some s \<Rightarrow> Inr (Some s, f1)
       | None \<Rightarrow>
           (case sparse_file_new new_ok new_ok 4096 (int (length (rf_data f1))) of
              None \<Rightarrow> Inr (None, f1\<lparr>rf_pos := 0\<rparr>)
            | Some s \<Rightarrow>
                bindC (sparse_file_read_normal alloc buf_ok s (f1\<lparr>rf_pos := 0\<rparr>) fd) (\<lambda>(ret, s1, f2).
                  Inr (if ret < 0 then None else Some s1, f2))))"

declare read_all.simps [simp del] raw_crc_loop.simps [simp del] buffer_crc_loop.simps [simp del]
  read_normal_loop.simps [simp del]

text \<open>Reads may be short, but none fails.\<close>

definition reads_ok :: "rfile \<Rightarrow> bool" where
  "reads_ok f \<longleftrightarrow> (\<forall>p n. 0 \<le> rf_read f p n)"

text \<open>
  What the reader relies on the allocator for: a node's address is new, and the node that was
  freed last, which the cursor may still point at, is handed out first.
\<close>

definition reusing_alloc :: "(backed_block_list \<Rightarrow> ptr option) \<Rightarrow> bool" where
  "reusing_alloc alloc \<longleftrightarrow>
     (\<forall>l. \<exists>p. alloc l = Some p \<and> p \<noteq> 0 \<and> p \<notin> bb_addr ` set (data_blocks l) \<and>
        (last_used l = 0 \<or> last_used l \<in> bb_addr ` set (data_blocks l) \<or> last_used l = p))"

abbreviation list_image :: "sparse_file \<Rightarrow> nat \<Rightarrow> byte_src option" where
  "list_image s \<equiv> image_of (unat (sf_block_size s)) (data_blocks (backed_blocks s))"

text \<open>An image that has been read up to block \<open>cur\<close>.\<close>

definition read_upto :: "sparse_file \<Rightarrow> nat \<Rightarrow> bool" where
  "read_upto s cur \<longleftrightarrow>
     bbl_block_size (backed_blocks s) = sf_block_size s \<and> bbl_ok (backed_blocks s) \<and>
     (\<forall>x. list_image s x \<noteq> None \<longrightarrow> x < cur * unat (sf_block_size s))"

text \<open>The value of a byte of an image, in an environment.\<close>

definition fd_byte :: "environment \<Rightarrow> int \<Rightarrow> int \<Rightarrow> u8" where
  "fd_byte E fd i = (case env_fd E fd of None \<Rightarrow> 0 | Some c \<Rightarrow> if nat i < length c then c ! nat i else 0)"

fun src_value :: "environment \<Rightarrow> byte_src \<Rightarrow> u8" where
  "src_value E (Mem_Byte p) = env_mem E p"
| "src_value E (File_Byte name i) = fd_byte E (env_open E name) i"
| "src_value E (Fd_Byte fd i) = fd_byte E fd i"
| "src_value E (Fill_Byte v k) = le32 v ! k"

definition image_value :: "environment \<Rightarrow> sparse_file \<Rightarrow> nat \<Rightarrow> u8 option" where
  "image_value E s x = map_option (src_value E) (list_image s x)"

text \<open>The bytes of a list of chunks, laid out one behind the other; those of a skip chunk are not given.\<close>

fun chunk_byte :: "chunk \<Rightarrow> nat \<Rightarrow> u8 option" where
  "chunk_byte (Raw d) i = Some (d ! i)"
| "chunk_byte (Fill v n) i = Some (le32 v ! (i mod 4))"
| "chunk_byte (Skip n) i = None"

fun layout :: "nat \<Rightarrow> chunk list \<Rightarrow> nat \<Rightarrow> u8 option" where
  "layout bs [] x = None"
| "layout bs (c # cs) x =
     (if x < chunk_blocks bs c * bs then chunk_byte c x else layout bs cs (x - chunk_blocks bs c * bs))"

fun chunk_ok :: "nat \<Rightarrow> chunk \<Rightarrow> bool" where
  "chunk_ok bs (Raw d) = (d \<noteq> [] \<and> bs dvd length d)"
| "chunk_ok bs (Fill v n) = (0 < n)"
| "chunk_ok bs (Skip n) = (0 < n)"

text \<open>The checksum the reader computes, of every block.\<close>

fun reader_crc :: "nat \<Rightarrow> u32 \<Rightarrow> chunk \<Rightarrow> u32" where
  "reader_crc bs c (Raw d) = sparse_crc32 c d"
| "reader_crc bs c (Fill v n) = sparse_crc32 c (word_bytes v (n * bs))"
| "reader_crc bs c (Skip n) = sparse_crc32 c (word_bytes 0 (n * bs))"

definition total_blocks :: "nat \<Rightarrow> chunk list \<Rightarrow> nat" where
  "total_blocks bs cs = sum_list (map (chunk_blocks bs) cs)"

definition chunk_hdr :: "nat \<Rightarrow> chunk \<Rightarrow> chunk_header" where
  "chunk_hdr bs c =
     (case c of
        Raw d \<Rightarrow> \<lparr>ch_chunk_type = CHUNK_TYPE_RAW, ch_reserved1 = 0, ch_chunk_sz = word_of_nat (length d div bs),
                  ch_total_sz = word_of_nat (CHUNK_HEADER_LEN + length d)\<rparr>
      | Fill v n \<Rightarrow> \<lparr>ch_chunk_type = CHUNK_TYPE_FILL, ch_reserved1 = 0, ch_chunk_sz = word_of_nat n,
                     ch_total_sz = word_of_nat (CHUNK_HEADER_LEN + 4)\<rparr>
      | Skip n \<Rightarrow> \<lparr>ch_chunk_type = CHUNK_TYPE_DONT_CARE, ch_reserved1 = 0, ch_chunk_sz = word_of_nat n,
                   ch_total_sz = word_of_nat CHUNK_HEADER_LEN\<rparr>)"

definition chunk_payload :: "chunk \<Rightarrow> u8 list" where
  "chunk_payload c = (case c of Raw d \<Rightarrow> d | Fill v n \<Rightarrow> le32 v | Skip n \<Rightarrow> [])"

text \<open>One chunk more has been read, from block \<open>cur\<close> on.\<close>

definition chunk_read :: "environment \<Rightarrow> sparse_file \<Rightarrow> nat \<Rightarrow> chunk \<Rightarrow> sparse_file \<Rightarrow> bool" where
  "chunk_read E s cur c s' \<longleftrightarrow>
     sf_block_size s' = sf_block_size s \<and> sf_len s' = sf_len s \<and>
     read_upto s' (cur + chunk_blocks (unat (sf_block_size s)) c) \<and>
     (\<forall>x. image_value E s' x =
        (if cur * unat (sf_block_size s) \<le> x \<and> x < (cur + chunk_blocks (unat (sf_block_size s)) c) * unat (sf_block_size s)
         then chunk_byte c (x - cur * unat (sf_block_size s)) else image_value E s x))"

section \<open>Reading an image\<close>

abbreviation hdr16 :: u16 where "hdr16 \<equiv> word_of_nat CHUNK_HEADER_LEN"

text \<open>A file that holds an image, from its first byte on, and nothing else.\<close>

definition image_file :: "(nat \<Rightarrow> nat \<Rightarrow> int) \<Rightarrow> u8 list \<Rightarrow> rfile" where
  "image_file r d = \<lparr>rf_data = d, rf_pos = 0, rf_read = r\<rparr>"

text \<open>An allocator as the reader needs it: the node freed last, or an address above those in use.\<close>

definition reuse_first :: "backed_block_list \<Rightarrow> ptr option" where
  "reuse_first l =
     (let addrs = map bb_addr (data_blocks l)
      in Some (if last_used l \<noteq> 0 \<and> last_used l \<notin> set addrs then last_used l else Suc (sum_list addrs)))"

section \<open>Reading bytes\<close>

lemma reads_ok_pos [simp]: "reads_ok (f\<lparr>rf_pos := p\<rparr>) = reads_ok f" "reads_ok (skip_bytes f n) = reads_ok f"
  by (simp_all add: reads_ok_def skip_bytes_def)

lemma sys_read_ok:
  assumes "reads_ok f" "0 < n" "rf_pos f < length (rf_data f)"
  obtains k where "0 < k" "k \<le> n" "rf_pos f + k \<le> length (rf_data f)"
    "sys_read f n = (int k, take k (drop (rf_pos f) (rf_data f)), f\<lparr>rf_pos := rf_pos f + k\<rparr>)"
proof -
  let ?avail = "min n (length (rf_data f) - rf_pos f)"
  let ?k = "max 1 (min ?avail (nat (rf_read f (rf_pos f) n)))"
  have a: "0 < ?avail" using assms(2,3) by simp
  have "0 < ?k" "?k \<le> n" "rf_pos f + ?k \<le> length (rf_data f)" using a by auto
  moreover have "sys_read f n = (int ?k, take ?k (drop (rf_pos f) (rf_data f)), f\<lparr>rf_pos := rf_pos f + ?k\<rparr>)"
    using a assms(1) unfolding sys_read_def Let_def reads_ok_def by (simp add: not_less)
  ultimately show thesis by (rule that)
qed

lemma sys_read_eof:
  "reads_ok f \<Longrightarrow> length (rf_data f) \<le> rf_pos f \<Longrightarrow> sys_read f n = (0, [], f)"
  by (simp add: sys_read_def reads_ok_def not_less Let_def)

lemma read_all_ok:
  "reads_ok f \<Longrightarrow> rf_pos f + n \<le> length (rf_data f) \<Longrightarrow>
     read_all f n = (0, take n (drop (rf_pos f) (rf_data f)), f\<lparr>rf_pos := rf_pos f + n\<rparr>)"
proof (induction n arbitrary: f rule: less_induct)
  case (less n)
  show ?case
  proof (cases "n = 0")
    case True
    then show ?thesis by (simp add: read_all.simps)
  next
    case False
    then have n: "0 < n" "rf_pos f < length (rf_data f)" using less.prems by simp_all
    obtain k where k: "0 < k" "k \<le> n" "rf_pos f + k \<le> length (rf_data f)"
      "sys_read f n = (int k, take k (drop (rf_pos f) (rf_data f)), f\<lparr>rf_pos := rf_pos f + k\<rparr>)"
      by (rule sys_read_ok[OF less.prems(1) n])
    have "read_all (f\<lparr>rf_pos := rf_pos f + k\<rparr>) (n - k) =
        (0, take (n - k) (drop (rf_pos f + k) (rf_data f)), f\<lparr>rf_pos := rf_pos f + n\<rparr>)"
      using less.IH[of "n - k" "f\<lparr>rf_pos := rf_pos f + k\<rparr>"] k(1,2) less.prems False by simp
    moreover have "take k (drop (rf_pos f) (rf_data f)) @ take (n - k) (drop (rf_pos f + k) (rf_data f)) =
        take n (drop (rf_pos f) (rf_data f))"
      by (rule take_split[OF k(2)])
    ultimately show ?thesis using False k(1,4) by (simp add: read_all.simps[of f n])
  qed
qed

lemma read_all_eof:
  "reads_ok f \<Longrightarrow> 0 < n \<Longrightarrow> length (rf_data f) < rf_pos f + n \<Longrightarrow> fst (read_all f n) = - EINVAL"
proof (induction n arbitrary: f rule: less_induct)
  case (less n)
  show ?case
  proof (cases "rf_pos f < length (rf_data f)")
    case True
    have n: "0 < n" using less.prems by simp
    obtain k where k: "0 < k" "k \<le> n" "rf_pos f + k \<le> length (rf_data f)"
      "sys_read f n = (int k, take k (drop (rf_pos f) (rf_data f)), f\<lparr>rf_pos := rf_pos f + k\<rparr>)"
      by (rule sys_read_ok[OF less.prems(1) n True])
    have "fst (read_all (f\<lparr>rf_pos := rf_pos f + k\<rparr>) (n - k)) = - EINVAL"
      using less.IH[of "n - k" "f\<lparr>rf_pos := rf_pos f + k\<rparr>"] k(1,2,3) less.prems n by simp
    then show ?thesis using n k(1,4) by (simp add: read_all.simps[of f n] split_beta)
  next
    case False
    then show ?thesis using less.prems sys_read_eof[of f n] by (auto simp: read_all.simps[of f n])
  qed
qed

text \<open>The checksum loops do what one pass over all the bytes would do.\<close>

lemma sparse_crc32_Nil [simp]: "sparse_crc32 c [] = c"
  by (simp add: sparse_crc32_def)

lemma raw_crc_loop_ok:
  "reads_ok f \<Longrightarrow> rf_pos f + n \<le> length (rf_data f) \<Longrightarrow>
     raw_crc_loop f n c = (0, f\<lparr>rf_pos := rf_pos f + n\<rparr>, sparse_crc32 c (take n (drop (rf_pos f) (rf_data f))))"
proof (induction n arbitrary: f c rule: less_induct)
  case (less n)
  show ?case
  proof (cases "n = 0")
    case True
    then show ?thesis by (simp add: raw_crc_loop.simps)
  next
    case False
    let ?k = "min n COPY_BUF_SIZE"
    have k: "0 < ?k" "?k \<le> n" using False by (simp_all add: COPY_BUF_SIZE_def)
    have r: "read_all f ?k = (0, take ?k (drop (rf_pos f) (rf_data f)), f\<lparr>rf_pos := rf_pos f + ?k\<rparr>)"
      using less.prems k by (intro read_all_ok) simp_all
    have "take ?k (drop (rf_pos f) (rf_data f)) @ take (n - ?k) (drop (rf_pos f + ?k) (rf_data f)) =
        take n (drop (rf_pos f) (rf_data f))"
      by (rule take_split[OF k(2)])
    moreover have "raw_crc_loop (f\<lparr>rf_pos := rf_pos f + ?k\<rparr>) (n - ?k) c' =
        (0, f\<lparr>rf_pos := rf_pos f + n\<rparr>, sparse_crc32 c' (take (n - ?k) (drop (rf_pos f + ?k) (rf_data f))))" for c'
      using less.IH[of "n - ?k" "f\<lparr>rf_pos := rf_pos f + ?k\<rparr>" c'] k less.prems by simp
    ultimately show ?thesis
      using False r by (simp add: raw_crc_loop.simps[of f n c] Let_def sparse_crc32_append[symmetric])
  qed
qed

lemma word_bytes_add: "4 dvd n \<Longrightarrow> word_bytes v (n + m) = word_bytes v n @ word_bytes v m"
proof -
  assume "4 dvd n"
  then obtain k where "n = 4 * k" by blast
  then have "map (\<lambda>i. le32 v ! (i mod 4)) [n..<n + m] = map (\<lambda>i. le32 v ! (i mod 4)) [0..<m]"
    by (intro nth_equalityI) simp_all
  then show ?thesis using upt_add_eq_append[of 0 n m] by (simp add: word_bytes_def)
qed

lemma buffer_crc_loop_ok: "buffer_crc_loop v n c = sparse_crc32 c (word_bytes v n)"
proof (induction n arbitrary: c rule: less_induct)
  case (less n)
  show ?case
  proof (cases "n \<le> COPY_BUF_SIZE")
    case True
    then show ?thesis by (simp add: buffer_crc_loop.simps[of v n c] buffer_crc_loop.simps[of v 0] word_bytes_def Let_def)
  next
    case False
    let ?k = COPY_BUF_SIZE
    have "word_bytes v n = word_bytes v ?k @ word_bytes v (n - ?k)"
      using word_bytes_add[of ?k v "n - ?k"] False by (simp add: COPY_BUF_SIZE_def)
    then show ?thesis
      using False less.IH[of "n - ?k"]
      by (simp add: buffer_crc_loop.simps[of v n c] Let_def sparse_crc32_append COPY_BUF_SIZE_def)
  qed
qed

section \<open>Adding the next block\<close>

lemma covered_end:
  assumes ok: "blocks_ok n l" and n: "0 < n" and b: "b \<in> set l"
    and dom: "\<forall>x. image_of n l x \<noteq> None \<longrightarrow> x < cur * n"
  shows "bb_end n b \<le> cur" "unat (bb_len b) \<le> cur * n" "unat (bb_block b) < cur"
proof -
  let ?x = "bb_start n b + unat (bb_len b) - 1"
  have len: "0 < unat (bb_len b)" using ok b by (simp add: blocks_ok_def unat_gt_0 word_gt_0)
  have "bb_image n b ?x = Some (content_at (bb_cont b) (?x - bb_start n b))"
    using len by (simp add: bb_image_def)
  then have "image_of n l ?x = Some (content_at (bb_cont b) (?x - bb_start n b))"
    using ok n b by (subst image_of_iff) (auto simp: blocks_ok_def)
  then have "image_of n l ?x \<noteq> None" by simp
  then have x: "?x < cur * n" by (rule dom[rule_format])
  then show "unat (bb_len b) \<le> cur * n" using len by linarith
  have "unat (bb_block b) * n \<le> ?x" using len by (simp add: bb_start_def)
  then have "unat (bb_block b) * n < cur * n" using x by (rule le_less_trans)
  then show "unat (bb_block b) < cur" by simp
  have "unat (bb_len b) + n - 1 = (unat (bb_len b) - 1) + n" using len n by simp
  then have "(unat (bb_len b) + n - 1) div n = (unat (bb_len b) - 1) div n + 1"
    using n by (simp only: div_add_self2)
  moreover have "?x div n = unat (bb_block b) + (unat (bb_len b) - 1) div n"
  proof -
    have "?x = (unat (bb_len b) - 1) + unat (bb_block b) * n" using len by (simp add: bb_start_def)
    then show ?thesis using n by simp
  qed
  moreover have "?x div n < cur" using x n by (simp add: div_less_iff_less_mult)
  ultimately show "bb_end n b \<le> cur" by (simp add: bb_end_def)
qed

lemma queue_at_end:
  assumes up: "read_upto s (unat block)" and len: "0 < len"
    and fits: "unat block * unat (sf_block_size s) + unat len < 2 ^ 32"
    and p: "p \<noteq> 0" "p \<notin> bb_addr ` set (data_blocks (backed_blocks s))"
      "last_used (backed_blocks s) = 0 \<or> last_used (backed_blocks s) \<in> bb_addr ` set (data_blocks (backed_blocks s)) \<or>
       last_used (backed_blocks s) = p"
    and cont: "content_type c \<noteq> BACKED_BLOCK_FILE"
  shows "\<exists>s'. with_list s (queue_bb (backed_blocks s) \<lparr>bb_addr = p, bb_block = block, bb_len = len, bb_cont = c\<rparr>) = Inr (0, s') \<and>
     sf_block_size s' = sf_block_size s \<and> sf_len s' = sf_len s \<and>
     read_upto s' (unat block + blocks_for (unat (sf_block_size s)) (unat len)) \<and>
     list_image s' = add_image (bb_image (unat (sf_block_size s)) \<lparr>bb_addr = p, bb_block = block, bb_len = len, bb_cont = c\<rparr>)
                       (list_image s)"
proof -
  let ?new = "\<lparr>bb_addr = p, bb_block = block, bb_len = len, bb_cont = c\<rparr>"
  let ?n = "unat (sf_block_size s)" and ?l = "data_blocks (backed_blocks s)"
  have ok: "bbl_ok (backed_blocks s)" "bbl_block_size (backed_blocks s) = sf_block_size s"
    and dom: "\<forall>x. list_image s x \<noteq> None \<longrightarrow> x < unat block * ?n"
    using up by (simp_all add: read_upto_def)
  have bok: "blocks_ok ?n ?l" and n: "0 < ?n" using ok by (simp_all add: bbl_ok_def unat_gt_0 word_gt_0)
  note cov = covered_end[OF bok n _ dom]
  have nofile: "names_agree b ?new" "names_agree ?new b" for b
    using cont by (cases c; cases "bb_cont b"; simp add: names_agree_def)+
  have "can_queue (backed_blocks s) ?new"
    unfolding can_queue_def ok(2)
  proof (intro conjI ballI impI)
    fix b assume b: "b \<in> set ?l"
    show "before ?n b ?new \<or> before ?n ?new b" using cov(1)[OF b] by (simp add: before_def)
    show "unat (bb_len b) + unat (bb_len ?new) < 2 ^ 32" using cov(2)[OF b] fits by simp
    fix d assume "d \<in> set ?l" "before ?n ?new d"
    then show "unat (bb_len b) + unat (bb_len ?new) + unat (bb_len d) < 2 ^ 32"
      using cov(3)[of d] bb_end_gt[of ?new ?n] len n by (simp add: before_def)
  qed (use len p nofile in simp_all)
  moreover have "cursor_ok (backed_blocks s) ?new" using p(3) by (simp add: cursor_ok_def)
  ultimately obtain l' where q: "queue_bb (backed_blocks s) ?new = Inr (0, l')" "bbl_ok l'" "bbl_block_size l' = sf_block_size s"
    "image_of ?n (data_blocks l') = add_image (bb_image ?n ?new) (list_image s)"
    using queue_bb_sound[OF ok(1)] ok(2) by auto
  have "x < (unat block + blocks_for ?n (unat len)) * ?n" if "add_image (bb_image ?n ?new) (list_image s) x \<noteq> None" for x
  proof (cases "bb_image ?n ?new x")
    case None
    then have "x < unat block * ?n" using that dom by (simp add: add_image_def)
    then show ?thesis by (simp add: algebra_simps)
  next
    case (Some v)
    then have "x < unat block * ?n + unat len" by (simp add: bb_image_def bb_start_def split: if_splits)
    then show ?thesis using blocks_for_bounds(1)[OF n, of "unat len"] by (simp add: algebra_simps)
  qed
  then show ?thesis using q ok(2) by (simp add: with_list_def read_upto_def)
qed

section \<open>What an image stands for\<close>

section \<open>Reading a chunk\<close>

lemma prefix_at:
  assumes "drop p D = a @ b"
  shows "take (length a) (drop p D) = a" "p + length a \<le> length D \<or> a = []" "drop (p + length a) D = b"
    "\<And>i. i < length a \<Longrightarrow> p + i < length D \<and> D ! (p + i) = a ! i"
proof -
  show "take (length a) (drop p D) = a" by (simp add: assms)
  have len: "length D - p = length a + length b" using arg_cong[OF assms, of length] by simp
  then show "p + length a \<le> length D \<or> a = []" by (cases a) auto
  have "drop (length a) (drop p D) = b" by (simp add: assms)
  then show "drop (p + length a) D = b" by (simp add: add.commute)
  fix i assume i: "i < length a"
  then have "p + i < length D" using len by simp
  moreover have "drop p D ! i = a ! i" unfolding assms using i by (simp add: nth_append)
  ultimately show "p + i < length D \<and> D ! (p + i) = a ! i" by simp
qed

lemma read_prefix:
  assumes "reads_ok f" "drop (rf_pos f) (rf_data f) = a @ b"
  shows "read_all f (length a) = (0, a, f\<lparr>rf_pos := rf_pos f + length a\<rparr>)"
proof (cases "a = []")
  case True
  then show ?thesis by (simp add: read_all.simps)
next
  case False
  then show ?thesis using read_all_ok[OF assms(1), of "length a"] prefix_at(1,2)[OF assms(2)] by simp
qed

lemma chunk_bytes_split: "chunk_bytes bs c = chunk_header_bytes (chunk_hdr bs c) @ chunk_payload c"
  by (cases c) (simp_all add: chunk_bytes.simps chunk_hdr_def chunk_payload_def)

lemma chunk_hdr_sel [simp]:
  "ch_chunk_sz (chunk_hdr bs c) = word_of_nat (chunk_blocks bs c)"
  "ch_total_sz (chunk_hdr bs c) - word_of_nat CHUNK_HEADER_LEN = word_of_nat (length (chunk_payload c))"
  by (cases c; simp add: chunk_hdr_def chunk_payload_def)+

lemma read_upto_bs: "read_upto s cur \<Longrightarrow> 4 \<le> unat (sf_block_size s)"
  by (auto simp: read_upto_def bbl_ok_def unat_gt_0 word_gt_0 intro!: dvd_imp_le)

lemma add_read:
  assumes up: "read_upto s cur" and al: "reusing_alloc alloc"
    and k: "0 < k" "(cur + k) * unat (sf_block_size s) < 2 ^ 32" and c: "content_type c \<noteq> BACKED_BLOCK_FILE"
    and blocks: "chunk_blocks (unat (sf_block_size s)) ch = k"
    and val: "\<And>i. i < k * unat (sf_block_size s) \<Longrightarrow> chunk_byte ch i = Some (src_value E (content_at c i))"
  shows "\<exists>p s'. alloc (backed_blocks s) = Some p \<and>
     with_list s (queue_bb (backed_blocks s)
       \<lparr>bb_addr = p, bb_block = word_of_nat cur, bb_len = word_of_nat (k * unat (sf_block_size s)), bb_cont = c\<rparr>) = Inr (0, s') \<and>
     chunk_read E s cur ch s'"
proof -
  let ?n = "unat (sf_block_size s)"
  have n: "4 \<le> ?n" by (rule read_upto_bs[OF up])
  have "cur + k \<le> (cur + k) * ?n" using mult_le_mono2[of 1 ?n "cur + k"] n by simp
  then have "cur + k < 2 ^ 32" using k(2) by (rule le_less_trans)
  then have cur: "unat (word_of_nat cur :: u32) = cur" by (intro unat_of_nat_u32) simp
  have kn: "cur * ?n + k * ?n < 2 ^ 32" using k(2) by (simp only: add_mult_distrib)
  then have len: "unat (word_of_nat (k * ?n) :: u32) = k * ?n" by (intro unat_of_nat_u32) linarith
  have len0: "0 < (word_of_nat (k * ?n) :: u32)" using len k(1) n by (simp add: word_less_nat_alt)
  obtain p where p: "alloc (backed_blocks s) = Some p" "p \<noteq> 0" "p \<notin> bb_addr ` set (data_blocks (backed_blocks s))"
    "last_used (backed_blocks s) = 0 \<or> last_used (backed_blocks s) \<in> bb_addr ` set (data_blocks (backed_blocks s)) \<or>
     last_used (backed_blocks s) = p"
    using al unfolding reusing_alloc_def by metis
  let ?new = "\<lparr>bb_addr = p, bb_block = word_of_nat cur, bb_len = word_of_nat (k * ?n), bb_cont = c\<rparr>"
  have up': "read_upto s (unat (word_of_nat cur :: u32))" unfolding cur by (rule up)
  have fits: "unat (word_of_nat cur :: u32) * ?n + unat (word_of_nat (k * ?n) :: u32) < 2 ^ 32" unfolding cur len by (rule kn)
  obtain s' where s': "with_list s (queue_bb (backed_blocks s) ?new) = Inr (0, s')" "sf_block_size s' = sf_block_size s"
    "sf_len s' = sf_len s" "read_upto s' (unat (word_of_nat cur :: u32) + blocks_for ?n (unat (word_of_nat (k * ?n) :: u32)))"
    "list_image s' = add_image (bb_image ?n ?new) (list_image s)"
    using queue_at_end[OF up' len0 fits p(2,3,4) c] by (elim exE conjE) (rule that)
  have bf: "blocks_for ?n (k * ?n) = k" using ceil_div_dvd[of ?n "k * ?n"] n by (simp add: blocks_for_def)
  have bi: "bb_image ?n ?new x = (if cur * ?n \<le> x \<and> x < (cur + k) * ?n then Some (content_at c (x - cur * ?n)) else None)" for x
    unfolding bb_image_def bb_start_def backed_block.simps cur len add_mult_distrib ..
  have "image_value E s' x = (if cur * ?n \<le> x \<and> x < (cur + k) * ?n then chunk_byte ch (x - cur * ?n) else image_value E s x)" for x
  proof (cases "cur * ?n \<le> x \<and> x < (cur + k) * ?n")
    case True
    then have "x - cur * ?n < k * ?n" unfolding add_mult_distrib by linarith
    then show ?thesis using val[of "x - cur * ?n"] unfolding image_value_def s'(5) add_image_def bi if_P[OF True] by simp
  next
    case False
    show ?thesis unfolding image_value_def s'(5) add_image_def bi if_not_P[OF False] by simp
  qed
  then have "chunk_read E s cur ch s'"
    using s'(2-4) unfolding chunk_read_def blocks cur len bf by simp
  with p(1) s'(1) show ?thesis by blast
qed

lemma skip_read:
  assumes "read_upto s cur"
  shows "chunk_read E s cur (Skip n) s"
proof -
  have "image_value E s x = None" if "cur * unat (sf_block_size s) \<le> x" for x
    using assms that by (auto simp: read_upto_def image_value_def not_le[symmetric])
  moreover have "read_upto s (cur + n)"
    using assms by (auto simp: read_upto_def add_mult_distrib intro: trans_less_add1)
  ultimately show ?thesis by (auto simp: chunk_read_def)
qed

lemma raw_step:
  assumes up: "read_upto s cur" and al: "reusing_alloc alloc" and f: "reads_ok f" "drop (rf_pos f) (rf_data f) = d @ rest"
    and E: "env_fd E fd = Some (rf_data f)"
    and d: "chunk_ok (unat (sf_block_size s)) (Raw d)"
    and fits: "(cur + length d div unat (sf_block_size s)) * unat (sf_block_size s) < 2 ^ 32"
  shows "\<exists>s'. process_raw_chunk alloc s (word_of_nat (length d)) f fd (int (rf_pos f))
       (word_of_nat (length d div unat (sf_block_size s))) (word_of_nat cur) crc =
       Inr (0, s', f\<lparr>rf_pos := rf_pos f + length d\<rparr>, map_option (\<lambda>c. sparse_crc32 c d) crc) \<and>
     chunk_read E s cur (Raw d) s'"
proof -
  let ?w = "sf_block_size s" let ?n = "unat ?w" let ?k = "length d div ?n"
  have n: "4 \<le> ?n" by (rule read_upto_bs[OF up])
  have w: "?w \<noteq> 0" using n by auto
  have kd: "?k * ?n = length d" using d by simp
  have k0: "0 < ?k" using d n kd by (metis chunk_ok.simps(1) gr0I length_0_conv mult_0)
  have ld: "length d < 2 ^ 32" using fits kd by (simp add: add_mult_distrib)
  have kl: "?k < 2 ^ 32" using ld by (meson div_le_dividend le_less_trans)
  have u: "unat (word_of_nat (length d) :: u32) = length d" "unat (word_of_nat ?k :: u32) = ?k"
    using ld kl by (simp_all add: unat_of_nat_u32)
  have "unat (word_of_nat (length d) mod ?w) = 0"
    using d unfolding unat_mod_distrib u(1) by (simp add: dvd_imp_mod_0)
  then have m: "word_of_nat (length d) mod ?w = 0" by (simp only: unat_eq_0)
  have q: "word_of_nat (length d) div ?w = word_of_nat ?k"
    by (rule word_div_of_nat) (simp only: u(1))
  have len: "word_of_nat ?k * ?w = word_of_nat (length d)"
    using kd by (metis of_nat_mult of_nat_unat ucast_id)
  have val: "chunk_byte (Raw d) i = Some (src_value E (content_at (BB_Fd fd (int (rf_pos f))) i))" if "i < ?k * ?n" for i
    using prefix_at(4)[OF f(2), of i] that kd E by (simp add: fd_byte_def nat_add_distrib)
  obtain p s' where a: "alloc (backed_blocks s) = Some p"
     "with_list s (queue_bb (backed_blocks s)
       \<lparr>bb_addr = p, bb_block = word_of_nat cur, bb_len = word_of_nat (?k * ?n), bb_cont = BB_Fd fd (int (rf_pos f))\<rparr>) = Inr (0, s')"
     "chunk_read E s cur (Raw d) s'"
    using add_read[OF up al k0 fits, of "BB_Fd fd (int (rf_pos f))" "Raw d" E] val by auto
  have add: "sparse_file_add_fd (alloc (backed_blocks s)) s fd (int (rf_pos f)) (word_of_nat (length d)) (word_of_nat cur) = Inr (0, s')"
    using a(1,2) unfolding kd by (simp add: sparse_file_add_fd_def backed_block_add_fd_def)
  have loop: "raw_crc_loop f (length d) c = (0, f\<lparr>rf_pos := rf_pos f + length d\<rparr>, sparse_crc32 c d)" for c
    using raw_crc_loop_ok[OF f(1), of "length d" c] prefix_at(1,2)[OF f(2)] d by simp
  have "process_raw_chunk alloc s (word_of_nat (length d)) f fd (int (rf_pos f)) (word_of_nat ?k) (word_of_nat cur) crc =
       Inr (0, s', f\<lparr>rf_pos := rf_pos f + length d\<rparr>, map_option (\<lambda>c. sparse_crc32 c d) crc)"
    unfolding process_raw_chunk_def Let_def m q len using add w loop u(1)
    by (cases crc) (simp_all add: skip_bytes_def)
  with a(3) show ?thesis by blast
qed

lemma buffer_crc_loop_fun: "buffer_crc_loop v n = (\<lambda>c. sparse_crc32 c (word_bytes v n))"
  by (rule ext) (rule buffer_crc_loop_ok)

lemma fill_step:
  assumes up: "read_upto s cur" and al: "reusing_alloc alloc" and f: "reads_ok f" "drop (rf_pos f) (rf_data f) = le32 v @ rest"
    and k: "0 < k" "(cur + k) * unat (sf_block_size s) < 2 ^ 32"
  shows "\<exists>s'. process_fill_chunk alloc s 4 f (word_of_nat k) (word_of_nat cur) crc =
       Inr (0, s', f\<lparr>rf_pos := rf_pos f + 4\<rparr>,
            map_option (\<lambda>c. sparse_crc32 c (word_bytes v (k * unat (sf_block_size s)))) crc) \<and>
     chunk_read E s cur (Fill v k) s'"
proof -
  let ?n = "unat (sf_block_size s)"
  have n: "4 \<le> ?n" by (rule read_upto_bs[OF up])
  have "cur + k \<le> (cur + k) * ?n" using mult_le_mono2[of 1 ?n "cur + k"] n by simp
  then have "cur + k < 2 ^ 32" using k(2) by (rule le_less_trans)
  then have uk: "unat (word_of_nat k :: u32) = k" by (intro unat_of_nat_u32) simp
  have rd: "read_all f 4 = (0, le32 v, f\<lparr>rf_pos := rf_pos f + 4\<rparr>)" using read_prefix[OF f] by simp
  obtain p s' where a: "alloc (backed_blocks s) = Some p"
     "with_list s (queue_bb (backed_blocks s)
       \<lparr>bb_addr = p, bb_block = word_of_nat cur, bb_len = word_of_nat (k * ?n), bb_cont = BB_Fill v\<rparr>) = Inr (0, s')"
     "chunk_read E s cur (Fill v k) s'"
    using add_read[OF up al k, of "BB_Fill v" "Fill v k" E] by auto
  have add: "sparse_file_add_fill (alloc (backed_blocks s)) s v (word_of_nat (k * ?n)) (word_of_nat cur) = Inr (0, s')"
    using a(1,2) by (simp add: sparse_file_add_fill_def backed_block_add_fill_def)
  have "process_fill_chunk alloc s 4 f (word_of_nat k) (word_of_nat cur) crc =
       Inr (0, s', f\<lparr>rf_pos := rf_pos f + 4\<rparr>, map_option (\<lambda>c. sparse_crc32 c (word_bytes v (k * ?n))) crc)"
    unfolding process_fill_chunk_def Let_def uk rd using add by (simp add: buffer_crc_loop_fun)
  with a(3) show ?thesis by blast
qed

lemma chunk_type_neq [simp]:
  "CHUNK_TYPE_FILL \<noteq> CHUNK_TYPE_RAW" "CHUNK_TYPE_DONT_CARE \<noteq> CHUNK_TYPE_RAW" "CHUNK_TYPE_DONT_CARE \<noteq> CHUNK_TYPE_FILL"
  "CHUNK_TYPE_CRC32 \<noteq> CHUNK_TYPE_RAW" "CHUNK_TYPE_CRC32 \<noteq> CHUNK_TYPE_FILL" "CHUNK_TYPE_CRC32 \<noteq> CHUNK_TYPE_DONT_CARE"
  by (simp_all add: CHUNK_TYPE_RAW_def CHUNK_TYPE_FILL_def CHUNK_TYPE_DONT_CARE_def CHUNK_TYPE_CRC32_def)

text \<open>The handler of a chunk, on any chunk the writer writes.\<close>

lemma process_chunk_ok:
  assumes up: "read_upto s cur" and al: "reusing_alloc alloc" and f: "reads_ok f" "drop (rf_pos f) (rf_data f) = chunk_payload c @ rest"
    and E: "env_fd E fd = Some (rf_data f)" and c: "chunk_ok (unat (sf_block_size s)) c"
    and fits: "(cur + chunk_blocks (unat (sf_block_size s)) c) * unat (sf_block_size s) < 2 ^ 32"
  shows "\<exists>s'. process_chunk alloc s f fd (int (rf_pos f)) (word_of_nat CHUNK_HEADER_LEN) (chunk_hdr (unat (sf_block_size s)) c)
         (word_of_nat cur) crc =
       Inr (int (chunk_blocks (unat (sf_block_size s)) c), s', f\<lparr>rf_pos := rf_pos f + length (chunk_payload c)\<rparr>,
            map_option (\<lambda>k. reader_crc (unat (sf_block_size s)) k c) crc) \<and>
     chunk_read E s cur c s'"
proof -
  let ?n = "unat (sf_block_size s)" let ?k = "chunk_blocks ?n c"
  have n: "4 \<le> ?n" by (rule read_upto_bs[OF up])
  have "?k * 4 \<le> ?k * ?n" using n by simp
  also have "\<dots> \<le> (cur + ?k) * ?n" by simp
  finally have k31: "?k < 2 ^ 31" using fits by simp
  then have si: "sint (word_of_nat ?k :: u32) = int ?k" by (rule sint_of_nat_u32)
  have uk: "unat (word_of_nat ?k :: u32) = ?k" using k31 by (intro unat_of_nat_u32) simp
  show ?thesis
  proof (cases c)
    case (Raw d)
    have pl: "drop (rf_pos f) (rf_data f) = d @ rest" using f(2) Raw by (simp add: chunk_payload_def)
    obtain s' where "process_raw_chunk alloc s (word_of_nat (length d)) f fd (int (rf_pos f))
       (word_of_nat (length d div ?n)) (word_of_nat cur) crc =
       Inr (0, s', f\<lparr>rf_pos := rf_pos f + length d\<rparr>, map_option (\<lambda>c. sparse_crc32 c d) crc)" "chunk_read E s cur (Raw d) s'"
      using raw_step[OF up al f(1) pl E, of crc] c fits Raw by auto
    then show ?thesis using Raw si
      by (simp add: process_chunk_def Let_def chunk_hdr_def chunk_payload_def)
  next
    case (Fill v m)
    have pl: "drop (rf_pos f) (rf_data f) = le32 v @ rest" using f(2) Fill by (simp add: chunk_payload_def)
    obtain s' where "process_fill_chunk alloc s 4 f (word_of_nat m) (word_of_nat cur) crc =
       Inr (0, s', f\<lparr>rf_pos := rf_pos f + 4\<rparr>, map_option (\<lambda>c. sparse_crc32 c (word_bytes v (m * ?n))) crc)"
      "chunk_read E s cur (Fill v m) s'"
      using fill_step[OF up al f(1) pl, of m crc E] c fits Fill by auto
    then show ?thesis using Fill si
      by (simp add: process_chunk_def Let_def chunk_hdr_def chunk_payload_def)
  next
    case (Skip m)
    then show ?thesis using si uk skip_read[OF up, of E m]
      by (simp add: process_chunk_def Let_def chunk_hdr_def chunk_payload_def process_skip_chunk_def buffer_crc_loop_fun)
  qed
qed

lemma hdr16_nat: "unat hdr16 = CHUNK_HEADER_LEN" "(ucast hdr16 :: u32) = word_of_nat CHUNK_HEADER_LEN"
  by (simp_all add: CHUNK_HEADER_LEN_def)

lemma read_chunk_step:
  assumes up: "read_upto s cur" and al: "reusing_alloc alloc" and f: "reads_ok f"
    "drop (rf_pos f) (rf_data f) = chunk_bytes (unat (sf_block_size s)) c @ rest"
    and E: "env_fd E fd = Some (rf_data f)" and c: "chunk_ok (unat (sf_block_size s)) c"
    and fits: "(cur + chunk_blocks (unat (sf_block_size s)) c) * unat (sf_block_size s) < 2 ^ 32"
  shows "\<exists>s'. read_chunks alloc fd hdr16 (Suc m) s f (word_of_nat cur) crc =
      read_chunks alloc fd hdr16 m s' (f\<lparr>rf_pos := rf_pos f + length (chunk_bytes (unat (sf_block_size s)) c)\<rparr>)
        (word_of_nat (cur + chunk_blocks (unat (sf_block_size s)) c))
        (map_option (\<lambda>k. reader_crc (unat (sf_block_size s)) k c) crc) \<and>
     chunk_read E s cur c s'"
proof -
  let ?n = "unat (sf_block_size s)" let ?h = "chunk_hdr ?n c"
  let ?f = "f\<lparr>rf_pos := rf_pos f + CHUNK_HEADER_LEN\<rparr>"
  have dr: "drop (rf_pos f) (rf_data f) = chunk_header_bytes ?h @ (chunk_payload c @ rest)"
    using f(2) by (simp add: chunk_bytes_split)
  have rd: "read_all f CHUNK_HEADER_LEN = (0, chunk_header_bytes ?h, ?f)" using read_prefix[OF f(1) dr] by simp
  have pl: "drop (rf_pos ?f) (rf_data ?f) = chunk_payload c @ rest" using prefix_at(3)[OF dr] by simp
  obtain s' where p: "process_chunk alloc s ?f fd (int (rf_pos ?f)) (word_of_nat CHUNK_HEADER_LEN) ?h (word_of_nat cur) crc =
       Inr (int (chunk_blocks ?n c), s', ?f\<lparr>rf_pos := rf_pos ?f + length (chunk_payload c)\<rparr>,
            map_option (\<lambda>k. reader_crc ?n k c) crc)" "chunk_read E s cur c s'"
    using process_chunk_ok[OF up al _ pl _ c fits, of E fd crc] f(1) E by auto
  have "length (chunk_bytes ?n c) = CHUNK_HEADER_LEN + length (chunk_payload c)"
    by (simp add: chunk_bytes_split)
  then have "read_chunks alloc fd hdr16 (Suc m) s f (word_of_nat cur) crc =
      read_chunks alloc fd hdr16 m s' (f\<lparr>rf_pos := rf_pos f + length (chunk_bytes ?n c)\<rparr>)
        (word_of_nat (cur + chunk_blocks ?n c)) (map_option (\<lambda>k. reader_crc ?n k c) crc)"
    using p(1) by (simp add: rd hdr16_nat Let_def add.assoc)
  with p(2) show ?thesis by blast
qed

lemma read_chunks_ok:
  assumes "read_upto s cur" "reusing_alloc alloc" "reads_ok f"
    "drop (rf_pos f) (rf_data f) = concat (map (chunk_bytes (unat (sf_block_size s))) cs) @ rest"
    "env_fd E fd = Some (rf_data f)" "\<forall>c \<in> set cs. chunk_ok (unat (sf_block_size s)) c"
    "(cur + total_blocks (unat (sf_block_size s)) cs) * unat (sf_block_size s) < 2 ^ 32"
  shows "\<exists>s'. read_chunks alloc fd hdr16 (length cs + m) s f (word_of_nat cur) crc =
      read_chunks alloc fd hdr16 m s'
        (f\<lparr>rf_pos := rf_pos f + length (concat (map (chunk_bytes (unat (sf_block_size s))) cs))\<rparr>)
        (word_of_nat (cur + total_blocks (unat (sf_block_size s)) cs))
        (map_option (\<lambda>k. foldl (reader_crc (unat (sf_block_size s))) k cs) crc) \<and>
     sf_block_size s' = sf_block_size s \<and> sf_len s' = sf_len s \<and>
     read_upto s' (cur + total_blocks (unat (sf_block_size s)) cs) \<and>
     (\<forall>x. image_value E s' x = (if x < cur * unat (sf_block_size s) then image_value E s x
                                else layout (unat (sf_block_size s)) cs (x - cur * unat (sf_block_size s))))"
  using assms
proof (induction cs arbitrary: s f cur crc)
  case Nil
  have "image_value E s x = None" if "\<not> x < cur * unat (sf_block_size s)" for x
    using Nil.prems(1) that by (auto simp: read_upto_def image_value_def)
  then show ?case using Nil.prems(1) by (intro exI[of _ s]) (simp add: total_blocks_def option.map_ident)
next
  case (Cons c cs)
  let ?n = "unat (sf_block_size s)" let ?b = "chunk_blocks ?n c"
  have dr: "drop (rf_pos f) (rf_data f) = chunk_bytes ?n c @ (concat (map (chunk_bytes ?n) cs) @ rest)"
    using Cons.prems(4) by simp
  have tb: "cur + total_blocks ?n (c # cs) = cur + ?b + total_blocks ?n cs" by (simp add: total_blocks_def)
  have "(cur + ?b) * ?n \<le> (cur + total_blocks ?n (c # cs)) * ?n" unfolding tb by (intro mult_le_mono1) simp
  then have fits: "(cur + ?b) * ?n < 2 ^ 32" using Cons.prems(7) by (rule le_less_trans)
  have cok: "chunk_ok ?n c" using Cons.prems(6) by simp
  let ?f = "f\<lparr>rf_pos := rf_pos f + length (chunk_bytes ?n c)\<rparr>"
  obtain s1 where s1: "read_chunks alloc fd hdr16 (Suc (length cs + m)) s f (word_of_nat cur) crc =
      read_chunks alloc fd hdr16 (length cs + m) s1 ?f (word_of_nat (cur + ?b)) (map_option (\<lambda>k. reader_crc ?n k c) crc)"
     "chunk_read E s cur c s1"
    using read_chunk_step[OF Cons.prems(1,2,3) dr Cons.prems(5) cok fits] by metis
  have sz: "sf_block_size s1 = sf_block_size s" "sf_len s1 = sf_len s" and up1: "read_upto s1 (cur + ?b)"
    and v1: "\<And>x. image_value E s1 x = (if cur * ?n \<le> x \<and> x < (cur + ?b) * ?n then chunk_byte c (x - cur * ?n) else image_value E s x)"
    using s1(2) by (simp_all add: chunk_read_def)
  have dr1: "drop (rf_pos ?f) (rf_data ?f) = concat (map (chunk_bytes (unat (sf_block_size s1))) cs) @ rest"
    using prefix_at(3)[OF dr] sz by simp
  have fits1: "(cur + ?b + total_blocks (unat (sf_block_size s1)) cs) * unat (sf_block_size s1) < 2 ^ 32"
    using Cons.prems(7) unfolding tb sz .
  obtain s2 where s2: "read_chunks alloc fd hdr16 (length cs + m) s1 ?f (word_of_nat (cur + ?b)) (map_option (\<lambda>k. reader_crc ?n k c) crc) =
      read_chunks alloc fd hdr16 m s2 (?f\<lparr>rf_pos := rf_pos ?f + length (concat (map (chunk_bytes ?n) cs))\<rparr>)
        (word_of_nat (cur + ?b + total_blocks ?n cs))
        (map_option (\<lambda>k. foldl (reader_crc ?n) k cs) (map_option (\<lambda>k. reader_crc ?n k c) crc))"
     "sf_block_size s2 = sf_block_size s" "sf_len s2 = sf_len s" "read_upto s2 (cur + ?b + total_blocks ?n cs)"
     "\<And>x. image_value E s2 x = (if x < (cur + ?b) * ?n then image_value E s1 x else layout ?n cs (x - (cur + ?b) * ?n))"
    using Cons.IH[OF up1 Cons.prems(2) _ dr1 _ _ fits1, of "map_option (\<lambda>k. reader_crc ?n k c) crc"] Cons.prems(3,5,6) sz by auto
  have "image_value E s2 x = (if x < cur * ?n then image_value E s x else layout ?n (c # cs) (x - cur * ?n))" for x
  proof (cases "x < cur * ?n")
    case True
    then have "x < (cur + ?b) * ?n" by (simp add: add_mult_distrib)
    with True show ?thesis using s2(5)[of x] v1[of x] by simp
  next
    case False
    have "x < (cur + ?b) * ?n \<longleftrightarrow> x - cur * ?n < ?b * ?n" using False unfolding add_mult_distrib by linarith
    moreover have "x - (cur + ?b) * ?n = x - cur * ?n - ?b * ?n" by (simp add: add_mult_distrib)
    ultimately show ?thesis using False s2(5)[of x] v1[of x] by (simp add: not_less)
  qed
  then show ?case using s1(1) s2(1-4) unfolding tb
    by (intro exI[of _ s2]) (simp add: option.map_comp comp_def add.assoc)
qed

text \<open>The chunk of a node has its bytes.\<close>

lemma pad_block_facts:
  assumes "0 < n"
  shows "length (pad_block n d) = n * blocks_for n (length d)" "i < length d \<Longrightarrow> pad_block n d ! i = d ! i"
  using blocks_for_bounds[OF assms, of "length d"] by (simp_all add: pad_block_def nth_append)

lemma block_data_bytes:
  assumes "block_data E b = Some d"
  shows "length d = unat (bb_len b)"
    and "i < unat (bb_len b) \<Longrightarrow> d ! i = src_value E (content_at (bb_cont b) i)"
proof -
  have fd: "length d = unat (bb_len b) \<and> (i < unat (bb_len b) \<longrightarrow> d ! i = fd_byte E fd (off + int i))"
    if "fd_data E fd off (unat (bb_len b)) = Some d" for fd off
    using that by (auto simp: fd_data_def fd_byte_def file_bytes_def nat_add_distrib split: option.splits if_splits)
  show "length d = unat (bb_len b)" and "i < unat (bb_len b) \<Longrightarrow> d ! i = src_value E (content_at (bb_cont b) i)"
    using assms fd by (cases "bb_cont b"; auto simp: block_data_def split: if_splits)+
qed

lemma block_chunk_facts:
  assumes c: "block_chunk E n b = Some c" and sm: "small_block n b" and n: "0 < n"
  shows "chunk_blocks n c = blocks_for n (unat (bb_len b))" "chunk_ok n c"
    and "i < unat (bb_len b) \<Longrightarrow> chunk_byte c i = Some (src_value E (content_at (bb_cont b) i))"
proof -
  have len: "0 < unat (bb_len b)" using sm by (simp add: small_block_def unat_gt_0 word_gt_0)
  have bf: "0 < blocks_for n (unat (bb_len b))" using ceil_div_pos[OF len n] by (simp add: blocks_for_def)
  have "chunk_blocks n c = blocks_for n (unat (bb_len b)) \<and> chunk_ok n c \<and>
      (i < unat (bb_len b) \<longrightarrow> chunk_byte c i = Some (src_value E (content_at (bb_cont b) i)))"
  proof (cases "\<exists>v. bb_cont b = BB_Fill v")
    case True
    then show ?thesis using c bf by (auto simp: block_chunk_def)
  next
    case False
    then obtain d where d: "block_data E b = Some d" "c = Raw (pad_block n d)"
      using c by (cases "bb_cont b") (auto simp: block_chunk_def)
    have "pad_block n d \<noteq> []" using pad_block_facts(1)[OF n, of d] block_data_bytes(1)[OF d(1)] bf n by auto
    then show ?thesis
      using block_data_bytes[OF d(1)] pad_block_facts[OF n, where d = d] n d(2) by simp
  qed
  then show "chunk_blocks n c = blocks_for n (unat (bb_len b))" "chunk_ok n c"
    "i < unat (bb_len b) \<Longrightarrow> chunk_byte c i = Some (src_value E (content_at (bb_cont b) i))" by simp_all
qed

text \<open>The layout of the chunks of an image agrees with the image.\<close>

lemma layout_skip_first:
  "layout n ((if k < m then [Skip (m - k)] else []) @ cs) x =
     (if k < m \<and> x < (m - k) * n then None else layout n cs (x - (m - k) * n))"
  by simp

lemma chunks_from_facts:
  assumes "in_order n nblk k l" "chunks_from E n nblk k l = Some cs" "0 < n"
  shows "(\<forall>c \<in> set cs. chunk_ok n c) \<and> k + total_blocks n cs = nblk"
  using assms
proof (induction l arbitrary: k cs)
  case Nil
  then show ?case by (auto simp: total_blocks_def in_order_def)
next
  case (Cons b l)
  note io = in_order_Cons[OF Cons.prems(1)]
  obtain c cs' where c: "block_chunk E n b = Some c" "chunks_from E n nblk (bb_end n b) l = Some cs'"
    "cs = (if k < unat (bb_block b) then [Skip (unat (bb_block b) - k)] else []) @ c # cs'"
    by (rule chunks_from_ConsE[OF Cons.prems(2)])
  have "(\<forall>c \<in> set cs'. chunk_ok n c) \<and> bb_end n b + total_blocks n cs' = nblk"
    using Cons.IH[OF io(1) c(2) Cons.prems(3)] .
  then show ?case using block_chunk_facts(1,2)[OF c(1) io(2) Cons.prems(3)] c(3) io(4)
    by (auto simp: total_blocks_def blocks_for_end)
qed

lemma chunks_layout:
  assumes "in_order n nblk k l" "chunks_from E n nblk k l = Some cs" "0 < n" "k * n \<le> x"
  shows "(\<forall>src. image_of n l x = Some src \<longrightarrow> layout n cs (x - k * n) = Some (src_value E src)) \<and>
     ((\<forall>b \<in> set l. x < unat (bb_block b) * n \<or> bb_end n b * n \<le> x) \<longrightarrow> layout n cs (x - k * n) = None)"
  using assms
proof (induction l arbitrary: k cs)
  case Nil
  then show ?case by auto
next
  case (Cons b l)
  note io = in_order_Cons[OF Cons.prems(1)]
  obtain c cs' where c: "block_chunk E n b = Some c" "chunks_from E n nblk (bb_end n b) l = Some cs'"
    "cs = (if k < unat (bb_block b) then [Skip (unat (bb_block b) - k)] else []) @ c # cs'"
    by (rule chunks_from_ConsE[OF Cons.prems(2)])
  let ?B = "unat (bb_block b)"
  note cf = block_chunk_facts[OF c(1) io(2) Cons.prems(3)]
  have srt: "sorted_wrt (before n) (b # l)" using Cons.prems(1) by (simp add: in_order_def)
  have later: "image_of n l x = None" if "x < bb_end n b * n"
  proof -
    have "bb_image n d x = None" if d: "d \<in> set l" for d
    proof -
      have "bb_end n b * n \<le> unat (bb_block d) * n" using srt d by (simp add: before_def)
      then have "x < unat (bb_block d) * n" using \<open>x < bb_end n b * n\<close> by (rule less_le_trans[rotated])
      then show ?thesis by (simp add: bb_image_def bb_start_def)
    qed
    then show ?thesis using image_of_SomeD[of n l x] by (cases "image_of n l x") auto
  qed
  consider (gap) "x < ?B * n" | (here) "?B * n \<le> x" "x < bb_end n b * n" | (after) "bb_end n b * n \<le> x" by linarith
  then show ?case
  proof cases
    case gap
    then have "k < ?B" "x - k * n < (?B - k) * n" using Cons.prems(4)
      by (auto simp: diff_mult_distrib dest: le_less_trans)
    moreover have "?B * n \<le> bb_end n b * n" by (simp add: bb_end_def)
    then have "x < bb_end n b * n" using gap by (rule less_le_trans[rotated])
    moreover have "bb_image n b x = None" using gap by (simp add: bb_image_def bb_start_def)
    ultimately show ?thesis unfolding c(3) layout_skip_first using later by simp
  next
    case here
    have "k * n \<le> ?B * n" using io(4) by simp
    then have e: "x - k * n - (?B - k) * n = x - ?B * n" "\<not> x - k * n < (?B - k) * n"
      using here(1) by (simp_all add: diff_mult_distrib)
    have "x - ?B * n < blocks_for n (unat (bb_len b)) * n"
      using here by (simp add: blocks_for_end add_mult_distrib)
    then have lay: "layout n cs (x - k * n) = chunk_byte c (x - ?B * n)"
      unfolding c(3) layout_skip_first e using cf(1) e(2) by simp
    have "bb_image n b x = (if x < ?B * n + unat (bb_len b) then Some (content_at (bb_cont b) (x - ?B * n)) else None)"
      using here(1) by (simp add: bb_image_def bb_start_def)
    then show ?thesis using lay cf(3)[of "x - ?B * n"] here later[OF here(2)] by auto
  next
    case after
    have kb: "k * n \<le> ?B * n" "?B * n \<le> bb_end n b * n" using io(4) by (simp_all add: bb_end_def)
    have e: "x - k * n - (?B - k) * n = x - ?B * n" "\<not> x - k * n < (?B - k) * n"
      using after kb unfolding diff_mult_distrib by linarith+
    have e2: "\<not> x - ?B * n < chunk_blocks n c * n" "x - ?B * n - chunk_blocks n c * n = x - bb_end n b * n"
      using after unfolding cf(1) blocks_for_end add_mult_distrib by simp_all
    have lay: "layout n cs (x - k * n) = layout n cs' (x - bb_end n b * n)"
      unfolding c(3) layout_skip_first e layout.simps e2(2) using e(2) e2(1) by simp
    have "bb_image n b x = None"
      using after bb_bytes_end[OF Cons.prems(3), of b] by (simp add: bb_image_def)
    then show ?thesis unfolding lay using Cons.IH[OF io(1) c(2) Cons.prems(3) after] by simp
  qed
qed

lemma empty_read_upto:
  "0 < w \<Longrightarrow> 4 dvd unat w \<Longrightarrow> read_upto (empty_image w len) 0"
  by (simp add: read_upto_def empty_image_def backed_block_list_new_def bbl_ok_def blocks_ok_def)

lemma length_chunks_le:
  assumes "\<forall>c \<in> set cs. chunk_ok n c" "0 < n"
  shows "length cs \<le> total_blocks n cs"
  using assms
proof (induction cs)
  case (Cons c cs)
  then have "0 < chunk_blocks n c" by (cases c) (auto intro!: Nat.gr0I simp: dvd_imp_mod_0 elim!: dvdE)
  with Cons show ?case by (simp add: total_blocks_def)
qed simp

lemma image_header_sel [simp]:
  "sh_magic (image_header s n) = SPARSE_HEADER_MAGIC" "sh_major_version (image_header s n) = 1"
  "unat (sh_file_hdr_sz (image_header s n)) = SPARSE_HEADER_LEN" "sh_chunk_hdr_sz (image_header s n) = hdr16"
  "sh_blk_sz (image_header s n) = sf_block_size s"
  "sh_total_blks (image_header s n) = word_of_nat (nat (sf_len s) div unat (sf_block_size s))"
  "sh_total_chunks (image_header s n) = word_of_nat n"
  by (simp_all add: image_header_def SPARSE_HEADER_LEN_def)

text \<open>The reader up to the chunks behind those of the image, \<open>m\<close> of them.\<close>

lemma read_image_chunks:
  assumes al: "reusing_alloc alloc" and r: "\<forall>p n. 0 \<le> r p n"
    and cs: "\<forall>c \<in> set cs. chunk_ok (unat (sf_block_size s)) c"
    and w: "0 < sf_block_size s" "4 dvd unat (sf_block_size s)"
    and tb: "total_blocks (unat (sf_block_size s)) cs = nat (sf_len s) div unat (sf_block_size s)"
      "total_blocks (unat (sf_block_size s)) cs * unat (sf_block_size s) < 2 ^ 32"
    and E: "env_fd E fd = Some (image_bytes s crc0 cs)"
    and s0: "sf_block_size s0 = sf_block_size s" "read_upto s0 0"
  shows "\<exists>s' f'. sparse_file_read_sparse alloc True s0 (image_file r (image_bytes s crc0 cs)) fd crc =
      bindC (read_chunks alloc fd hdr16 (if crc0 then 1 else 0) s' f' (word_of_nat (nat (sf_len s) div unat (sf_block_size s)))
               (map_option (\<lambda>k. foldl (reader_crc (unat (sf_block_size s))) k cs) (if crc then Some 0 else None)))
        (\<lambda>(ret, s1, f3, cur). if ret < 0 then Inr (ret, s1, f3)
           else if word_of_nat (nat (sf_len s) div unat (sf_block_size s)) \<noteq> cur then Inr (- EINVAL, s1, f3)
           else Inr (0, s1, f3)) \<and>
     sf_block_size s' = sf_block_size s \<and> sf_len s' = sf_len s0 \<and> read_upto s' (nat (sf_len s) div unat (sf_block_size s)) \<and>
     image_value E s' = layout (unat (sf_block_size s)) cs \<and>
     reads_ok f' \<and> drop (rf_pos f') (rf_data f') =
       (if crc0 then crc_chunk_bytes (foldl (writer_crc (unat (sf_block_size s))) 0 cs) else [])"
proof -
  let ?n = "unat (sf_block_size s)" let ?D = "image_bytes s crc0 cs" let ?f = "image_file r ?D"
  let ?m = "if crc0 then 1 else 0 :: nat"
  let ?h = "image_header s (length cs + ?m)"
  let ?tail = "if crc0 then crc_chunk_bytes (foldl (writer_crc ?n) 0 cs) else []"
  have n: "4 \<le> ?n" "0 < ?n" using w by (auto simp: unat_gt_0 word_gt_0 intro!: dvd_imp_le)
  have ok: "reads_ok ?f" using r by (simp add: reads_ok_def image_file_def)
  have dr: "drop (rf_pos ?f) (rf_data ?f) = sparse_header_bytes ?h @ (concat (map (chunk_bytes ?n) cs) @ ?tail)"
    by (simp add: image_file_def image_bytes_def)
  let ?f1 = "?f\<lparr>rf_pos := SPARSE_HEADER_LEN\<rparr>"
  have rd: "read_all ?f SPARSE_HEADER_LEN = (0, sparse_header_bytes ?h, ?f1)"
    using read_prefix[OF ok dr] by (simp add: image_file_def)
  have dr1: "drop (rf_pos ?f1) (rf_data ?f1) = concat (map (chunk_bytes (unat (sf_block_size s0))) cs) @ ?tail"
    using prefix_at(3)[OF dr] s0(1) by (simp add: image_file_def)
  have "total_blocks ?n cs * 4 \<le> total_blocks ?n cs * ?n" by (rule mult_le_mono2[OF n(1)])
  then have "total_blocks ?n cs * 4 < 2 ^ 32" using tb(2) by (rule le_less_trans)
  then have "length cs + ?m < 2 ^ 32" using length_chunks_le[OF cs n(2)] by simp
  then have lc: "unat (word_of_nat (length cs + ?m) :: u32) = length cs + ?m" by (rule unat_of_nat_u32)
  have fits: "(0 + total_blocks (unat (sf_block_size s0)) cs) * unat (sf_block_size s0) < 2 ^ 32" using tb(2) s0(1) by simp
  have cs0: "\<forall>c \<in> set cs. chunk_ok (unat (sf_block_size s0)) c" using cs s0(1) by simp
  have E1: "env_fd E fd = Some (rf_data ?f1)" using E by (simp add: image_file_def)
  have ok1: "reads_ok ?f1" using ok by simp
  obtain s' where s': "read_chunks alloc fd hdr16 (length cs + ?m) s0 ?f1 (word_of_nat 0) (if crc then Some 0 else None) =
      read_chunks alloc fd hdr16 ?m s' (?f1\<lparr>rf_pos := rf_pos ?f1 + length (concat (map (chunk_bytes ?n) cs))\<rparr>)
        (word_of_nat (0 + total_blocks ?n cs))
        (map_option (\<lambda>k. foldl (reader_crc ?n) k cs) (if crc then Some 0 else None))"
      "sf_block_size s' = sf_block_size s" "sf_len s' = sf_len s0" "read_upto s' (0 + total_blocks ?n cs)"
      "\<forall>x. image_value E s' x = (if x < 0 * ?n then image_value E s0 x else layout ?n cs (x - 0 * ?n))"
    using read_chunks_ok[OF s0(2) al ok1 dr1 E1 cs0 fits, of ?m "if crc then Some 0 else None"] s0(1) by auto
  let ?f' = "?f1\<lparr>rf_pos := rf_pos ?f1 + length (concat (map (chunk_bytes ?n) cs))\<rparr>"
  have "drop (rf_pos ?f') (rf_data ?f') = ?tail" using prefix_at(3)[OF dr1] s0(1) by simp
  moreover have "reads_ok ?f'" using ok by simp
  moreover have "image_value E s' = layout ?n cs" using s'(5) by (simp add: fun_eq_iff)
  moreover have "sparse_file_read_sparse alloc True s0 ?f fd crc =
      bindC (read_chunks alloc fd hdr16 ?m s' ?f' (word_of_nat (nat (sf_len s) div ?n))
               (map_option (\<lambda>k. foldl (reader_crc ?n) k cs) (if crc then Some 0 else None)))
        (\<lambda>(ret, s1, f3, cur). if ret < 0 then Inr (ret, s1, f3)
           else if word_of_nat (nat (sf_len s) div ?n) \<noteq> cur then Inr (- EINVAL, s1, f3)
           else Inr (0, s1, f3))"
    using s'(1) tb(1) unfolding sparse_file_read_sparse_def Let_def rd
    by (simp only: sparse_header_of_bytes image_header_sel lc prod.case hdr16_nat) simp
  ultimately show ?thesis using s'(2-4) tb(1) by (intro exI[of _ s'] exI[of _ ?f']) simp
qed

lemma reuse_first_ok: "reusing_alloc reuse_first"
proof -
  have "Suc (sum_list (map bb_addr l)) \<notin> bb_addr ` set l" for l :: "backed_block list"
    using member_le_sum_list[of _ "map bb_addr l"] by fastforce
  then show ?thesis unfolding reusing_alloc_def reuse_first_def by auto
qed

text \<open>What the reader needs of an image that is written.\<close>

lemma image_chunk_facts:
  assumes ok: "image_ok s" and cs: "image_chunks E s = Some cs"
  shows "\<forall>c \<in> set cs. chunk_ok (unat (sf_block_size s)) c"
    and "total_blocks (unat (sf_block_size s)) cs = nat (sf_len s) div unat (sf_block_size s)"
    and "int (total_blocks (unat (sf_block_size s)) cs) * int (unat (sf_block_size s)) = sf_len s"
    and "0 < sf_block_size s" "4 dvd unat (sf_block_size s)" "0 < unat (sf_block_size s)"
proof -
  note im = image_blocks[OF ok]
  show w: "0 < sf_block_size s" by (rule im(1))
  show n: "0 < unat (sf_block_size s)" using w by (simp add: unat_gt_0 word_gt_0)
  show "4 dvd unat (sf_block_size s)" using ok by (auto simp: image_ok_def Let_def bbl_ok_def)
  show "\<forall>c \<in> set cs. chunk_ok (unat (sf_block_size s)) c"
    and t: "total_blocks (unat (sf_block_size s)) cs = nat (sf_len s) div unat (sf_block_size s)"
    using chunks_from_facts[OF im(4) _ n, of E cs] cs by (simp_all add: image_chunks_def)
  show "int (total_blocks (unat (sf_block_size s)) cs) * int (unat (sf_block_size s)) = sf_len s"
    unfolding t by (rule im(2))
qed

lemma import_reads:
  assumes r: "\<forall>p n. 0 \<le> r p n" and ok: "image_ok s" and cs: "image_chunks E s = Some cs"
  shows "sparse_file_import alloc True True (image_file r (image_bytes s crc0 cs)) fd verbose crc =
    bindC (sparse_file_read_sparse alloc True ((empty_image (sf_block_size s) (sf_len s))\<lparr>sf_verbose := verbose\<rparr>)
             (image_file r (image_bytes s crc0 cs)) fd crc)
      (\<lambda>(ret, s1, f2). Inr (if ret < 0 then None else Some s1, f2))"
proof -
  let ?n = "unat (sf_block_size s)" let ?f = "image_file r (image_bytes s crc0 cs)"
  let ?h = "image_header s (length cs + (if crc0 then 1 else 0))"
  note im = image_blocks[OF ok]
  have rok: "reads_ok ?f" using r by (simp add: reads_ok_def image_file_def)
  have dr: "drop (rf_pos ?f) (rf_data ?f) = sparse_header_bytes ?h @ (concat (map (chunk_bytes ?n) cs) @
      (if crc0 then crc_chunk_bytes (foldl (writer_crc ?n) 0 cs) else []))"
    by (simp add: image_file_def image_bytes_def)
  have rd: "read_all ?f SPARSE_HEADER_LEN = (0, sparse_header_bytes ?h, ?f\<lparr>rf_pos := SPARSE_HEADER_LEN\<rparr>)"
    using read_prefix[OF rok dr] by (simp add: image_file_def)
  have len: "int (unat (word_of_nat (nat (sf_len s) div ?n) :: u32)) * int ?n = sf_len s"
    unfolding unat_of_nat_u32[OF im(3)] by (rule im(2))
  have z: "?f\<lparr>rf_pos := SPARSE_HEADER_LEN, rf_pos := 0\<rparr> = ?f" by (simp add: image_file_def)
  show ?thesis
    unfolding sparse_file_import_def Let_def rd
    by (simp only: sparse_header_of_bytes image_header_sel prod.case hdr16_nat len)
      (simp add: sparse_file_new_def empty_image_def sparse_file_read_def image_file_def)
qed

text \<open>Importing what has been written, without a checksum.\<close>

lemma import_image:
  assumes ok: "image_ok s" and cs: "image_chunks E s = Some cs" and len: "sf_len s < 2 ^ 32"
    and al: "reusing_alloc alloc" and r: "\<forall>p n. 0 \<le> r p n" and E': "env_fd E' fd = Some (image_bytes s False cs)"
  shows "\<exists>s' f'. sparse_file_import alloc True True (image_file r (image_bytes s False cs)) fd verbose crc = Inr (Some s', f') \<and>
     sf_block_size s' = sf_block_size s \<and> sf_len s' = sf_len s \<and> image_value E' s' = layout (unat (sf_block_size s)) cs"
proof -
  note cf = image_chunk_facts[OF ok cs]
  let ?s0 = "(empty_image (sf_block_size s) (sf_len s))\<lparr>sf_verbose := verbose\<rparr>"
  have up: "read_upto ?s0 0" using empty_read_upto[OF cf(4,5)] by (simp add: read_upto_def)
  have "int (total_blocks (unat (sf_block_size s)) cs * unat (sf_block_size s)) < 2 ^ 32"
    using cf(3) len by (simp only: of_nat_mult)
  then have tb: "total_blocks (unat (sf_block_size s)) cs * unat (sf_block_size s) < 2 ^ 32" by (rule int_less_pow32)
  have sz: "sf_block_size ?s0 = sf_block_size s" by (simp add: empty_image_def)
  note rd = read_image_chunks[OF al r cf(1) cf(4,5) cf(2) tb E' sz up, of crc]
  obtain s' f' where rs: "sparse_file_read_sparse alloc True ?s0 (image_file r (image_bytes s False cs)) fd crc = Inr (0, s', f')"
    "sf_block_size s' = sf_block_size s" "sf_len s' = sf_len ?s0" "image_value E' s' = layout (unat (sf_block_size s)) cs"
    using rd by (elim exE conjE) (auto intro: that)
  have "sf_len ?s0 = sf_len s" by (simp add: empty_image_def)
  then show ?thesis unfolding import_reads[OF r ok cs] using rs by simp
qed

lemma process_crc_chunk:
  assumes f: "reads_ok f" "drop (rf_pos f) (rf_data f) = crc_chunk_bytes c"
  shows "read_chunks alloc fd hdr16 (Suc 0) s f cur None = Inl Null_Dereference"
    and "\<exists>f'. read_chunks alloc fd hdr16 (Suc 0) s f cur (Some k) = Inr (if c = k then 0 else - EINVAL, s, f', cur)"
proof -
  let ?h = "\<lparr>ch_chunk_type = CHUNK_TYPE_CRC32, ch_reserved1 = 0, ch_chunk_sz = 0,
                         ch_total_sz = word_of_nat (CHUNK_HEADER_LEN + 4)\<rparr> :: chunk_header"
  let ?f = "f\<lparr>rf_pos := rf_pos f + CHUNK_HEADER_LEN\<rparr>"
  have dr: "drop (rf_pos f) (rf_data f) = chunk_header_bytes ?h @ le32 c" using f(2) by (simp add: crc_chunk_bytes_def)
  have rd: "read_all f CHUNK_HEADER_LEN = (0, chunk_header_bytes ?h, ?f)" using read_prefix[OF f(1) dr] by simp
  have dr2: "drop (rf_pos ?f) (rf_data ?f) = le32 c @ []" using prefix_at(3)[OF dr] by simp
  have rd2: "read_all ?f 4 = (0, le32 c, ?f\<lparr>rf_pos := rf_pos ?f + 4\<rparr>)" using read_prefix[of ?f, OF _ dr2] f(1) by simp
  show "read_chunks alloc fd hdr16 (Suc 0) s f cur None = Inl Null_Dereference"
    by (simp add: rd hdr16_nat Let_def process_chunk_def)
  show "\<exists>f'. read_chunks alloc fd hdr16 (Suc 0) s f cur (Some k) = Inr (if c = k then 0 else - EINVAL, s, f', cur)"
    using rd2 by (simp add: rd hdr16_nat Let_def process_chunk_def process_crc32_chunk_def EINVAL_def)
qed

section \<open>Theorems\<close>

text \<open>C18: Reading loops over short reads: when no read fails and the bytes are there, exactly the
  requested bytes are returned, however the kernel cuts them; at the end of the file the
  result is an error.\<close>

theorem read_all_correct:
  assumes "reads_ok f" "0 < n"
  shows "if rf_pos f + n \<le> length (rf_data f)
     then read_all f n = (0, take n (drop (rf_pos f) (rf_data f)), f\<lparr>rf_pos := rf_pos f + n\<rparr>)
     else fst (read_all f n) = - EINVAL"
  using read_all_ok[OF assms(1), of n] read_all_eof[OF assms] by simp

theorem read_all_correct_witness:
  "read_all \<lparr>rf_data = [1, 2, 3, 4, 5], rf_pos = 1, rf_read = (\<lambda>p n. 1)\<rparr> 3 =
     (0, [2, 3, 4], \<lparr>rf_data = [1, 2, 3, 4, 5], rf_pos = 4, rf_read = (\<lambda>p n. 1)\<rparr>) \<and>
   fst (read_all \<lparr>rf_data = [1, 2, 3, 4, 5], rf_pos = 3, rf_read = (\<lambda>p n. 1)\<rparr> 3) = - EINVAL"
  using read_all_correct[of "\<lparr>rf_data = [1, 2, 3, 4, 5], rf_pos = 1, rf_read = (\<lambda>p n. 1)\<rparr>" 3]
    read_all_correct[of "\<lparr>rf_data = [1, 2, 3, 4, 5], rf_pos = 3, rf_read = (\<lambda>p n. 1)\<rparr>" 3]
  by (simp add: reads_ok_def numeral_eq_Suc)




lemma crc_zero_block: "foldl (reader_crc 4) 0 [Skip 1] \<noteq> 0"
  by code_simp


end
