(* ===== verification/Mincrypt_Sha.thy ===== *)
theory Mincrypt_Sha
  imports Prelude
begin

text \<open>
  The hashes of the small crypto library, \<^verbatim>\<open>system/core/libmincrypt/sha.c\<close> and
  \<^verbatim>\<open>sha256.c\<close>, with the context of \<^verbatim>\<open>hash-internal.h\<close>. The two files have the same update
  and padding loops around different compression functions: the loops are defined once, over
  the compression function. The arrays of the context are lists of 64 bytes and 8 words, and
  the data of a call is the list of the bytes that its pointer and its length name.
\<close>

section \<open>Contexts\<close>

datatype HASH_VTAB = SHA_VTAB | SHA256_VTAB

record HASH_CTX =
  hc_f :: HASH_VTAB
  hc_count :: u64
  hc_buf :: "u8 list"
  hc_state :: "u32 list"

definition SHA_DIGEST_SIZE :: nat where "SHA_DIGEST_SIZE = 20"

definition SHA256_DIGEST_SIZE :: nat where "SHA256_DIGEST_SIZE = 32"

definition be32_at :: "u8 list \<Rightarrow> nat \<Rightarrow> u32" where
  "be32_at b i = push_bit 24 (ucast (b ! i)) OR push_bit 16 (ucast (b ! (i + 1))) OR
                 push_bit 8 (ucast (b ! (i + 2))) OR ucast (b ! (i + 3))"

definition be32 :: "u32 \<Rightarrow> u8 list" where
  "be32 w = [ucast (drop_bit 24 w), ucast (drop_bit 16 w), ucast (drop_bit 8 w), ucast w]"

definition be64 :: "u64 \<Rightarrow> u8 list" where
  "be64 w = map (\<lambda>i. ucast (drop_bit ((7 - i) * 8) w)) [0..<8]"

text \<open>Filling an array from left to right: each value is computed from the ones before it.\<close>

fun fill_array :: "('a list \<Rightarrow> 'a) \<Rightarrow> nat \<Rightarrow> 'a list \<Rightarrow> 'a list" where
  "fill_array f 0 W = W"
| "fill_array f (Suc n) W = fill_array f n (W @ [f W])"

section \<open>SHA-1\<close>

definition rol :: "nat \<Rightarrow> u32 \<Rightarrow> u32" where
  "rol bits v = push_bit bits v OR drop_bit (32 - bits) v"

definition sha1_schedule :: "u8 list \<Rightarrow> u32 list" where
  "sha1_schedule p =
     fill_array (\<lambda>W. let t = length W in rol 1 (W ! (t - 3) XOR W ! (t - 8) XOR W ! (t - 14) XOR W ! (t - 16)))
       64 (map (\<lambda>t. be32_at p (4 * t)) [0..<16])"

type_synonym sha1_vars = "u32 \<times> u32 \<times> u32 \<times> u32 \<times> u32"

definition sha1_round :: "u32 list \<Rightarrow> nat \<Rightarrow> sha1_vars \<Rightarrow> sha1_vars" where
  "sha1_round W t = (\<lambda>(A, B, C, D, E).
     let tmp = rol 5 A + E + W ! t;
         tmp1 = (if t < 20 then tmp + ((D XOR (B AND (C XOR D))) + 0x5A827999)
                 else if t < 40 then tmp + ((B XOR C XOR D) + 0x6ED9EBA1)
                 else if t < 60 then tmp + (((B AND C) OR (D AND (B OR C))) + 0x8F1BBCDC)
                 else tmp + ((B XOR C XOR D) + 0xCA62C1D6))
     in (tmp1, A, rol 30 B, C, D))"

definition SHA1_Transform :: "HASH_CTX \<Rightarrow> HASH_CTX" where
  "SHA1_Transform ctx =
     (let W = sha1_schedule (hc_buf ctx); s = hc_state ctx;
          (A, B, C, D, E) = fold (sha1_round W) [0..<80] (s ! 0, s ! 1, s ! 2, s ! 3, s ! 4)
      in ctx\<lparr>hc_state := s[0 := s ! 0 + A, 1 := s ! 1 + B, 2 := s ! 2 + C, 3 := s ! 3 + D, 4 := s ! 4 + E]\<rparr>)"

section \<open>SHA-256\<close>

definition ror :: "u32 \<Rightarrow> nat \<Rightarrow> u32" where
  "ror v bits = drop_bit bits v OR push_bit (32 - bits) v"

definition shr :: "u32 \<Rightarrow> nat \<Rightarrow> u32" where
  "shr v bits = drop_bit bits v"

text \<open>The rows of the source.\<close>

definition K256 :: "u32 list" where
  "K256 = concat
     [[0x428a2f98, 0x71374491, 0xb5c0fbcf, 0xe9b5dba5],
      [0x3956c25b, 0x59f111f1, 0x923f82a4, 0xab1c5ed5],
      [0xd807aa98, 0x12835b01, 0x243185be, 0x550c7dc3],
      [0x72be5d74, 0x80deb1fe, 0x9bdc06a7, 0xc19bf174],
      [0xe49b69c1, 0xefbe4786, 0x0fc19dc6, 0x240ca1cc],
      [0x2de92c6f, 0x4a7484aa, 0x5cb0a9dc, 0x76f988da],
      [0x983e5152, 0xa831c66d, 0xb00327c8, 0xbf597fc7],
      [0xc6e00bf3, 0xd5a79147, 0x06ca6351, 0x14292967],
      [0x27b70a85, 0x2e1b2138, 0x4d2c6dfc, 0x53380d13],
      [0x650a7354, 0x766a0abb, 0x81c2c92e, 0x92722c85],
      [0xa2bfe8a1, 0xa81a664b, 0xc24b8b70, 0xc76c51a3],
      [0xd192e819, 0xd6990624, 0xf40e3585, 0x106aa070],
      [0x19a4c116, 0x1e376c08, 0x2748774c, 0x34b0bcb5],
      [0x391c0cb3, 0x4ed8aa4a, 0x5b9cca4f, 0x682e6ff3],
      [0x748f82ee, 0x78a5636f, 0x84c87814, 0x8cc70208],
      [0x90befffa, 0xa4506ceb, 0xbef9a3f7, 0xc67178f2]]"

definition sha256_schedule :: "u8 list \<Rightarrow> u32 list" where
  "sha256_schedule p =
     fill_array (\<lambda>W. let t = length W;
                     s0 = ror (W ! (t - 15)) 7 XOR ror (W ! (t - 15)) 18 XOR shr (W ! (t - 15)) 3;
                     s1 = ror (W ! (t - 2)) 17 XOR ror (W ! (t - 2)) 19 XOR shr (W ! (t - 2)) 10
                 in W ! (t - 16) + s0 + W ! (t - 7) + s1)
       48 (map (\<lambda>t. be32_at p (4 * t)) [0..<16])"

type_synonym sha256_vars = "u32 \<times> u32 \<times> u32 \<times> u32 \<times> u32 \<times> u32 \<times> u32 \<times> u32"

definition sha256_round :: "u32 list \<Rightarrow> nat \<Rightarrow> sha256_vars \<Rightarrow> sha256_vars" where
  "sha256_round W t = (\<lambda>(A, B, C, D, E, F, G, H).
     let s0 = ror A 2 XOR ror A 13 XOR ror A 22;
         maj = (A AND B) XOR (A AND C) XOR (B AND C);
         t2 = s0 + maj;
         s1 = ror E 6 XOR ror E 11 XOR ror E 25;
         ch = (E AND F) XOR (NOT E AND G);
         t1 = H + s1 + ch + K256 ! t + W ! t
     in (t1 + t2, A, B, C, D + t1, E, F, G))"

definition SHA256_Transform :: "HASH_CTX \<Rightarrow> HASH_CTX" where
  "SHA256_Transform ctx =
     (let W = sha256_schedule (hc_buf ctx); s = hc_state ctx;
          (A, B, C, D, E, F, G, H) =
            fold (sha256_round W) [0..<64] (s ! 0, s ! 1, s ! 2, s ! 3, s ! 4, s ! 5, s ! 6, s ! 7)
      in ctx\<lparr>hc_state := s[0 := s ! 0 + A, 1 := s ! 1 + B, 2 := s ! 2 + C, 3 := s ! 3 + D,
                            4 := s ! 4 + E, 5 := s ! 5 + F, 6 := s ! 6 + G, 7 := s ! 7 + H]\<rparr>)"

section \<open>The loops around the compression functions\<close>

fun transform_of :: "HASH_VTAB \<Rightarrow> HASH_CTX \<Rightarrow> HASH_CTX" where
  "transform_of SHA_VTAB = SHA1_Transform"
| "transform_of SHA256_VTAB = SHA256_Transform"

fun update_loop :: "HASH_VTAB \<Rightarrow> HASH_CTX \<Rightarrow> nat \<Rightarrow> u8 list \<Rightarrow> HASH_CTX" where
  "update_loop v ctx i [] = ctx"
| "update_loop v ctx i (b # p) =
     (let ctx1 = ctx\<lparr>hc_buf := (hc_buf ctx)[i := b]\<rparr>
      in if i + 1 = 64 then update_loop v (transform_of v ctx1) 0 p
         else update_loop v ctx1 (i + 1) p)"

definition hash_update :: "HASH_VTAB \<Rightarrow> HASH_CTX \<Rightarrow> u8 list \<Rightarrow> HASH_CTX" where
  "hash_update v ctx data =
     update_loop v (ctx\<lparr>hc_count := hc_count ctx + word_of_nat (length data)\<rparr>)
       (unat (hc_count ctx AND 63)) data"

text \<open>The zero bytes up to the length field, and why the loop that adds them ends.\<close>

definition pad_bytes :: "u64 \<Rightarrow> nat" where
  "pad_bytes c = (let r = unat c mod 64 in if r \<le> 56 then 56 - r else 120 - r)"

lemma transform_count [simp]: "hc_count (transform_of v ctx) = hc_count ctx"
  by (cases v) (simp_all add: SHA1_Transform_def SHA256_Transform_def Let_def split_beta)

lemma update_loop_count [simp]: "hc_count (update_loop v ctx i p) = hc_count ctx"
  by (induction v ctx i p rule: update_loop.induct) (auto simp: Let_def)

lemma hash_update_count [simp]: "hc_count (hash_update v ctx p) = hc_count ctx + word_of_nat (length p)"
  by (simp add: hash_update_def)

lemma unat_and_63: "unat (c AND 63 :: u64) = unat c mod 64"
proof -
  have "c AND 63 = take_bit 6 c" by (simp add: take_bit_eq_mask mask_eq_exp_minus_1)
  then show ?thesis by (simp add: take_bit_eq_mod unat_mod_distrib)
qed

lemma unat_suc_mod: "unat (c + 1 :: u64) mod 64 = (unat c + 1) mod 64"
proof -
  have "unat (c + 1) = (unat c + 1) mod 2 ^ 64" by (simp add: unat_word_ariths)
  moreover have "(64::nat) dvd 2 ^ 64" by simp
  ultimately show ?thesis by (simp only: mod_mod_cancel)
qed

lemma pad_bytes_Suc: "c AND 63 \<noteq> 56 \<Longrightarrow> pad_bytes c = Suc (pad_bytes (c + 1))"
proof -
  assume "c AND 63 \<noteq> 56"
  define r where "r = unat c mod 64"
  have r: "r < 64" "r \<noteq> 56"
    using \<open>c AND 63 \<noteq> 56\<close> unat_and_63[of c] by (auto simp: r_def word_unat_eq_iff)
  have "unat (c + 1) mod 64 = (r + 1) mod 64" unfolding unat_suc_mod r_def by (rule mod_add_left_eq[symmetric])
  then have "pad_bytes (c + 1) = (if (r + 1) mod 64 \<le> 56 then 56 - (r + 1) mod 64 else 120 - (r + 1) mod 64)"
    "pad_bytes c = (if r \<le> 56 then 56 - r else 120 - r)"
    by (simp_all only: pad_bytes_def Let_def r_def[symmetric])
  moreover have "(r + 1) mod 64 = (if r = 63 then 0 else r + 1)" using r(1) by simp
  ultimately show ?thesis using r by auto
qed

function pad_loop :: "HASH_VTAB \<Rightarrow> HASH_CTX \<Rightarrow> HASH_CTX" where
  "pad_loop v ctx =
     (if hc_count ctx AND 63 \<noteq> 56 then pad_loop v (hash_update v ctx [0]) else ctx)"
  by pat_completeness auto
termination
  by (relation "measure (\<lambda>(v, ctx). pad_bytes (hc_count ctx))") (auto simp: pad_bytes_Suc)

declare pad_loop.simps [simp del]

definition hash_final :: "HASH_VTAB \<Rightarrow> nat \<Rightarrow> HASH_CTX \<Rightarrow> HASH_CTX" where
  "hash_final v words ctx =
     (let cnt = hc_count ctx * 8;
          ctx1 = pad_loop v (hash_update v ctx [0x80]);
          ctx2 = fold (\<lambda>i c. hash_update v c [ucast (drop_bit ((7 - i) * 8) cnt)]) [0..<8] ctx1
      in ctx2\<lparr>hc_buf := concat (map (\<lambda>i. be32 (hc_state ctx2 ! i)) [0..<words]) @ drop (4 * words) (hc_buf ctx2)\<rparr>)"

definition SHA_init :: "HASH_CTX \<Rightarrow> HASH_CTX" where
  "SHA_init ctx =
     ctx\<lparr>hc_f := SHA_VTAB,
         hc_state := (hc_state ctx)[0 := 0x67452301, 1 := 0xEFCDAB89, 2 := 0x98BADCFE, 3 := 0x10325476, 4 := 0xC3D2E1F0],
         hc_count := 0\<rparr>"

definition SHA_update :: "HASH_CTX \<Rightarrow> u8 list \<Rightarrow> HASH_CTX" where
  "SHA_update ctx data = hash_update SHA_VTAB ctx data"

text \<open>The result points at the buffer of the context.\<close>

definition SHA_final :: "HASH_CTX \<Rightarrow> u8 list \<times> HASH_CTX" where
  "SHA_final ctx = (let ctx1 = hash_final SHA_VTAB 5 ctx in (hc_buf ctx1, ctx1))"

text \<open>\<open>ctx\<close> is the uninitialised local context.\<close>

definition SHA_hash :: "HASH_CTX \<Rightarrow> u8 list \<Rightarrow> u8 list" where
  "SHA_hash ctx data = take SHA_DIGEST_SIZE (fst (SHA_final (SHA_update (SHA_init ctx) data)))"

definition SHA256_init :: "HASH_CTX \<Rightarrow> HASH_CTX" where
  "SHA256_init ctx =
     ctx\<lparr>hc_f := SHA256_VTAB,
         hc_state := (hc_state ctx)[0 := 0x6a09e667, 1 := 0xbb67ae85, 2 := 0x3c6ef372, 3 := 0xa54ff53a,
                                    4 := 0x510e527f, 5 := 0x9b05688c, 6 := 0x1f83d9ab, 7 := 0x5be0cd19],
         hc_count := 0\<rparr>"

definition SHA256_update :: "HASH_CTX \<Rightarrow> u8 list \<Rightarrow> HASH_CTX" where
  "SHA256_update ctx data = hash_update SHA256_VTAB ctx data"

definition SHA256_final :: "HASH_CTX \<Rightarrow> u8 list \<times> HASH_CTX" where
  "SHA256_final ctx = (let ctx1 = hash_final SHA256_VTAB 8 ctx in (hc_buf ctx1, ctx1))"

definition SHA256_hash :: "HASH_CTX \<Rightarrow> u8 list \<Rightarrow> u8 list" where
  "SHA256_hash ctx data = take SHA256_DIGEST_SIZE (fst (SHA256_final (SHA256_update (SHA256_init ctx) data)))"

text \<open>
  Splitting into blocks and padding as in FIPS 180-4: a one bit, zeros, and the length of the
  message in bits as a big-endian 64 bit number.
\<close>

function blocks_of :: "u8 list \<Rightarrow> u8 list list" where
  "blocks_of m = (if length m < 64 then [] else take 64 m # blocks_of (drop 64 m))"
  by pat_completeness auto

termination
  by (relation "measure length") auto

declare blocks_of.simps [simp del]

definition absorbed :: "(u32 list \<Rightarrow> u8 list \<Rightarrow> u32 list) \<Rightarrow> u32 list \<Rightarrow> u8 list \<Rightarrow> u32 list" where
  "absorbed compress iv m = foldl compress iv (blocks_of m)"

definition zeros_for :: "nat \<Rightarrow> nat" where
  "zeros_for n = (let r = (n + 1) mod 64 in if r \<le> 56 then 56 - r else 120 - r)"

definition sha_padded :: "u8 list \<Rightarrow> u8 list" where
  "sha_padded m = m @ [0x80] @ replicate (zeros_for (length m)) 0 @ be64 (word_of_nat (8 * length m))"

text \<open>A context that has been fed the message \<open>m\<close>.\<close>

definition fed :: "(u32 list \<Rightarrow> u8 list \<Rightarrow> u32 list) \<Rightarrow> u32 list \<Rightarrow> HASH_CTX \<Rightarrow> u8 list \<Rightarrow> bool" where
  "fed compress iv c m \<longleftrightarrow>
     length (hc_buf c) = 64 \<and> length (absorbed compress iv m) = 8 \<and> hc_state c = absorbed compress iv m \<and>
     take (length m mod 64) (hc_buf c) = drop (64 * (length m div 64)) m"

definition holds :: "(u32 list \<Rightarrow> u8 list \<Rightarrow> u32 list) \<Rightarrow> u32 list \<Rightarrow> HASH_CTX \<Rightarrow> u8 list \<Rightarrow> bool" where
  "holds compress iv c m \<longleftrightarrow> fed compress iv c m \<and> hc_count c = word_of_nat (length m)"

section \<open>The two compression functions of the standard\<close>

fun sha1_W :: "u8 list \<Rightarrow> nat \<Rightarrow> u32" where
  "sha1_W p t =
     (if t < 16 then be32_at p (4 * t)
      else word_rotl 1 (sha1_W p (t - 3) XOR sha1_W p (t - 8) XOR sha1_W p (t - 14) XOR sha1_W p (t - 16)))"

declare sha1_W.simps [simp del]

definition sha_Ch :: "u32 \<Rightarrow> u32 \<Rightarrow> u32 \<Rightarrow> u32" where
  "sha_Ch x y z = (x AND y) XOR (NOT x AND z)"

definition sha_Maj :: "u32 \<Rightarrow> u32 \<Rightarrow> u32 \<Rightarrow> u32" where
  "sha_Maj x y z = (x AND y) XOR (x AND z) XOR (y AND z)"

definition sha1_f :: "nat \<Rightarrow> u32 \<Rightarrow> u32 \<Rightarrow> u32 \<Rightarrow> u32" where
  "sha1_f t x y z =
     (if t < 20 then sha_Ch x y z else if t < 40 then x XOR y XOR z
      else if t < 60 then sha_Maj x y z else x XOR y XOR z)"

definition sha1_K :: "nat \<Rightarrow> u32" where
  "sha1_K t = (if t < 20 then 0x5a827999 else if t < 40 then 0x6ed9eba1 else if t < 60 then 0x8f1bbcdc else 0xca62c1d6)"

definition sha1_step :: "u8 list \<Rightarrow> nat \<Rightarrow> sha1_vars \<Rightarrow> sha1_vars" where
  "sha1_step p t = (\<lambda>(a, b, c, d, e).
     (word_rotl 5 a + sha1_f t b c d + e + sha1_K t + sha1_W p t, a, word_rotl 30 b, c, d))"

definition sha1_block :: "u32 list \<Rightarrow> u8 list \<Rightarrow> u32 list" where
  "sha1_block s p =
     (let (a, b, c, d, e) = fold (sha1_step p) [0..<80] (s ! 0, s ! 1, s ! 2, s ! 3, s ! 4)
      in [s ! 0 + a, s ! 1 + b, s ! 2 + c, s ! 3 + d, s ! 4 + e] @ drop 5 s)"

definition sha1_iv :: "u32 list" where
  "sha1_iv = [0x67452301, 0xefcdab89, 0x98badcfe, 0x10325476, 0xc3d2e1f0]"

definition sha1_digest :: "u8 list \<Rightarrow> u8 list" where
  "sha1_digest m = concat (map be32 (absorbed sha1_block sha1_iv (sha_padded m)))"

fun sha256_W :: "u8 list \<Rightarrow> nat \<Rightarrow> u32" where
  "sha256_W p t =
     (if t < 16 then be32_at p (4 * t)
      else (let x = sha256_W p (t - 2); y = sha256_W p (t - 15)
            in (word_rotr 17 x XOR word_rotr 19 x XOR drop_bit 10 x) + sha256_W p (t - 7) +
               (word_rotr 7 y XOR word_rotr 18 y XOR drop_bit 3 y) + sha256_W p (t - 16)))"

declare sha256_W.simps [simp del]

definition sha256_step :: "u8 list \<Rightarrow> nat \<Rightarrow> sha256_vars \<Rightarrow> sha256_vars" where
  "sha256_step p t = (\<lambda>(a, b, c, d, e, f, g, h).
     let T1 = h + (word_rotr 6 e XOR word_rotr 11 e XOR word_rotr 25 e) + sha_Ch e f g + K256 ! t + sha256_W p t;
         T2 = (word_rotr 2 a XOR word_rotr 13 a XOR word_rotr 22 a) + sha_Maj a b c
     in (T1 + T2, a, b, c, d + T1, e, f, g))"

definition sha256_block :: "u32 list \<Rightarrow> u8 list \<Rightarrow> u32 list" where
  "sha256_block s p =
     (let (a, b, c, d, e, f, g, h) =
            fold (sha256_step p) [0..<64] (s ! 0, s ! 1, s ! 2, s ! 3, s ! 4, s ! 5, s ! 6, s ! 7)
      in [s ! 0 + a, s ! 1 + b, s ! 2 + c, s ! 3 + d, s ! 4 + e, s ! 5 + f, s ! 6 + g, s ! 7 + h])"

definition sha256_iv :: "u32 list" where
  "sha256_iv = [0x6a09e667, 0xbb67ae85, 0x3c6ef372, 0xa54ff53a, 0x510e527f, 0x9b05688c, 0x1f83d9ab, 0x5be0cd19]"

definition sha256_digest :: "u8 list \<Rightarrow> u8 list" where
  "sha256_digest m = concat (map be32 (absorbed sha256_block sha256_iv (sha_padded m)))"

text \<open>What a context has before it is initialised: the lengths of its arrays.\<close>

definition zero_ctx :: HASH_CTX where
  "zero_ctx = \<lparr>hc_f = SHA_VTAB, hc_count = 0, hc_buf = replicate 64 0, hc_state = replicate 8 0\<rparr>"

definition ctx_ok :: "HASH_CTX \<Rightarrow> bool" where
  "ctx_ok c \<longleftrightarrow> length (hc_buf c) = 64 \<and> length (hc_state c) = 8"

section \<open>The standard\<close>

lemma blocks_of_append:
  "64 dvd length m \<Longrightarrow> blocks_of (m @ k) = blocks_of m @ blocks_of k"
proof (induction m rule: blocks_of.induct)
  case (1 m)
  show ?case
  proof (cases "length m < 64")
    case True
    then have "m = []" using 1(2) by (metis dvd_imp_le length_0_conv length_greater_0_conv not_le)
    then show ?thesis by (simp add: blocks_of.simps[of "[]"])
  next
    case False
    then have "64 dvd length (drop 64 m)" using 1(2) by (simp add: dvd_minus_self)
    from 1(1)[OF False this] False show ?thesis by (simp add: blocks_of.simps[of m] blocks_of.simps[of "m @ k"])
  qed
qed

lemma blocks_of_short: "length m < 64 \<Longrightarrow> blocks_of m = []"
  by (simp add: blocks_of.simps)

lemma blocks_of_one: "length m = 64 \<Longrightarrow> blocks_of m = [m]"
  by (simp add: blocks_of.simps[of m] blocks_of_short)

lemma blocks_of_tail:
  "blocks_of (m @ k) = blocks_of (take (64 * (length m div 64)) m) @ blocks_of (drop (64 * (length m div 64)) m @ k)"
proof -
  let ?n = "64 * (length m div 64)"
  have "?n \<le> length m" by simp
  then have "64 dvd length (take ?n m)" by (simp add: min_absorb2)
  then show ?thesis using blocks_of_append[of "take ?n m" "drop ?n m @ k"] by (simp only: append_assoc[symmetric] append_take_drop_id)
qed

lemma blocks_of_step:
  "blocks_of (m @ [b]) =
     (if length m mod 64 = 63 then blocks_of m @ [drop (64 * (length m div 64)) m @ [b]] else blocks_of m)"
proof -
  let ?r = "drop (64 * (length m div 64)) m"
  have r: "length ?r = length m mod 64" by (simp add: minus_mult_div_eq_mod)
  then have "blocks_of ?r = []" by (intro blocks_of_short) simp
  then have m: "blocks_of m = blocks_of (take (64 * (length m div 64)) m)" using blocks_of_tail[of m "[]"] by simp
  show ?thesis
    unfolding blocks_of_tail[of m "[b]"] m[symmetric] using r blocks_of_one[of "?r @ [b]"] blocks_of_short[of "?r @ [b]"]
      mod_less_divisor[of 64 "length m"] by (auto simp del: mod_less_divisor)
qed

lemma absorbed_step:
  "absorbed compress iv (m @ [b]) =
     (if length m mod 64 = 63 then compress (absorbed compress iv m) (drop (64 * (length m div 64)) m @ [b])
      else absorbed compress iv m)"
  by (simp add: absorbed_def blocks_of_step)

lemma count_mod: "unat (word_of_nat n AND 63 :: u64) = n mod 64"
proof -
  have "(64::nat) dvd 2 ^ 64" by simp
  then show ?thesis unfolding unat_and_63 by (simp only: unat_of_nat) (simp add: mod_mod_cancel)
qed

lemma length_be32s: "length (concat (map be32 ws)) = 4 * length ws"
  by (induction ws) (simp_all add: be32_def)

section \<open>Hashing with a compression function\<close>

text \<open>What the loops need of a compression function, and what they compute with it.\<close>

locale block_hash =
  fixes v :: HASH_VTAB and compress :: "u32 list \<Rightarrow> u8 list \<Rightarrow> u32 list"
  assumes transform: "length (hc_buf c) = 64 \<Longrightarrow> length (hc_state c) = 8 \<Longrightarrow>
      transform_of v c = c\<lparr>hc_state := compress (hc_state c) (hc_buf c)\<rparr>"
    and compress_length: "length s = 8 \<Longrightarrow> length (compress s b) = 8"
begin

lemma byte_fed:
  fixes b :: u8
  assumes h: "fed compress iv c m"
  defines "c1 \<equiv> c\<lparr>hc_buf := (hc_buf c)[length m mod 64 := b]\<rparr>"
  shows "if length m mod 64 = 63 then fed compress iv (transform_of v c1) (m @ [b]) else fed compress iv c1 (m @ [b])"
proof -
  let ?r = "length m mod 64" let ?k = "64 * (length m div 64)"
  note h' = h[unfolded fed_def]
  have r: "?r < 64" by simp
  have tk: "take (?r + 1) ((hc_buf c)[?r := b]) = drop ?k m @ [b]"
    using h' r by (simp add: take_Suc_conv_app_nth)
  show ?thesis
  proof (cases "?r = 63")
    case True
    have z: "Suc (length m) mod 64 = 0" using True by (simp add: mod_Suc)
    moreover have "Suc (length m) div 64 * 64 = Suc (length m)" using div_mult_mod_eq[of "Suc (length m)" 64] z by simp
    moreover have bf: "hc_buf c1 = drop ?k m @ [b]" using tk True h' by (simp add: c1_def)
    moreover have ln: "length (hc_buf c1) = 64" "hc_state c1 = absorbed compress iv m" "length (absorbed compress iv m) = 8"
      using h' by (simp_all add: c1_def)
    moreover have "transform_of v c1 = c1\<lparr>hc_state := compress (absorbed compress iv m) (drop ?k m @ [b])\<rparr>"
      using transform[of c1] ln bf by simp
    ultimately show ?thesis
      using True compress_length[of "absorbed compress iv m"] unfolding fed_def
      by (simp add: absorbed_step mult.commute)
  next
    case False
    have sm: "Suc (length m) mod 64 = Suc ?r" "Suc (length m) div 64 = length m div 64"
      using False r by (simp_all add: mod_Suc div_Suc)
    have "?k \<le> length m" by simp
    with sm False h' tk show ?thesis unfolding c1_def fed_def by (simp add: absorbed_step)
  qed
qed

lemma loop_fed: "fed compress iv c m \<Longrightarrow> fed compress iv (update_loop v c (length m mod 64) p) (m @ p)"
proof (induction p arbitrary: c m)
  case (Cons b p)
  have sm: "length (m @ [b]) mod 64 = (if length m mod 64 = 63 then 0 else length m mod 64 + 1)"
    by (simp add: mod_Suc)
  show ?case using byte_fed[OF Cons.prems, of b] Cons.IH[of _ "m @ [b]"] sm
    by (auto simp: Let_def split: if_splits)
qed simp

lemma update_holds: "holds compress iv c m \<Longrightarrow> holds compress iv (hash_update v c p) (m @ p)"
proof -
  assume h: "holds compress iv c m"
  then have "fed compress iv (c\<lparr>hc_count := k\<rparr>) m" for k by (simp add: holds_def fed_def)
  from loop_fed[OF this] h show ?thesis
    by (simp add: holds_def hash_update_def count_mod)
qed

lemma pad_holds:
  "holds compress iv c m \<Longrightarrow> holds compress iv (pad_loop v c) (m @ replicate (pad_bytes (hc_count c)) 0)"
proof (induction "pad_bytes (hc_count c)" arbitrary: c m rule: less_induct)
  case less
  show ?case
  proof (cases "hc_count c AND 63 = 56")
    case True
    then have "unat (hc_count c) mod 64 = 56" using unat_and_63[of "hc_count c"] by simp
    then show ?thesis using less.prems True by (simp add: pad_loop.simps[of v c] pad_bytes_def)
  next
    case False
    have "pad_bytes (hc_count c) = Suc (pad_bytes (hc_count c + 1))" by (rule pad_bytes_Suc[OF False])
    with less.hyps[of "hash_update v c [0]" "m @ [0]"] update_holds[OF less.prems, of "[0]"] False
    show ?thesis by (simp add: pad_loop.simps[of v c])
  qed
qed

lemma final_buf:
  assumes h: "holds compress iv c m" and w: "words \<le> 8"
  shows "take (4 * words) (hc_buf (hash_final v words c)) = concat (map be32 (take words (absorbed compress iv (sha_padded m))))"
proof -
  let ?cnt = "hc_count c * 8" let ?f = "\<lambda>i. ucast (drop_bit ((7 - i) * 8) ?cnt) :: u8"
  define c1 where "c1 = pad_loop v (hash_update v c [0x80])"
  define c2 where "c2 = fold (\<lambda>i c. hash_update v c [?f i]) [0..<8] c1"
  have cnt: "?cnt = word_of_nat (8 * length m)" using h by (simp add: holds_def mult.commute)
  have z: "pad_bytes (hc_count c + 1) = zeros_for (length m)"
    using h count_mod[of "length m + 1"] unfolding unat_and_63 pad_bytes_def zeros_for_def holds_def by (simp add: add.commute)
  have c1: "holds compress iv c1 (m @ [0x80] @ replicate (zeros_for (length m)) 0)"
    using pad_holds[OF update_holds[OF h, of "[0x80]"]] z unfolding c1_def by simp
  have "holds compress iv (fold (\<lambda>i c. hash_update v c [?f i]) is c') (k @ map ?f is)"
    if "holds compress iv c' k" for c' k "is"
    using that
  proof (induction "is" arbitrary: c' k)
    case (Cons i is')
    show ?case using Cons.IH[OF update_holds[OF Cons.prems, of "[?f i]"]] by simp
  qed simp
  from this[OF c1, of "[0..<8]"] have c2: "holds compress iv c2 (sha_padded m)"
    unfolding c2_def sha_padded_def be64_def cnt by simp
  then have st: "hc_state c2 = absorbed compress iv (sha_padded m)" "length (hc_state c2) = 8"
    by (simp_all add: holds_def fed_def)
  have "hc_buf (hash_final v words c) = concat (map be32 (take words (hc_state c2))) @ drop (4 * words) (hc_buf c2)"
    unfolding hash_final_def Let_def c1_def[symmetric] c2_def[symmetric] using w st(2)
    by (simp add: take_map_nth)
  moreover have "length (concat (map be32 (take words (hc_state c2)))) = 4 * words"
    using w st(2) by (simp add: length_be32s)
  ultimately show ?thesis using st(1) by simp
qed

end

lemma bit_u32_ge: "32 \<le> n \<Longrightarrow> \<not> bit (w :: u32) n"
  using bit_imp_le_length[of w n] by auto

lemma rol_rotl: "n < 32 \<Longrightarrow> rol n w = word_rotl n w"
proof (rule bit_word_eqI)
  fix k assume n: "n < 32" and "k < LENGTH(32)"
  then have k: "k < 32" by simp
  have "(k + 32 - n) mod 32 = (if n \<le> k then k - n else 32 + k - n)"
    using n k by (auto simp: mod_if)
  then show "bit (rol n w) k = bit (word_rotl n w) k"
    using n k bit_u32_ge[of "32 + k - n" w]
    by (auto simp: rol_def bit_word_rotl_iff bit_or_iff bit_push_bit_iff bit_drop_bit_eq)
qed

lemma ror_rotr: "0 < n \<Longrightarrow> n < 32 \<Longrightarrow> ror w n = word_rotr n w"
proof (rule bit_word_eqI)
  fix k assume n: "0 < n" "n < 32" and "k < LENGTH(32)"
  then have k: "k < 32" by simp
  have "(k + n) mod 32 = (if 32 - n \<le> k then k + n - 32 else n + k)"
    using n k by (auto simp: mod_if)
  then show "bit (ror w n) k = bit (word_rotr n w) k"
    using n k bit_u32_ge[of "n + k" w]
    by (auto simp: ror_def bit_word_rotr_iff bit_or_iff bit_push_bit_iff bit_drop_bit_eq)
qed

lemma Ch_code: "D XOR (B AND (C XOR D)) = sha_Ch B C D"
  by (rule bit_word_eqI) (auto simp: sha_Ch_def bit_simps)

lemma Maj_code: "(B AND C) OR (D AND (B OR C)) = sha_Maj B C D"
  by (rule bit_word_eqI) (auto simp: sha_Maj_def bit_simps)

lemma fill_array_map:
  assumes "\<And>t. k \<le> t \<Longrightarrow> f (map g [0..<t]) = g t"
  shows "fill_array f n (map g [0..<k]) = map g [0..<k + n]"
proof -
  have "fill_array f n (map g [0..<j]) = map g [0..<j + n]" if "k \<le> j" for j
    using that
  proof (induction n arbitrary: j)
    case (Suc n)
    have "map g [0..<j] @ [f (map g [0..<j])] = map g [0..<Suc j]" using assms[OF Suc.prems] by simp
    with Suc.IH[of "Suc j"] Suc.prems show ?case by simp
  qed simp
  then show ?thesis by simp
qed

lemma sha1_schedule_W: "sha1_schedule p = map (sha1_W p) [0..<80]"
proof -
  have s: "map (\<lambda>t. be32_at p (4 * t)) [0..<16] = map (sha1_W p) [0..<16]" by (simp add: sha1_W.simps)
  show ?thesis unfolding sha1_schedule_def s
    by (subst fill_array_map) (simp_all add: sha1_W.simps[of p] Let_def rol_rotl)
qed

lemma sha256_schedule_W: "sha256_schedule p = map (sha256_W p) [0..<64]"
proof -
  have s: "map (\<lambda>t. be32_at p (4 * t)) [0..<16] = map (sha256_W p) [0..<16]" by (simp add: sha256_W.simps)
  show ?thesis unfolding sha256_schedule_def s
    by (subst fill_array_map) (simp_all add: sha256_W.simps[of p] Let_def ror_rotr shr_def add_ac)
qed

lemma sha1_round_step: "t < 80 \<Longrightarrow> sha1_round (map (sha1_W p) [0..<80]) t x = sha1_step p t x"
  by (cases x) (simp add: sha1_round_def sha1_step_def Let_def rol_rotl Ch_code Maj_code sha1_f_def sha1_K_def algebra_simps)

lemma sha256_round_step: "t < 64 \<Longrightarrow> sha256_round (map (sha256_W p) [0..<64]) t x = sha256_step p t x"
  by (cases x) (simp add: sha256_round_def sha256_step_def Let_def ror_rotr sha_Ch_def sha_Maj_def algebra_simps)

lemma list_8: "length s = 8 \<Longrightarrow> s = [s ! 0, s ! 1, s ! 2, s ! 3, s ! 4, s ! 5, s ! 6, s ! 7]"
  by (rule nth_equalityI) (auto simp: less_Suc_eq numeral_eq_Suc)

lemma SHA1_Transform_block:
  assumes "length (hc_state c) = 8"
  shows "SHA1_Transform c = c\<lparr>hc_state := sha1_block (hc_state c) (hc_buf c)\<rparr>"
proof -
  have "fold (sha1_round (sha1_schedule (hc_buf c))) [0..<80] x = fold (sha1_step (hc_buf c)) [0..<80] x" for x
    by (rule fold_cong) (auto simp: sha1_schedule_W sha1_round_step)
  moreover obtain a0 a1 a2 a3 a4 a5 a6 a7 where "hc_state c = [a0, a1, a2, a3, a4, a5, a6, a7]"
    using list_8[OF assms] by blast
  ultimately show ?thesis by (simp add: SHA1_Transform_def sha1_block_def Let_def split_beta)
qed

lemma SHA256_Transform_block:
  assumes "length (hc_state c) = 8"
  shows "SHA256_Transform c = c\<lparr>hc_state := sha256_block (hc_state c) (hc_buf c)\<rparr>"
proof -
  have "fold (sha256_round (sha256_schedule (hc_buf c))) [0..<64] x = fold (sha256_step (hc_buf c)) [0..<64] x" for x
    by (rule fold_cong) (auto simp: sha256_schedule_W sha256_round_step)
  moreover obtain a0 a1 a2 a3 a4 a5 a6 a7 where "hc_state c = [a0, a1, a2, a3, a4, a5, a6, a7]"
    using list_8[OF assms] by blast
  ultimately show ?thesis by (simp add: SHA256_Transform_def sha256_block_def Let_def split_beta)
qed

interpretation sha1: block_hash SHA_VTAB sha1_block
  by unfold_locales (simp_all add: SHA1_Transform_block, simp add: sha1_block_def split_beta Let_def)

interpretation sha256: block_hash SHA256_VTAB sha256_block
  by unfold_locales (simp_all add: SHA256_Transform_block, simp add: sha256_block_def split_beta Let_def)

text \<open>Three words of the state are not used by SHA-1.\<close>

lemma sha1_block_append: "length s = 5 \<Longrightarrow> sha1_block (s @ x) p = sha1_block s p @ x"
  by (simp add: sha1_block_def split_beta Let_def nth_append)

lemma sha1_absorbed_append:
  "length iv = 5 \<Longrightarrow> absorbed sha1_block (iv @ x) m = absorbed sha1_block iv m @ x \<and> length (absorbed sha1_block iv m) = 5"
proof -
  have "length s = 5 \<Longrightarrow> foldl sha1_block (s @ x) bs = foldl sha1_block s bs @ x \<and> length (foldl sha1_block s bs) = 5" for s bs
  proof (induction bs arbitrary: s)
    case (Cons b bs)
    have "length (sha1_block s b) = 5" using Cons.prems by (simp add: sha1_block_def split_beta Let_def)
    then show ?case using Cons.IH[of "sha1_block s b"] Cons.prems by (simp add: sha1_block_append)
  qed simp
  then show "length iv = 5 \<Longrightarrow> ?thesis" by (simp add: absorbed_def)
qed

lemma holds_init:
  assumes "ctx_ok c"
  shows "holds sha1_block (sha1_iv @ drop 5 (hc_state c)) (SHA_init c) []"
    and "holds sha256_block sha256_iv (SHA256_init c) []"
proof -
  obtain a0 a1 a2 a3 a4 a5 a6 a7 where s: "hc_state c = [a0, a1, a2, a3, a4, a5, a6, a7]"
    using list_8[of "hc_state c"] assms unfolding ctx_ok_def by blast
  show "holds sha1_block (sha1_iv @ drop 5 (hc_state c)) (SHA_init c) []"
    using assms s by (simp add: holds_def fed_def ctx_ok_def SHA_init_def sha1_iv_def absorbed_def blocks_of.simps)
  show "holds sha256_block sha256_iv (SHA256_init c) []"
    using assms s by (simp add: holds_def fed_def ctx_ok_def SHA256_init_def sha256_iv_def absorbed_def blocks_of.simps)
qed

lemma SHA_final_digest:
  assumes "holds sha1_block (sha1_iv @ x) c m" "length x = 3"
  shows "take SHA_DIGEST_SIZE (fst (SHA_final c)) = sha1_digest m"
  using sha1.final_buf[OF assms(1), of 5] sha1_absorbed_append[of sha1_iv x "sha_padded m"]
  by (simp add: SHA_final_def SHA_DIGEST_SIZE_def sha1_digest_def sha1_iv_def Let_def)

lemma SHA256_final_digest:
  assumes "holds sha256_block sha256_iv c m"
  shows "take SHA256_DIGEST_SIZE (fst (SHA256_final c)) = sha256_digest m"
proof -
  have "length (absorbed sha256_block sha256_iv k) = 8" for k
  proof -
    have "length s = 8 \<Longrightarrow> length (foldl sha256_block s bs) = 8" for s bs
      by (induction bs arbitrary: s) (simp_all add: sha256.compress_length)
    then show ?thesis by (simp add: absorbed_def sha256_iv_def)
  qed
  then show ?thesis using sha256.final_buf[OF assms, of 8]
    by (simp add: SHA256_final_def SHA256_DIGEST_SIZE_def sha256_digest_def Let_def)
qed

lemma SHA_update_fold:
  "holds sha1_block (sha1_iv @ x) c m \<Longrightarrow> holds sha1_block (sha1_iv @ x) (foldl SHA_update c ps) (m @ concat ps)"
proof (induction ps arbitrary: c m)
  case (Cons p ps)
  show ?case using Cons.IH[OF sha1.update_holds[OF Cons.prems, of p]] by (simp add: SHA_update_def)
qed simp

lemma SHA256_update_fold:
  "holds sha256_block sha256_iv c m \<Longrightarrow> holds sha256_block sha256_iv (foldl SHA256_update c ps) (m @ concat ps)"
proof (induction ps arbitrary: c m)
  case (Cons p ps)
  show ?case using Cons.IH[OF sha256.update_holds[OF Cons.prems, of p]] by (simp add: SHA256_update_def)
qed simp

lemma SHA_stream:
  assumes "ctx_ok ctx"
  shows "take SHA_DIGEST_SIZE (fst (SHA_final (foldl SHA_update (SHA_init ctx) ps))) = sha1_digest (concat ps)"
proof -
  have "length (drop 5 (hc_state ctx)) = 3" using assms by (simp add: ctx_ok_def)
  from SHA_final_digest[OF SHA_update_fold[OF holds_init(1)[OF assms]] this, of ps] show ?thesis by simp
qed

lemma SHA256_stream:
  assumes "ctx_ok ctx"
  shows "take SHA256_DIGEST_SIZE (fst (SHA256_final (foldl SHA256_update (SHA256_init ctx) ps))) = sha256_digest (concat ps)"
  using SHA256_final_digest[OF SHA256_update_fold[OF holds_init(2)[OF assms]], of ps] by simp

lemma SHA_hash_digest: "ctx_ok ctx \<Longrightarrow> SHA_hash ctx data = sha1_digest data"
  using SHA_stream[of ctx "[data]"] by (simp add: SHA_hash_def)

lemma SHA256_hash_digest: "ctx_ok ctx \<Longrightarrow> SHA256_hash ctx data = sha256_digest data"
  using SHA256_stream[of ctx "[data]"] by (simp add: SHA256_hash_def)

section \<open>Theorems\<close>

text \<open>C9: SHA-1 of the library is SHA-1 of FIPS 180-4, whatever was in the context before and however the
  message is cut into updates; padding ends after less than a block, and the one-call function
  gives the same digest.\<close>

theorem SHA_correct:
  assumes "ctx_ok ctx"
  shows "take SHA_DIGEST_SIZE (fst (SHA_final (foldl SHA_update (SHA_init ctx) ps))) = sha1_digest (concat ps) \<and>
     SHA_hash ctx data = sha1_digest data"
  using SHA_stream[OF assms] SHA_hash_digest[OF assms] by simp

theorem SHA_correct_witness:
  "SHA_hash zero_ctx [97, 98, 99] = sha1_digest [97, 98, 99] \<and>
   take SHA_DIGEST_SIZE (fst (SHA_final (SHA_update (SHA_update (SHA_init zero_ctx) [97]) [98, 99]))) = sha1_digest [97, 98, 99]"
  using SHA_correct[of zero_ctx "[[97], [98, 99]]" "[97, 98, 99]"] by (simp add: ctx_ok_def zero_ctx_def)



end
