(* ===== verification/Mincrypt_Num.thy ===== *)
theory Mincrypt_Num
  imports Mincrypt_Sha
begin

text \<open>
  Numbers as arrays of 32 bit words, lowest word first, as \<^verbatim>\<open>rsa.c\<close> and \<^verbatim>\<open>p256.c\<close> of the small
  crypto library have them: the value of an array, one step of a subtraction with borrow, and
  the conversion from and to big-endian bytes.
\<close>

section \<open>Values\<close>

fun num :: "u32 list \<Rightarrow> nat" where
  "num [] = 0"
| "num (w # ws) = unat w + 2 ^ 32 * num ws"

text \<open>The borrow is 0 or -1.\<close>

definition borrow :: "bool \<Rightarrow> u64" where
  "borrow b = (if b then - 1 else 0)"

definition words_of_bytes :: "nat \<Rightarrow> u8 list \<Rightarrow> u32 list" where
  "words_of_bytes len inout = map (\<lambda>i. be32_at inout ((len - 1 - i) * 4)) [0..<len]"

section \<open>Lemmas\<close>

lemma num_append: "num (a @ b) = num a + 2 ^ (32 * length a) * num b"
  by (induction a) (simp_all add: power_add algebra_simps)

lemma num_less: "num a < 2 ^ (32 * length a)"
proof (induction a)
  case (Cons w a)
  have "unat w + 2 ^ 32 * num a < 2 ^ 32 * (num a + 1)" using unat_u32_less[of w] by simp
  also have "\<dots> \<le> 2 ^ 32 * 2 ^ (32 * length a)" using Cons by (intro mult_le_mono) simp_all
  finally show ?case by (simp add: power_add)
qed simp

lemma num_zeros: "num (replicate k 0) = 0"
  by (induction k) simp_all

lemma diff_bounds:
  fixes x m :: u32
  shows "- 4294967296 \<le> int (unat x) - int (unat m) - of_bool b \<and> int (unat x) - int (unat m) - of_bool b < 4294967296"
proof -
  have "0 \<le> (of_bool b :: int)" "(of_bool b :: int) \<le> 1" by simp_all
  then show ?thesis using unat_u32_less[of x] unat_u32_less[of m] by linarith
qed

lemma sub_step:
  fixes x m :: u32 and b :: bool
  defines "A \<equiv> borrow b + (ucast x - ucast m)"
  shows "int (unat (ucast A :: u32)) = (int (unat x) - int (unat m) - of_bool b) mod 2 ^ 32"
    and "signed_drop_bit 32 A = borrow (int (unat x) - int (unat m) - of_bool b < 0)"
proof -
  define d where "d = int (unat x) - int (unat m) - of_bool b"
  have A: "A = word_of_int d"
    unfolding d_def by (simp add: A_def borrow_def word_of_int_uint)
  have d: "- 4294967296 \<le> d" "d < 4294967296"
    unfolding d_def using diff_bounds[of x m b] by simp_all
  have "uint (ucast A :: u32) = uint A mod 2 ^ 32" by (simp add: unsigned_ucast_eq take_bit_eq_mod)
  also have "uint A = d mod 2 ^ 64" unfolding A uint_word_of_int by simp
  also have "d mod 2 ^ 64 mod 2 ^ 32 = d mod 2 ^ 32" by (rule mod_mod_cancel) simp
  finally show "int (unat (ucast A :: u32)) = (int (unat x) - int (unat m) - of_bool b) mod 2 ^ 32"
    unfolding d_def[symmetric] by (simp only: of_nat_unat ucast_id)
  have "signed_take_bit 63 d = d" using d by (intro signed_take_bit_int_eq_self) simp_all
  then have "sint A = d" unfolding A sint_sbintrunc' by simp
  then have "sint (signed_drop_bit 32 A) = d div 2 ^ 32"
    by (simp add: sint_signed_drop_bit_eq drop_bit_eq_div)
  also have "\<dots> = sint (borrow (d < 0))"
  proof (cases "d < 0")
    case True
    have "(d + 4294967296) div 4294967296 = 0" using True d by (intro div_pos_pos_trivial) simp_all
    then show ?thesis using True by (simp add: borrow_def)
  next
    case False
    then show ?thesis using d by (simp add: borrow_def)
  qed
  finally show "signed_drop_bit 32 A = borrow (int (unat x) - int (unat m) - of_bool b < 0)"
    unfolding d_def[symmetric] by (rule signed_word_eqI)
qed

lemma num_top_less:
  assumes "length xs = length ys" "unat x < unat y"
  shows "num (xs @ [x]) < num (ys @ [y])"
proof -
  define K where "K = (2 :: nat) ^ (32 * length ys)"
  have "num xs < K" using num_less[of xs] assms(1) by (simp add: K_def)
  then have "num xs + K * unat x < K * (unat x + 1)" by simp
  also have "\<dots> \<le> K * unat y" using assms(2) by (intro mult_le_mono) simp_all
  finally show ?thesis using assms(1) by (simp add: num_append K_def)
qed

lemma be_val_be32: "be_val (be32 w) = unat w"
proof -
  define n where "n = unat w"
  have n: "n < 4294967296" unfolding n_def by (rule unat_u32_less)
  define q1 q2 q3 where "q1 = n div 256" and "q2 = q1 div 256" and "q3 = q2 div 256"
  have q: "n div 65536 = q2" "n div 16777216 = q3" by (simp_all add: q1_def q2_def q3_def flip: div_mult2_eq)
  have low: "unat (ucast v :: u8) = unat v mod 256" for v :: u32 by (simp add: unsigned_ucast_eq take_bit_eq_mod)
  have d: "unat (drop_bit 24 w) = q3" "unat (drop_bit 16 w) = q2" "unat (drop_bit 8 w) = q1"
    by (simp_all add: drop_bit_eq_div unat_div_distrib q n_def[symmetric] q1_def)
  have "be_val (be32 w) = ((q3 mod 256 * 256 + q2 mod 256) * 256 + q1 mod 256) * 256 + n mod 256"
    by (simp add: be_val_def be32_def low d n_def)
  also have "q3 mod 256 = q3" using n by (intro mod_less) (simp add: q(2)[symmetric])
  also have "q3 * 256 + q2 mod 256 = q2" unfolding q3_def by (rule div_mult_mod_eq)
  also have "q2 * 256 + q1 mod 256 = q1" unfolding q2_def by (rule div_mult_mod_eq)
  also have "q1 * 256 + n mod 256 = n" unfolding q1_def by (rule div_mult_mod_eq)
  finally show ?thesis by (simp add: n_def)
qed

lemma be32_be32_at: "i + 3 < length b \<Longrightarrow> be32 (be32_at b i) = take 4 (drop i b)"
proof -
  assume i: "i + 3 < length b"
  have "take 4 (drop i b) = [b ! i, b ! (i + 1), b ! (i + 2), b ! (i + 3)]"
    using i by (intro nth_equalityI) (auto simp: less_Suc_eq numeral_eq_Suc)
  moreover have "ucast (drop_bit 24 (be32_at b i)) = b ! i" "ucast (drop_bit 16 (be32_at b i)) = b ! (i + 1)"
    "ucast (drop_bit 8 (be32_at b i)) = b ! (i + 2)" "ucast (be32_at b i) = b ! (i + 3)"
    by (rule bit_word_eqI; auto simp: be32_at_def bit_simps dest: bit_imp_le_length)+
  ultimately show ?thesis by (simp add: be32_def)
qed

lemma words_of_bytes_Suc:
  "length f = 4 \<Longrightarrow> words_of_bytes (Suc l) (f @ r) = words_of_bytes l r @ [be32_at f 0]"
proof -
  assume f: "length f = 4"
  have at: "be32_at (f @ r) ((l - i) * 4) = be32_at r ((l - 1 - i) * 4)" if "i < l" for i
  proof -
    have "(l - i) * 4 = 4 + (l - 1 - i) * 4" using that by simp
    then show ?thesis using f by (simp add: be32_at_def nth_append add.commute)
  qed
  have "be32_at (f @ r) 0 = be32_at f 0" using f by (simp add: be32_at_def nth_append)
  then show ?thesis using at by (simp add: words_of_bytes_def)
qed

lemma num_words_of_bytes: "length b = 4 * l \<Longrightarrow> num (words_of_bytes l b) = be_val b \<and> length (words_of_bytes l b) = l"
proof (induction l arbitrary: b)
  case (Suc l)
  have f: "length (take 4 b) = 4" and r: "length (drop 4 b) = 4 * l" using Suc.prems by simp_all
  have w: "words_of_bytes (Suc l) b = words_of_bytes l (drop 4 b) @ [be32_at (take 4 b) 0]"
    using words_of_bytes_Suc[OF f, of l "drop 4 b"] by simp
  have "be_val (take 4 b) = unat (be32_at (take 4 b) 0)"
    using be_val_be32[of "be32_at (take 4 b) 0"] be32_be32_at[of 0 "take 4 b"] f by simp
  moreover have "be_val b = be_val (take 4 b) * 256 ^ (4 * l) + be_val (drop 4 b)"
    using be_val_append[of "take 4 b" "drop 4 b"] r by simp
  moreover have "(256 :: nat) ^ (4 * l) = 2 ^ (32 * l)" by (simp add: power_mult)
  ultimately show ?case using Suc.IH[OF r] unfolding w by (simp add: num_append)
qed (simp add: words_of_bytes_def be_val_def)

lemma be_val_words: "be_val (concat (map be32 (rev ws))) = num ws"
proof (induction ws)
  case (Cons w ws)
  show ?case using Cons by (simp add: be_val_append be_val_be32) (simp add: be32_def)
qed (simp add: be_val_def)

end
