(* ===== verification/Mincrypt_Rsa.thy ===== *)
theory Mincrypt_Rsa
  imports Mincrypt_Sha Mincrypt_Num
begin

text \<open>
  Verification of RSA signatures, \<^verbatim>\<open>system/core/libmincrypt/rsa.c\<close>: Montgomery multiplication on
  arrays of 32 bit words, exponentiation by 3 or 65537, and the comparison of the padding by
  its hash. Arrays are lists, little-endian as in the code. The arrays a call writes are never
  the ones it reads.
\<close>

definition RSANUMBYTES :: nat where "RSANUMBYTES = 256"

definition RSANUMWORDS :: nat where "RSANUMWORDS = 64"

record RSAPublicKey =
  rsa_len :: int
  n0inv :: u32
  rsa_n :: "u32 list"
  rsa_rr :: "u32 list"
  exponent :: int

section \<open>Arithmetic modulo the key\<close>

fun subM_loop :: "u64 \<Rightarrow> u32 list \<Rightarrow> u32 list \<Rightarrow> u32 list" where
  "subM_loop A (x # a) (m # n) =
     (let A1 = A + (ucast x - ucast m) in ucast A1 # subM_loop (signed_drop_bit 32 A1) a n)"
| "subM_loop A _ _ = []"

definition subM :: "RSAPublicKey \<Rightarrow> u32 list \<Rightarrow> u32 list" where
  "subM key a =
     (let len = nat (rsa_len key) in subM_loop 0 (take len a) (take len (rsa_n key)) @ drop len a)"

text \<open>From the highest word down.\<close>

fun geM_loop :: "u32 list \<Rightarrow> u32 list \<Rightarrow> bool" where
  "geM_loop (x # a) (m # n) = (if x < m then False else if x > m then True else geM_loop a n)"
| "geM_loop _ _ = True"

definition geM :: "RSAPublicKey \<Rightarrow> u32 list \<Rightarrow> bool" where
  "geM key a =
     (let len = nat (rsa_len key) in geM_loop (rev (take len a)) (rev (take len (rsa_n key))))"

fun montMulAdd_loop :: "u32 \<Rightarrow> u32 \<Rightarrow> u64 \<Rightarrow> u64 \<Rightarrow> u32 list \<Rightarrow> u32 list \<Rightarrow> u32 list \<Rightarrow> u32 list \<times> u64 \<times> u64" where
  "montMulAdd_loop a d0 A B (b # bs) (c # cs) (n # ns) =
     (let A1 = drop_bit 32 A + ucast a * ucast b + ucast c;
          B1 = drop_bit 32 B + ucast d0 * ucast n + ucast (ucast A1 :: u32);
          (out, A2, B2) = montMulAdd_loop a d0 A1 B1 bs cs ns
      in (ucast B1 # out, A2, B2))"
| "montMulAdd_loop a d0 A B _ _ _ = ([], A, B)"

definition montMulAdd :: "RSAPublicKey \<Rightarrow> u32 list \<Rightarrow> u32 \<Rightarrow> u32 list \<Rightarrow> u32 list" where
  "montMulAdd key c a b =
     (let len = nat (rsa_len key);
          A = ucast a * ucast (b ! 0) + ucast (c ! 0);
          d0 = ucast A * n0inv key;
          B = ucast d0 * ucast (rsa_n key ! 0) + ucast (ucast A :: u32);
          (out, A1, B1) = montMulAdd_loop a d0 A B (tl (take len b)) (tl (take len c)) (tl (take len (rsa_n key)));
          A2 = drop_bit 32 A1 + drop_bit 32 B1;
          c1 = out @ [ucast A2] @ drop len c
      in if drop_bit 32 A2 \<noteq> 0 then subM key c1 else c1)"

definition montMul :: "RSAPublicKey \<Rightarrow> u32 list \<Rightarrow> u32 list \<Rightarrow> u32 list \<Rightarrow> u32 list" where
  "montMul key c a b =
     (let len = nat (rsa_len key)
      in fold (\<lambda>x c. montMulAdd key c x b) (take len a) (replicate len 0 @ drop len c))"

text \<open>
  The three local arrays start with unspecified values, \<open>aR0\<close> and \<open>aaR0\<close>; with another
  exponent the pointer to the result stays null.
\<close>

definition modpow_words :: "RSAPublicKey \<Rightarrow> u32 list \<Rightarrow> u32 list \<Rightarrow> u32 list \<Rightarrow> u32 list comp" where
  "modpow_words key aR0 aaR0 a =
     (if exponent key = 65537
      then let aR = montMul key aR0 a (rsa_rr key);
               (aR1, aaR1) = ((\<lambda>(x, y). let y1 = montMul key y x x in (montMul key x y1 y1, y1)) ^^ 8) (aR, aaR0)
           in Inr (montMul key aaR1 aR1 a)
      else if exponent key = 3
      then let aR = montMul key aR0 a (rsa_rr key);
               aaR = montMul key aaR0 aR aR
           in Inr (montMul key aR aaR a)
      else Inl Null_Dereference)"

definition modpow :: "RSAPublicKey \<Rightarrow> u32 list \<Rightarrow> u32 list \<Rightarrow> u8 list \<Rightarrow> u8 list comp" where
  "modpow key aR0 aaR0 inout =
     (let len = nat (rsa_len key)
      in bindC (modpow_words key aR0 aaR0 (words_of_bytes len inout)) (\<lambda>aaa.
         let aaa1 = (if geM key aaa then subM key aaa else aaa)
         in Inr (concat (map be32 (rev (take len aaa1))) @ drop (4 * len) inout)))"

section \<open>Verification\<close>

definition kExpectedPadShaRsa2048 :: "u8 list" where
  "kExpectedPadShaRsa2048 =
     [0xdc, 0xbd, 0xbe, 0x42, 0xd5, 0xf5, 0xa7, 0x2e,
      0x6e, 0xfc, 0xf5, 0x5d, 0xaf, 0x9d, 0xea, 0x68,
      0x7c, 0xfb, 0xf1, 0x67]"

definition kExpectedPadSha256Rsa2048 :: "u8 list" where
  "kExpectedPadSha256Rsa2048 =
     [0xab, 0x28, 0x8d, 0x8a, 0xd7, 0xd9, 0x59, 0x92,
      0xba, 0xcc, 0xf8, 0x67, 0x20, 0xe1, 0x15, 0x2e,
      0x39, 0x8d, 0x80, 0x36, 0xd6, 0x6f, 0xf0, 0xfd,
      0x90, 0xe8, 0x7d, 0x8b, 0xe1, 0x7c, 0x87, 0x59]"

text \<open>
  The two paddings that are in comments of the source: behind the fill bytes, a sequence with the
  algorithm (its object identifier and a null) and the head of the string that holds the hash.
\<close>

definition sha_padding :: "u8 list" where
  "sha_padding =
     [0x00, 0x01] @ replicate 218 0xff @
     [0x00, 0x30, 0x21] @ [0x30, 0x09] @ [0x06, 0x05] @ [0x2b, 0x0e, 0x03, 0x02, 0x1a] @ [0x05, 0x00] @ [0x04, 0x14]"

definition sha256_padding :: "u8 list" where
  "sha256_padding =
     [0x00, 0x01] @ replicate 202 0xff @
     [0x00, 0x30, 0x31] @ [0x30, 0x0d] @ [0x06, 0x09] @ [0x60, 0x86, 0x48, 0x01] @ [0x65, 0x03, 0x04, 0x02, 0x01] @
     [0x05, 0x00] @ [0x04, 0x20]"

definition xor_tail :: "u8 list \<Rightarrow> u8 list \<Rightarrow> u8 list" where
  "xor_tail buf hash =
     (let k = length buf - length hash in take k buf @ map2 (XOR) (drop k buf) hash)"

text \<open>
  \<open>ctx\<close>, \<open>aR0\<close> and \<open>aaR0\<close> are the uninitialised locals. The lengths of the signature and of
  the hash are those of the lists.
\<close>

definition RSA_verify ::
    "HASH_CTX \<Rightarrow> u32 list \<Rightarrow> u32 list \<Rightarrow> RSAPublicKey \<Rightarrow> u8 list \<Rightarrow> u8 list \<Rightarrow> int comp" where
  "RSA_verify ctx aR0 aaR0 key signature hash =
     (if rsa_len key \<noteq> int RSANUMWORDS then Inr 0
      else if length signature \<noteq> RSANUMBYTES then Inr 0
      else if length hash \<noteq> SHA_DIGEST_SIZE \<and> length hash \<noteq> SHA256_DIGEST_SIZE then Inr 0
      else if exponent key \<noteq> 3 \<and> exponent key \<noteq> 65537 then Inr 0
      else bindC (modpow key aR0 aaR0 signature) (\<lambda>buf.
        let buf1 = xor_tail buf hash
        in if length hash = SHA_DIGEST_SIZE
           then Inr (if SHA_hash ctx buf1 = kExpectedPadShaRsa2048 then 1 else 0)
           else Inr (if SHA256_hash ctx buf1 = kExpectedPadSha256Rsa2048 then 1 else 0)))"

section \<open>Montgomery multiplication\<close>

definition radix :: "RSAPublicKey \<Rightarrow> nat" where
  "radix key = 2 ^ (32 * nat (rsa_len key))"

text \<open>
  A key as its generator makes it: the lengths of the arrays, the two precomputed values, and
  a modulus with its highest bit set.
\<close>

definition key_ok :: "RSAPublicKey \<Rightarrow> bool" where
  "key_ok key \<longleftrightarrow>
     0 < rsa_len key \<and> length (rsa_n key) = nat (rsa_len key) \<and> length (rsa_rr key) = nat (rsa_len key) \<and>
     n0inv key * rsa_n key ! 0 = - 1 \<and>
     num (rsa_rr key) mod num (rsa_n key) = (radix key * radix key) mod num (rsa_n key) \<and>
     radix key \<le> 2 * num (rsa_n key)"

definition number_of :: "RSAPublicKey \<Rightarrow> u32 list \<Rightarrow> bool" where
  "number_of key a \<longleftrightarrow> length a = nat (rsa_len key)"

text \<open>\<open>x\<close> is the Montgomery form of the \<open>k\<close>-th power of \<open>a\<close>.\<close>

definition mont_pow :: "RSAPublicKey \<Rightarrow> nat \<Rightarrow> nat \<Rightarrow> u32 list \<Rightarrow> bool" where
  "mont_pow key a k x \<longleftrightarrow> number_of key x \<and> num x mod num (rsa_n key) = (radix key * a ^ k) mod num (rsa_n key)"

text \<open>A key with the largest modulus of its length, for the examples.\<close>

definition sample_key :: RSAPublicKey where
  "sample_key = \<lparr>rsa_len = 64, n0inv = 1, rsa_n = replicate 64 0xffffffff, rsa_rr = 1 # replicate 63 0, exponent = 3\<rparr>"

section \<open>Subtraction and comparison\<close>

text \<open>Subtraction of numbers of the same length, modulo the power of the base.\<close>

lemma subM_loop_num:
  "length a = length n \<Longrightarrow>
     int (num (subM_loop (borrow b) a n)) = (int (num a) - int (num n) - of_bool b) mod 2 ^ (32 * length n) \<and>
     length (subM_loop (borrow b) a n) = length n"
proof (induction a n arbitrary: b rule: list_induct2)
  case (Cons x a m n)
  define d where "d = int (unat x) - int (unat m) - of_bool b"
  define B K where "B = (2 ^ 32 :: int)" and "K = (2 ^ (32 * length n) :: int)"
  define r where "r = int (num a) - int (num n) - of_bool (d < 0)"
  have bd: "- B \<le> d" "d < B" "0 < B"
    unfolding d_def B_def using diff_bounds[of x m b] by simp_all
  have dm: "d mod B = d + of_bool (d < 0) * B"
  proof (cases "d < 0")
    case True
    have "(d + B) mod B = d + B" using bd True by (intro mod_pos_pos_trivial) simp_all
    then show ?thesis using True by simp
  qed (use bd in simp)
  note st = sub_step[where b = b and x = x and m = m, folded d_def B_def]
  have "int (num (subM_loop (borrow b) (x # a) (m # n))) = d mod B + B * (r mod K)"
    using Cons.IH[of "d < 0"] st unfolding r_def K_def by (simp add: Let_def B_def)
  also have "\<dots> = (d mod B + B * r) mod (B * K)"
    using zmod_zmult2_eq[of K "d mod B + B * r" B] bd(3) by (simp add: K_def)
  also have "d mod B + B * r = int (num (x # a)) - int (num (m # n)) - of_bool b"
    unfolding dm r_def by (simp add: d_def B_def algebra_simps)
  finally have "int (num (subM_loop (borrow b) (x # a) (m # n))) =
      (int (num (x # a)) - int (num (m # n)) - of_bool b) mod (B * K)" .
  moreover have "B * K = 2 ^ (32 * length (m # n))" by (simp add: B_def K_def power_add)
  ultimately show ?case using Cons.IH[of "d < 0"] st(2) by (simp add: Let_def)
qed simp

lemma geM_loop_num:
  "length a = length n \<Longrightarrow> geM_loop (rev a) (rev n) = (num a \<ge> num n)"
proof (induction a n rule: rev_induct2)
  case (4 x xs y ys)
  have l: "length xs = length ys" using 4(2) by simp
  consider "unat x < unat y" | "unat y < unat x" | "x = y"
    by (metis linorder_neqE_nat word_unat_eq_iff)
  then show ?case
  proof cases
    case 1
    then show ?thesis using num_top_less[OF l 1] by (simp add: word_less_nat_alt)
  next
    case 2
    then show ?thesis using num_top_less[OF l[symmetric] 2] by (simp add: word_less_nat_alt)
  next
    case 3
    then show ?thesis using 4(1)[OF l] l by (simp add: num_append)
  qed
qed simp_all

lemma mul_add_loop:
  assumes "length bs = length cs" "length ns = length cs" "montMulAdd_loop a d0 A B bs cs ns = (out, A', B')"
  shows "length out = length cs \<and>
     unat A div 2 ^ 32 + unat B div 2 ^ 32 + unat a * num bs + num cs + unat d0 * num ns =
       num out + 2 ^ (32 * length cs) * (unat A' div 2 ^ 32 + unat B' div 2 ^ 32)"
  using assms
proof (induction a d0 A B bs cs ns arbitrary: out A' B' rule: montMulAdd_loop.induct)
  case (1 a d0 A B b bs c cs n ns)
  define A1 where "A1 = drop_bit 32 A + ucast a * ucast b + ucast c"
  define B1 where "B1 = drop_bit 32 B + ucast d0 * ucast n + ucast (ucast A1 :: u32)"
  obtain o1 where o1: "montMulAdd_loop a d0 A1 B1 bs cs ns = (o1, A', B')" "out = ucast B1 # o1"
    using "1.prems"(3) by (auto simp: Let_def A1_def B1_def split: prod.splits)
  define W where "W = (2 ^ 32 :: nat)"
  define K where "K = (2 ^ (32 * length cs) :: nat)"
  have uA: "unat A1 = unat A div W + unat a * unat b + unat c"
    unfolding A1_def W_def by (subst unat_mul_add) (simp_all only: unat_hi hi_less)
  have uB: "unat B1 = unat B div W + unat d0 * unat n + unat A1 mod W"
    unfolding B1_def W_def by (subst unat_mul_add) (simp_all only: unat_hi hi_less unat_lo)
  have sA: "unat A1 = W * (unat A1 div W) + unat A1 mod W" and sB: "unat B1 = W * (unat B1 div W) + unat B1 mod W"
    by simp_all
  have ih: "length o1 = length cs \<and> unat A1 div W + unat B1 div W + unat a * num bs + num cs + unat d0 * num ns =
      num o1 + K * (unat A' div W + unat B' div W)"
    using "1.IH"[OF A1_def B1_def _ _ o1(1)] "1.prems"(1,2) unfolding W_def K_def by simp
  have low: "unat (ucast B1 :: u32) = unat B1 mod W" unfolding W_def by (rule unat_lo)
  have "unat A div W + unat B div W + unat a * (unat b + W * num bs) + (unat c + W * num cs) + unat d0 * (unat n + W * num ns)
      = unat A1 + (unat B1 - unat A1 mod W) + W * (unat a * num bs + num cs + unat d0 * num ns)"
    using uA uB by (simp add: algebra_simps)
  also have "\<dots> = unat B1 mod W + W * (unat A1 div W + unat B1 div W + unat a * num bs + num cs + unat d0 * num ns)"
  proof -
    have "unat A1 mod W \<le> unat B1" unfolding uB by simp
    then have "unat A1 + (unat B1 - unat A1 mod W) = W * (unat A1 div W) + (W * (unat B1 div W) + unat B1 mod W)"
      using sA sB by linarith
    then show ?thesis by (simp add: algebra_simps)
  qed
  also have "\<dots> = (unat B1 mod W + W * num o1) + W * K * (unat A' div W + unat B' div W)"
    using ih by (simp add: algebra_simps)
  finally show ?case
    using ih low unfolding o1(2) by (simp add: W_def K_def power_add)
qed auto

text \<open>The low word vanishes, because of the choice of the multiple of the modulus.\<close>

lemma reduction_word:
  fixes n0 ninv l :: u32
  assumes "ninv * n0 = - 1"
  shows "(unat (l * ninv) * unat n0 + unat l) mod 2 ^ 32 = 0"
proof -
  have "l * ninv * n0 + l = 0" using assms by (simp add: mult.assoc)
  then have "word_of_nat (unat (l * ninv) * unat n0 + unat l) = (0 :: u32)" by simp
  then have "unat (word_of_nat (unat (l * ninv) * unat n0 + unat l) :: u32) = 0" by (simp only: unat_0)
  then show ?thesis unfolding unat_of_nat by simp
qed

lemma montMulAdd_total:
  fixes a :: u32
  assumes k: "key_ok key" and c: "number_of key c" and b: "number_of key b"
  defines "A \<equiv> ucast a * ucast (b ! 0) + ucast (c ! 0) :: u64"
  defines "d \<equiv> ucast A * n0inv key"
  shows "\<exists>out h. length out = nat (rsa_len key) \<and> h \<le> 1 \<and>
     montMulAdd key c a b = (if h = 0 then out else subM key out) \<and>
     2 ^ 32 * (num out + radix key * h) = num c + unat a * num b + unat d * num (rsa_n key)"
proof -
  obtain l where l: "nat (rsa_len key) = Suc l" using k by (cases "nat (rsa_len key)") (auto simp: key_ok_def)
  obtain b0 bs where bb: "b = b0 # bs" "length bs = l" using b l by (cases b) (auto simp: number_of_def)
  obtain c0 cs where cc: "c = c0 # cs" "length cs = l" using c l by (cases c) (auto simp: number_of_def)
  obtain n0 ns where nn: "rsa_n key = n0 # ns" "length ns = l" using k l by (cases "rsa_n key") (auto simp: key_ok_def)
  have inv: "n0inv key * n0 = - 1" using k nn by (simp add: key_ok_def)
  define W where "W = (2 ^ 32 :: nat)"
  define B :: u64 where "B = ucast d * ucast n0 + ucast (ucast A :: u32)"
  obtain out A' B' where lp: "montMulAdd_loop a d A B bs cs ns = (out, A', B')" by (metis surj_pair)
  define T where "T = drop_bit 32 A' + drop_bit 32 B'"
  have uA: "unat A = unat a * unat b0 + unat c0"
    using unat_mul_add[of 0 a b0 c0] by (simp add: A_def bb cc)
  have uB: "unat B = unat d * unat n0 + unat A mod W"
    using unat_mul_add[of 0 d n0 "ucast A"] by (simp add: B_def unat_lo W_def)
  have "unat B mod W = 0"
    using reduction_word[OF inv, of "ucast A"] unfolding uB unat_lo W_def d_def by simp
  then have sB: "unat B = W * (unat B div W)" by (metis add.right_neutral mult_div_mod_eq)
  have hT: "unat T = unat A' div W + unat B' div W"
    unfolding T_def unat_word_ariths(1) unat_hi W_def using hi_less[of A'] hi_less[of B'] by (intro mod_less) simp
  note lpe = mul_add_loop[OF _ _ lp, unfolded bb(2) cc(2) nn(2), folded W_def hT]
  have low: "unat (ucast T :: u32) = unat T mod W" and hi: "unat (drop_bit 32 T) = unat T div W"
    unfolding W_def by (simp_all only: unat_lo unat_hi)
  have "unat T < 2 * W" unfolding hT W_def using hi_less[of A'] hi_less[of B'] by simp
  then have h1: "unat T div W \<le> 1" using less_mult_imp_div_less[of "unat T" 2 W] by simp
  let ?out = "out @ [ucast T]"
  have res: "montMulAdd key c a b = (if unat T div W = 0 then ?out else subM key ?out)"
    using lp l bb cc nn hi unat_eq_0[of "drop_bit 32 T"]
    by (simp add: montMulAdd_def Let_def A_def[unfolded bb cc, simplified, symmetric] d_def[symmetric] B_def[symmetric] T_def[symmetric])
  define K where "K = (2 ^ (32 * l) :: nat)"
  have R: "radix key = K * W" by (simp add: radix_def l K_def W_def power_add)
  have KT: "K * unat T = K * (W * (unat T div W)) + K * (unat T mod W)"
    unfolding add_mult_distrib2[symmetric] by (simp only: mult_div_mod_eq)
  have "num ?out + radix key * (unat T div W) = num out + K * unat T"
    unfolding KT using lpe low by (simp add: num_append R K_def)
  also have "\<dots> = unat A div W + unat B div W + unat a * num bs + num cs + unat d * num ns"
    using lpe by (simp add: K_def)
  finally have "W * (num ?out + radix key * (unat T div W)) =
      W * (unat A div W) + W * (unat B div W) + W * (unat a * num bs + num cs + unat d * num ns)"
    by (simp add: algebra_simps)
  also have "W * (unat A div W) + W * (unat B div W) = unat A + unat d * unat n0"
    using sB uB mult_div_mod_eq[of W "unat A"] by linarith
  finally have "W * (num ?out + radix key * (unat T div W)) = num c + unat a * num b + unat d * num (rsa_n key)"
    unfolding uA by (simp add: bb cc nn W_def algebra_simps)
  then show ?thesis using res h1 lpe l unfolding W_def by (intro exI[of _ ?out] exI[of _ "unat T div 2 ^ 32"]) simp
qed

lemma key_facts:
  assumes "key_ok key"
  shows "num (rsa_n key) < radix key" "0 < radix key" "0 < num (rsa_n key)"
  using assms num_less[of "rsa_n key"] by (auto simp: key_ok_def radix_def)

lemma subM_num:
  assumes k: "key_ok key" and a: "number_of key a"
  shows "number_of key (subM key a) \<and> int (num (subM key a)) = (int (num a) - int (num (rsa_n key))) mod int (radix key)"
  using subM_loop_num[of a "rsa_n key" False] k a
  by (simp add: subM_def key_ok_def number_of_def radix_def Let_def borrow_def)

lemma overflow_bound:
  fixes a b c d n out R :: nat
  assumes "c < R" "b < R" "a < 4294967296" "d < 4294967296"
    and "4294967296 * (out + R) = c + a * b + d * n"
  shows "out < n"
proof -
  define x y where "x = a * b" and "y = d * n"
  have "x \<le> 4294967295 * R" unfolding x_def using assms by (intro mult_le_mono) simp_all
  moreover have "y \<le> 4294967295 * n" unfolding y_def using assms by (intro mult_le_mono) simp_all
  moreover have "4294967296 * out + 4294967296 * R = c + x + y" using assms(5) by (simp add: x_def y_def)
  ultimately show ?thesis using assms(1) by simp
qed

lemma montMulAdd_ok:
  assumes k: "key_ok key" and c: "number_of key c" and b: "number_of key b"
  shows "number_of key (montMulAdd key c a b) \<and>
     (2 ^ 32 * num (montMulAdd key c a b)) mod num (rsa_n key) = (num c + unat a * num b) mod num (rsa_n key)"
proof -
  let ?n = "num (rsa_n key)" let ?R = "radix key" let ?W = "2 ^ 32 :: nat"
  obtain out h d where o: "length out = nat (rsa_len key)" "h \<le> 1"
    "montMulAdd key c a b = (if h = 0 then out else subM key out)"
    "?W * (num out + ?R * h) = num c + unat a * num b + unat (d :: u32) * ?n"
    using montMulAdd_total[OF k c b, of a] by (elim exE conjE) (rule that)
  have no: "number_of key out" using o(1) by (simp add: number_of_def)
  show ?thesis
  proof (cases "h = 0")
    case True
    then show ?thesis using o no by simp
  next
    case False
    then have h: "h = 1" using o(2) by simp
    have lt: "num c < ?R" "num b < ?R" "num out < ?R"
      using num_less[of c] num_less[of b] num_less[of out] c b o(1) by (simp_all add: number_of_def radix_def)
    have lo: "num out < ?n"
      using overflow_bound[OF lt(1,2) unat_u32_less[of a] unat_u32_less[of d], of "num out" ?n] o(4) h by simp
    have "(int (num out) - int ?n + int ?R) mod int ?R = int (num out) - int ?n + int ?R"
      using key_facts[OF k] lo by (intro mod_pos_pos_trivial) simp_all
    then have "(int (num out) - int ?n) mod int ?R = int (num out) - int ?n + int ?R" by simp
    then have r: "num (subM key out) + ?n = num out + ?R" using subM_num[OF k no] by linarith
    have "?W * num (subM key out) + ?W * ?n = num c + unat a * num b + unat d * ?n"
      using o(4) h unfolding add_mult_distrib2[symmetric] r by simp
    then have "(?W * num (subM key out)) mod ?n = (num c + unat a * num b) mod ?n"
      by (metis mod_mult_self3 add.commute)
    then show ?thesis using o(3) h subM_num[OF k no] by simp
  qed
qed

lemma montMul_fold:
  assumes k: "key_ok key" and b: "number_of key b"
  shows "number_of key c \<Longrightarrow> number_of key (fold (\<lambda>x c. montMulAdd key c x b) as c) \<and>
     (2 ^ (32 * length as) * num (fold (\<lambda>x c. montMulAdd key c x b) as c)) mod num (rsa_n key) =
       (num c + num as * num b) mod num (rsa_n key)"
proof (induction "as" arbitrary: c)
  case (Cons x as')
  let ?n = "num (rsa_n key)" let ?W = "2 ^ 32 :: nat"
  let ?c = "montMulAdd key c x b" let ?r = "fold (\<lambda>x c. montMulAdd key c x b) as' ?c"
  note st = montMulAdd_ok[OF k Cons.prems b, of x] note ih = Cons.IH[of ?c]
  have e: "2 ^ (32 * length (x # as')) = ?W * 2 ^ (32 * length as')" by (simp add: power_add)
  have "(?W * (2 ^ (32 * length as') * num ?r)) mod ?n = (?W * (num ?c + num as' * num b)) mod ?n"
    using ih st by (intro mod_mult_cong refl) simp
  also have "\<dots> = (?W * num ?c + ?W * (num as' * num b)) mod ?n" by (simp only: add_mult_distrib2)
  also have "\<dots> = (num c + unat x * num b + ?W * (num as' * num b)) mod ?n"
    using st by (intro mod_add_cong refl) simp
  also have "num c + unat x * num b + ?W * (num as' * num b) = num c + num (x # as') * num b"
    by (simp add: algebra_simps)
  finally show ?case using ih st unfolding e by (simp add: mult.assoc)
qed simp

lemma montMul_ok:
  assumes k: "key_ok key" and a: "number_of key a" and b: "number_of key b" and c: "number_of key c"
  shows "number_of key (montMul key c a b) \<and>
     (radix key * num (montMul key c a b)) mod num (rsa_n key) = (num a * num b) mod num (rsa_n key)"
  using montMul_fold[OF k b, of "replicate (nat (rsa_len key)) 0" a] a c
  by (simp add: montMul_def Let_def number_of_def radix_def num_zeros)

text \<open>The radix can be cancelled, because the modulus is odd.\<close>

lemma radix_cancel:
  assumes k: "key_ok key" and e: "(radix key * x) mod num (rsa_n key) = (radix key * y) mod num (rsa_n key)"
  shows "x mod num (rsa_n key) = y mod num (rsa_n key)"
proof -
  let ?n = "num (rsa_n key)"
  obtain n0 ns where nn: "rsa_n key = n0 # ns" using k by (cases "rsa_n key") (auto simp: key_ok_def)
  have "odd (unat n0)"
  proof
    assume ev: "even (unat n0)"
    define e where "e = unat (n0inv key) * unat n0"
    have "(e + 1) mod 2 ^ 32 = 0"
      using reduction_word[of "n0inv key" n0 1] k nn by (simp add: key_ok_def e_def)
    then have "2 ^ 32 dvd e + 1" by (rule mod_0_imp_dvd)
    moreover have "(2 :: nat) dvd 2 ^ 32" by (rule dvd_power) simp
    ultimately have "even (e + 1)" by (rule dvd_trans[rotated])
    then show False using ev by (simp add: e_def)
  qed
  then have "odd ?n" by (simp add: nn)
  then have cop: "coprime ?n (radix key)" by (simp add: radix_def coprime_commute)
  have "int ?n dvd int (radix key) * (int x - int y)"
  proof -
    have "int (radix key * x) mod int ?n = int (radix key * y) mod int ?n" using e by (metis of_nat_mod)
    then have "int ?n dvd int (radix key * x) - int (radix key * y)" by (simp only: mod_eq_dvd_iff)
    then show ?thesis by (simp add: right_diff_distrib)
  qed
  then have "int ?n dvd int x - int y" using cop by (simp add: coprime_dvd_mult_right_iff)
  then have "int x mod int ?n = int y mod int ?n" by (simp add: mod_eq_dvd_iff)
  then show ?thesis by (metis nat_int zmod_int)
qed

section \<open>Exponentiation\<close>

lemma mont_pow_start:
  assumes k: "key_ok key" and n: "number_of key a" "number_of key c"
  shows "mont_pow key (num a) 1 (montMul key c a (rsa_rr key))"
proof -
  let ?n = "num (rsa_n key)" let ?R = "radix key" let ?x = "montMul key c a (rsa_rr key)"
  have rr: "number_of key (rsa_rr key)" "num (rsa_rr key) mod ?n = (?R * ?R) mod ?n"
    using k by (simp_all add: key_ok_def number_of_def)
  note m = montMul_ok[OF k n(1) rr(1) n(2)]
  have "(?R * num ?x) mod ?n = (num a * (?R * ?R)) mod ?n"
    using m rr(2) mod_mult_cong[OF refl rr(2), of "num a"] by simp
  then have "(?R * num ?x) mod ?n = (?R * (?R * num a)) mod ?n" by (simp add: mult_ac)
  from radix_cancel[OF k this] m show ?thesis by (simp add: mont_pow_def)
qed

lemma mont_pow_square:
  assumes k: "key_ok key" and x: "mont_pow key a i x" and c: "number_of key c"
  shows "mont_pow key a (2 * i) (montMul key c x x)"
proof -
  let ?n = "num (rsa_n key)" let ?R = "radix key" let ?y = "montMul key c x x"
  have x': "number_of key x" "num x mod ?n = (?R * a ^ i) mod ?n" using x by (simp_all add: mont_pow_def)
  note m = montMul_ok[OF k x'(1) x'(1) c]
  have "(?R * num ?y) mod ?n = ((?R * a ^ i) * (?R * a ^ i)) mod ?n"
    using m mod_mult_cong[OF x'(2) x'(2)] by simp
  also have "(?R * a ^ i) * (?R * a ^ i) = ?R * (?R * a ^ (2 * i))"
    unfolding mult_2 power_add by (simp only: mult_ac)
  finally have e: "(?R * num ?y) mod ?n = (?R * (?R * a ^ (2 * i))) mod ?n" .
  show ?thesis using radix_cancel[OF k e] m by (simp add: mont_pow_def)
qed

lemma mont_pow_end:
  assumes k: "key_ok key" and x: "mont_pow key (num a) i x" and n: "number_of key a" "number_of key c"
  shows "number_of key (montMul key c x a) \<and>
     num (montMul key c x a) mod num (rsa_n key) = num a ^ Suc i mod num (rsa_n key)"
proof -
  let ?n = "num (rsa_n key)" let ?R = "radix key" let ?y = "montMul key c x a"
  have x': "number_of key x" "num x mod ?n = (?R * num a ^ i) mod ?n" using x by (simp_all add: mont_pow_def)
  note m = montMul_ok[OF k x'(1) n]
  have "(?R * num ?y) mod ?n = ((?R * num a ^ i) * num a) mod ?n"
    using m mod_mult_cong[OF x'(2) refl, of "num a"] by simp
  also have "(?R * num a ^ i) * num a = ?R * num a ^ Suc i" by (simp add: mult_ac)
  finally have e: "(?R * num ?y) mod ?n = (?R * num a ^ Suc i) mod ?n" .
  show ?thesis using radix_cancel[OF k e] m by (simp only:)
qed

lemma mont_pow_number: "mont_pow key a i x \<Longrightarrow> number_of key x"
  by (simp add: mont_pow_def)

lemma square_loop:
  assumes k: "key_ok key" and x: "mont_pow key a 1 x" and y: "number_of key y"
  defines "f \<equiv> \<lambda>(x, y). let y1 = montMul key y x x in (montMul key x y1 y1, y1)"
  shows "mont_pow key a (4 ^ j) (fst ((f ^^ j) (x, y))) \<and> number_of key (snd ((f ^^ j) (x, y)))"
proof (induction j)
  case (Suc j)
  obtain u v where uv: "(f ^^ j) (x, y) = (u, v)" by (rule prod.exhaust)
  have u: "mont_pow key a (4 ^ j) u" "number_of key v" using Suc uv by simp_all
  have v1: "mont_pow key a (2 * 4 ^ j) (montMul key v u u)" using mont_pow_square[OF k u(1) u(2)] by simp
  have u1: "mont_pow key a (2 * (2 * 4 ^ j)) (montMul key u (montMul key v u u) (montMul key v u u))"
    by (rule mont_pow_square[OF k v1 mont_pow_number[OF u(1)]])
  show ?case using u1 mont_pow_number[OF v1] uv by (simp add: f_def Let_def)
qed (use x y in \<open>simp_all add: f_def\<close>)

lemma modpow_words_ok:
  assumes k: "key_ok key" and n: "number_of key aR" "number_of key aaR" "number_of key a"
    and e: "exponent key = 3 \<or> exponent key = 65537"
  shows "\<exists>x. modpow_words key aR aaR a = Inr x \<and> number_of key x \<and>
     num x mod num (rsa_n key) = num a ^ nat (exponent key) mod num (rsa_n key)"
proof -
  note s = mont_pow_start[OF k n(3,1)]
  show ?thesis
  proof (cases "exponent key = 65537")
    case True
    let ?f = "\<lambda>(x, y). let y1 = montMul key y x x in (montMul key x y1 y1, y1)"
    obtain u v where uv: "(?f ^^ 8) (montMul key aR a (rsa_rr key), aaR) = (u, v)" by (rule prod.exhaust)
    have m: "mont_pow key (num a) (4 ^ 8) u" "number_of key v"
      using square_loop[OF k s n(2), of 8] unfolding uv by (simp_all only: fst_conv snd_conv)
    have "Suc (4 ^ 8) = nat (exponent key)" using True by simp
    then have "number_of key (montMul key v u a) \<and>
        num (montMul key v u a) mod num (rsa_n key) = num a ^ nat (exponent key) mod num (rsa_n key)"
      using mont_pow_end[OF k m(1) n(3) m(2)] by (simp only:)
    moreover have "modpow_words key aR aaR a = Inr (montMul key v u a)"
      unfolding modpow_words_def Let_def uv[unfolded Let_def] using True by (simp only: if_True prod.case refl)
    ultimately show ?thesis by blast
  next
    case False
    then have e3: "exponent key = 3" using e by simp
    note q = mont_pow_square[OF k s n(2)]
    have "Suc (2 * 1) = nat (exponent key)" using e3 by simp
    then have "number_of key (montMul key (montMul key aR a (rsa_rr key)) (montMul key aaR (montMul key aR a (rsa_rr key)) (montMul key aR a (rsa_rr key))) a) \<and>
        num (montMul key (montMul key aR a (rsa_rr key)) (montMul key aaR (montMul key aR a (rsa_rr key)) (montMul key aR a (rsa_rr key))) a) mod num (rsa_n key) = num a ^ nat (exponent key) mod num (rsa_n key)"
      using mont_pow_end[OF k q n(3) mont_pow_number[OF s]] by (simp only:)
    then show ?thesis using e3 by (simp add: modpow_words_def Let_def)
  qed
qed

text \<open>The result is below twice the modulus, so that one subtraction is enough.\<close>

lemma final_reduction:
  assumes k: "key_ok key" and x: "number_of key x"
  defines "y \<equiv> (if geM key x then subM key x else x)"
  shows "number_of key y \<and> num y = num x mod num (rsa_n key)"
proof -
  let ?n = "num (rsa_n key)"
  have ge: "geM key x = (?n \<le> num x)"
    using geM_loop_num[of x "rsa_n key"] k x by (simp add: geM_def key_ok_def number_of_def Let_def)
  have lt: "num x < radix key" using num_less[of x] x by (simp add: number_of_def radix_def)
  show ?thesis
  proof (cases "?n \<le> num x")
    case True
    have "(int (num x) - int ?n) mod int (radix key) = int (num x) - int ?n"
      using True lt by (intro mod_pos_pos_trivial) simp_all
    then have s: "num (subM key x) = num x - ?n" "number_of key (subM key x)" using subM_num[OF k x] True by linarith+
    have "num x < 2 * ?n" using lt k by (simp add: key_ok_def)
    then have "num x mod ?n = num x - ?n" using True by (simp add: mod_if)
    then show ?thesis using s True ge by (simp add: y_def)
  next
    case False
    then show ?thesis using x ge by (simp add: y_def)
  qed
qed

lemma modpow_ok:
  assumes k: "key_ok key" and n: "number_of key aR" "number_of key aaR"
    and e: "exponent key = 3 \<or> exponent key = 65537" and l: "length b = 4 * nat (rsa_len key)"
  shows "\<exists>out. modpow key aR aaR b = Inr out \<and> length out = length b \<and>
     be_val out = be_val b ^ nat (exponent key) mod num (rsa_n key)"
proof -
  let ?l = "nat (rsa_len key)" let ?a = "words_of_bytes ?l b"
  have a: "number_of key ?a" "num ?a = be_val b" using num_words_of_bytes[OF l] by (simp_all add: number_of_def)
  obtain x where x: "modpow_words key aR aaR ?a = Inr x" "number_of key x"
    "num x mod num (rsa_n key) = be_val b ^ nat (exponent key) mod num (rsa_n key)"
    using modpow_words_ok[OF k n a(1) e] a(2) by auto
  let ?y = "if geM key x then subM key x else x"
  note y = final_reduction[OF k x(2)]
  have "modpow key aR aaR b = Inr (concat (map be32 (rev ?y)))"
    using x(1) y l by (simp add: modpow_def Let_def number_of_def)
  moreover have "length (concat (map be32 (rev ?y))) = length b" using y l by (simp add: length_be32s number_of_def)
  ultimately show ?thesis using x(3) y by (intro exI[of _ "concat (map be32 (rev ?y))"]) (simp only: be_val_words)
qed

section \<open>Verification\<close>

lemma xor_eq_zero: "(a XOR b = 0) = (a = (b :: u8))"
proof
  assume "a XOR b = 0"
  then have "(a XOR b) XOR b = b" by simp
  then show "a = b" by (simp add: xor.assoc)
qed simp

lemma xor_zero_iff: "length a = length b \<Longrightarrow> (map2 (XOR) a b = replicate (length b) (0 :: u8)) = (a = b)"
  by (induction a b rule: list_induct2) (auto simp: xor_eq_zero)

lemma xor_tail_iff:
  assumes "length p + length h = length buf"
  shows "xor_tail buf h = p @ replicate (length h) 0 \<longleftrightarrow> buf = p @ h"
proof -
  let ?k = "length buf - length h"
  have k: "?k = length p" using assms by simp
  have "length (drop ?k buf) = length h" using assms by simp
  note x = xor_zero_iff[OF this]
  have "xor_tail buf h = p @ replicate (length h) 0 \<longleftrightarrow> take ?k buf = p \<and> map2 (XOR) (drop ?k buf) h = replicate (length h) 0"
    using assms k by (simp add: xor_tail_def Let_def append_eq_append_conv)
  also have "\<dots> \<longleftrightarrow> take ?k buf = p \<and> drop ?k buf = h" unfolding x ..
  also have "\<dots> \<longleftrightarrow> buf = p @ h" using k by (metis append_eq_conv_conj append_take_drop_id)
  finally show ?thesis .
qed

lemma num_ones: "num (replicate k 0xffffffff) = 2 ^ (32 * k) - 1"
proof (induction k)
  case (Suc k)
  define R where "R = (2 ^ (32 * k) :: nat)"
  have R: "0 < R" by (simp add: R_def)
  have "num (replicate (Suc k) 0xffffffff) = 4294967295 + 4294967296 * (R - 1)" using Suc by (simp add: R_def)
  also have "\<dots> = 4294967296 * R - 1" using R by (simp add: diff_mult_distrib2)
  finally show ?case by (simp add: R_def power_add)
qed simp

lemma sample_key_ok: "key_ok sample_key"
proof -
  define R where "R = (2 ^ (32 * 64) :: nat)"
  have R: "4294967296 \<le> R" unfolding R_def using power_increasing[of 32 "32 * 64" "2 :: nat"] by simp
  have n: "num (rsa_n sample_key) = R - 1" unfolding R_def sample_key_def by (simp add: num_ones)
  have rr: "num (rsa_rr sample_key) = 1" by (simp add: sample_key_def num_zeros)
  have rad: "radix sample_key = R" unfolding R_def radix_def sample_key_def by simp
  obtain m where m: "R = Suc m" "4294967295 \<le> m" using R by (cases R) auto
  have "R * R = 1 + (m + 2) * m" unfolding m(1) by (simp add: algebra_simps)
  then have "(R * R) mod m = 1 mod m" using mod_mult_self1[of 1 "m + 2" m] by (simp only:)
  then have "1 mod (R - 1) = (R * R) mod (R - 1)" using m(1) by simp
  moreover have "n0inv sample_key * rsa_n sample_key ! 0 = - 1" by (simp add: sample_key_def)
  moreover have "0 < rsa_len sample_key" "length (rsa_n sample_key) = nat (rsa_len sample_key)"
    "length (rsa_rr sample_key) = nat (rsa_len sample_key)" by (simp_all add: sample_key_def)
  moreover have "R \<le> 2 * (R - 1)" using R by simp
  ultimately show ?thesis unfolding key_ok_def n rr rad by blast
qed

section \<open>Theorems\<close>

text \<open>C7: Exponentiation: for a key with correct precomputed values and a modulus whose highest bit is set,
  the bytes written back are those of the signature to the power of the exponent, modulo the
  modulus. The local arrays may hold anything before.\<close>

theorem modpow_correct:
  assumes "key_ok key" "exponent key = 3 \<or> exponent key = 65537"
    and "number_of key aR" "number_of key aaR" "length b = 4 * nat (rsa_len key)"
  shows "\<exists>out. modpow key aR aaR b = Inr out \<and> length out = length b \<and>
     be_val out = be_val b ^ nat (exponent key) mod num (rsa_n key)"
  using modpow_ok[OF assms(1,3,4,2,5)] .

theorem modpow_correct_witness:
  "\<exists>out. modpow sample_key (replicate 64 7) (replicate 64 9) (replicate 255 0 @ [5]) = Inr out \<and> be_val out = 125"
proof -
  have n: "num (rsa_n sample_key) = 2 ^ 2048 - 1" by (simp add: sample_key_def num_ones)
  have v: "be_val (replicate 255 0 @ [5]) = 5"
  proof -
    have "be_val (replicate k 0) = 0" for k by (induction k) (simp_all add: be_val_def)
    then show ?thesis by (simp add: be_val_append) (simp add: be_val_def)
  qed
  obtain out where o: "modpow sample_key (replicate 64 7) (replicate 64 9) (replicate 255 0 @ [5]) = Inr out"
    "be_val out = 5 ^ 3 mod (2 ^ 2048 - 1)"
    using modpow_correct[OF sample_key_ok, of "replicate 64 7" "replicate 64 9" "replicate 255 0 @ [5]"]
    unfolding v n by (auto simp: sample_key_def number_of_def)
  have "(2 :: nat) ^ 7 \<le> 2 ^ 2048" by (intro power_increasing) simp_all
  then have "(5 :: nat) ^ 3 mod (2 ^ 2048 - 1) = 125" by (intro trans[OF mod_less]) simp_all
  with o show ?thesis by simp
qed



text \<open>C20: A key of another length, a signature of another length, a hash of another length and another
  exponent are rejected before anything is computed.\<close>

theorem RSA_verify_rejects:
  assumes "rsa_len key \<noteq> 64 \<or> length sig \<noteq> 256 \<or> length hash \<notin> {20, 32} \<or> exponent key \<notin> {3, 65537}"
  shows "RSA_verify ctx aR aaR key sig hash = Inr 0"
  using assms by (auto simp: RSA_verify_def RSANUMWORDS_def RSANUMBYTES_def SHA_DIGEST_SIZE_def SHA256_DIGEST_SIZE_def)

theorem RSA_verify_rejects_witness:
  "RSA_verify zero_ctx [] [] sample_key (replicate 255 0) (replicate 20 1) = Inr 0 \<and>
   RSA_verify zero_ctx [] [] (sample_key\<lparr>exponent := 17\<rparr>) (replicate 256 0) (replicate 20 1) = Inr 0"
  using RSA_verify_rejects[of sample_key "replicate 255 0" "replicate 20 1" zero_ctx "[]" "[]"]
    RSA_verify_rejects[of "sample_key\<lparr>exponent := 17\<rparr>" "replicate 256 0" "replicate 20 1" zero_ctx "[]" "[]"]
  by simp

end
