(* ===== verification/Mincrypt_P256.thy ===== *)
theory Mincrypt_P256
  imports Mincrypt_Num
begin

text \<open>
  Arithmetic on numbers of 256 bits, \<^verbatim>\<open>system/core/libmincrypt/p256.c\<close>. A \<^verbatim>\<open>p256_int\<close> is a list
  of eight words, lowest first. The functions return the array they write; that a result may
  overwrite an argument makes no difference, because each digit is read before it is written.
  The two static functions that share their names with functions of \<^verbatim>\<open>rsa.c\<close> have a suffix.
\<close>

section \<open>Numbers\<close>

definition P256_NDIGITS :: nat where "P256_NDIGITS = 8"

definition P256_NBYTES :: nat where "P256_NBYTES = 32"

type_synonym p256_int = "u32 list"

definition SECP256r1_n :: p256_int where
  "SECP256r1_n = [0xfc632551, 0xf3b9cac2, 0xa7179e84, 0xbce6faad, - 1, - 1, 0, - 1]"

definition SECP256r1_p :: p256_int where
  "SECP256r1_p = [- 1, - 1, - 1, 0, 0, 0, 1, - 1]"

definition SECP256r1_b :: p256_int where
  "SECP256r1_b = [0x27d2604b, 0x3bce3c3e, 0xcc53b0f6, 0x651d06b0, 0x769886bc, 0xb3ebbd55, 0xaa3a93e7, 0x5ac635d8]"

definition P256_ZERO :: p256_int where
  "P256_ZERO = replicate P256_NDIGITS 0"

definition P256_ONE :: p256_int where
  "P256_ONE = 1 # replicate (P256_NDIGITS - 1) 0"

definition p256_init :: "p256_int \<Rightarrow> p256_int" where
  "p256_init a = P256_ZERO"

definition p256_clear :: "p256_int \<Rightarrow> p256_int" where
  "p256_clear a = p256_init a"

definition p256_get_bit :: "p256_int \<Rightarrow> nat \<Rightarrow> u32" where
  "p256_get_bit scalar b = drop_bit (b mod 32) (scalar ! (b div 32)) AND 1"

definition p256_is_zero :: "p256_int \<Rightarrow> bool" where
  "p256_is_zero a = (fold (\<lambda>d r. r OR d) a 0 = 0)"

section \<open>Loops over the digits\<close>

fun mulAdd_loop :: "u32 \<Rightarrow> u64 \<Rightarrow> u32 list \<Rightarrow> u32 list \<Rightarrow> u32 list \<times> u64" where
  "mulAdd_loop b carry (x # a) (y # c) =
     (let carry1 = carry + ucast y + ucast x * ucast b;
          (out, carry2) = mulAdd_loop b (drop_bit 32 carry1) a c
      in (ucast carry1 # out, carry2))"
| "mulAdd_loop b carry _ _ = ([], carry)"

text \<open>The new top digit and the digits of \<open>c\<close>.\<close>

definition mulAdd :: "p256_int \<Rightarrow> u32 \<Rightarrow> u32 \<Rightarrow> u32 list \<Rightarrow> u32 \<times> u32 list" where
  "mulAdd a b tp c = (let (out, carry) = mulAdd_loop b 0 a c in (tp + ucast carry, out))"

fun sub_loop :: "u64 \<Rightarrow> u32 list \<Rightarrow> u32 list \<Rightarrow> u32 list \<times> u64" where
  "sub_loop br (x # c) (y # a) =
     (let br1 = br + ucast x - ucast y;
          (out, br2) = sub_loop (signed_drop_bit 32 br1) c a
      in (ucast br1 # out, br2))"
| "sub_loop br _ _ = ([], br)"

fun add_loop :: "u64 \<Rightarrow> u32 list \<Rightarrow> u32 list \<Rightarrow> u32 list \<times> u64" where
  "add_loop carry (x # c) (y # a) =
     (let carry1 = carry + ucast x + ucast y;
          (out, carry2) = add_loop (drop_bit 32 carry1) c a
      in (ucast carry1 # out, carry2))"
| "add_loop carry _ _ = ([], carry)"

definition subTop :: "u32 \<Rightarrow> u32 list \<Rightarrow> u32 \<Rightarrow> u32 list \<Rightarrow> (u32 \<times> u32 list) comp" where
  "subTop top_a a top_c c =
     (let (out, br) = sub_loop 0 c a;
          br1 = br + ucast top_c - ucast top_a
      in assertC (signed_drop_bit 32 br1 = 0) Assert_Failed (Inr (ucast br1, out)))"

definition subM_p256 :: "p256_int \<Rightarrow> u32 \<Rightarrow> u32 list \<Rightarrow> u32 \<Rightarrow> u32 \<times> u32 list" where
  "subM_p256 MOD tp c msk =
     (let (out, br) = sub_loop 0 c (map (\<lambda>d. d AND msk) MOD) in (tp + ucast br, out))"

definition addM_p256 :: "p256_int \<Rightarrow> u32 \<Rightarrow> u32 list \<Rightarrow> u32 \<Rightarrow> u32 \<times> u32 list" where
  "addM_p256 MOD tp c msk =
     (let (out, carry) = add_loop 0 c (map (\<lambda>d. d AND msk) MOD) in (tp + ucast carry, out))"

section \<open>Multiplication\<close>

text \<open>Eight digits of an array from index \<open>i\<close> on.\<close>

definition digits_at :: "u32 list \<Rightarrow> nat \<Rightarrow> u32 list" where
  "digits_at tmp i = take P256_NDIGITS (drop i tmp)"

definition put_digits :: "u32 list \<Rightarrow> nat \<Rightarrow> u32 list \<Rightarrow> u32 list" where
  "put_digits tmp i c = take i tmp @ c @ drop (i + P256_NDIGITS) tmp"

fun modmul_mul :: "p256_int \<Rightarrow> u32 list \<Rightarrow> nat \<Rightarrow> u32 \<Rightarrow> u32 list \<Rightarrow> u32 \<times> u32 list" where
  "modmul_mul a [] i tp tmp = (tp, tmp)"
| "modmul_mul a (d # b) i tp tmp =
     (let tmp1 = (if i \<noteq> 0 then tmp[i + P256_NDIGITS - 1 := tp] else tmp);
          (top1, c) = mulAdd a d 0 (digits_at tmp1 i)
      in modmul_mul a b (i + 1) top1 (put_digits tmp1 i c))"

definition modmul_reduce_step :: "p256_int \<Rightarrow> nat \<Rightarrow> u32 \<Rightarrow> u32 list \<Rightarrow> (u32 \<times> u32 list) comp" where
  "modmul_reduce_step MOD i tp tmp =
     (let (top_reducer, reducer) = mulAdd MOD tp 0 (replicate P256_NDIGITS 0)
      in bindC (subTop top_reducer reducer tp (digits_at tmp i)) (\<lambda>(top1, c1).
           assertC (top1 \<le> 1) Assert_Failed
             (let (top2, c2) = subM_p256 MOD top1 c1 (NOT (top1 - 1))
              in assertC (top2 = 0) Assert_Failed
                   (let tmp1 = put_digits tmp i c2 in Inr (tmp1 ! (i + P256_NDIGITS - 1), tmp1)))))"

text \<open>From index \<open>i\<close> down to 0.\<close>

fun modmul_reduce :: "p256_int \<Rightarrow> nat \<Rightarrow> u32 \<Rightarrow> u32 list \<Rightarrow> u32 list comp" where
  "modmul_reduce MOD 0 tp tmp = bindC (modmul_reduce_step MOD 0 tp tmp) (\<lambda>(_, tmp1). Inr tmp1)"
| "modmul_reduce MOD (Suc i) tp tmp =
     bindC (modmul_reduce_step MOD (Suc i) tp tmp) (\<lambda>(top1, tmp1). modmul_reduce MOD i top1 tmp1)"

definition p256_modmul :: "p256_int \<Rightarrow> p256_int \<Rightarrow> u32 \<Rightarrow> p256_int \<Rightarrow> p256_int comp" where
  "p256_modmul MOD a top_b b =
     (let (tp, tmp) = modmul_mul a b 0 0 (replicate (2 * P256_NDIGITS + 1) 0);
          tmp1 = tmp[2 * P256_NDIGITS - 1 := tp];
          (top1, c) = mulAdd a top_b 0 (digits_at tmp1 P256_NDIGITS)
      in bindC (modmul_reduce MOD P256_NDIGITS top1 (put_digits tmp1 P256_NDIGITS c)) (\<lambda>tmp2.
           let (msk, c2) = subM_p256 MOD 0 (digits_at tmp2 0) (- 1);
               (_, c3) = addM_p256 MOD 0 c2 msk
           in Inr c3))"

section \<open>Shifts and comparison\<close>

definition p256_is_odd :: "p256_int \<Rightarrow> bool" where
  "p256_is_odd a = (a ! 0 AND 1 \<noteq> 0)"

definition p256_is_even :: "p256_int \<Rightarrow> bool" where
  "p256_is_even a = (a ! 0 AND 1 = 0)"

text \<open>
  A shift of a 32 bit word by 32, which is undefined, happens in the two general shifts when
  the number of bits is a multiple of 32.
\<close>

definition p256_shl :: "p256_int \<Rightarrow> nat \<Rightarrow> (u32 \<times> p256_int) comp" where
  "p256_shl a n0 =
     (let n = n0 mod 32
      in assertC (n \<noteq> 0) Undefined_Shift
           (Inr (ucast (drop_bit 32 (push_bit n (ucast (a ! (P256_NDIGITS - 1)) :: u64))),
                 map (\<lambda>i. if i = 0 then push_bit n (a ! 0)
                          else push_bit n (a ! i) OR drop_bit (32 - n) (a ! (i - 1))) [0..<P256_NDIGITS])))"

definition p256_shr :: "p256_int \<Rightarrow> nat \<Rightarrow> p256_int comp" where
  "p256_shr a n0 =
     (let n = n0 mod 32
      in assertC (n \<noteq> 0) Undefined_Shift
           (Inr (map (\<lambda>i. if i = P256_NDIGITS - 1 then drop_bit n (a ! i)
                          else drop_bit n (a ! i) OR push_bit (32 - n) (a ! (i + 1))) [0..<P256_NDIGITS])))"

definition p256_shr1 :: "p256_int \<Rightarrow> u32 \<Rightarrow> p256_int" where
  "p256_shr1 a highbit =
     map (\<lambda>i. if i = P256_NDIGITS - 1 then drop_bit 1 (a ! i) OR push_bit 31 highbit
              else drop_bit 1 (a ! i) OR push_bit 31 (a ! (i + 1))) [0..<P256_NDIGITS]"

fun cmp_loop :: "u64 \<Rightarrow> bool \<Rightarrow> u32 list \<Rightarrow> u32 list \<Rightarrow> u64 \<times> bool" where
  "cmp_loop br notzero (x # a) (y # b) =
     (let br1 = br + (ucast x - ucast y)
      in cmp_loop (signed_drop_bit 32 br1) (notzero \<or> (ucast br1 :: u32) \<noteq> 0) a b)"
| "cmp_loop br notzero _ _ = (br, notzero)"

definition p256_cmp :: "p256_int \<Rightarrow> p256_int \<Rightarrow> int" where
  "p256_cmp a b = (let (br, notzero) = cmp_loop 0 False a b in sint (ucast br OR (if notzero then 1 else 0) :: u32))"

text \<open>The borrow, 0 or -1, and the difference.\<close>

definition p256_sub :: "p256_int \<Rightarrow> p256_int \<Rightarrow> int \<times> p256_int" where
  "p256_sub a b = (let (out, br) = sub_loop 0 a b in (sint (ucast br :: u32), out))"

text \<open>The carry, 0 or 1, and the sum.\<close>

definition p256_add :: "p256_int \<Rightarrow> p256_int \<Rightarrow> u32 \<times> p256_int" where
  "p256_add a b = (let (out, carry) = add_loop 0 a b in (ucast carry, out))"

definition p256_add_d :: "p256_int \<Rightarrow> u32 \<Rightarrow> u32 \<times> p256_int" where
  "p256_add_d a d = (let (out, carry) = add_loop (ucast d) a (replicate (length a) 0) in (ucast carry, out))"

definition p256_mod :: "p256_int \<Rightarrow> p256_int \<Rightarrow> p256_int" where
  "p256_mod MOD inp =
     (let (msk, c) = subM_p256 MOD 0 inp (- 1) in snd (addM_p256 MOD 0 c msk))"

section \<open>Inversion\<close>

text \<open>Half of a number modulo the odd modulus.\<close>

definition half_mod :: "p256_int \<Rightarrow> p256_int \<Rightarrow> p256_int" where
  "half_mod MOD R =
     (if p256_is_even R then p256_shr1 R 0
      else let (carry, R1) = p256_add R MOD in p256_shr1 R1 carry)"

text \<open>The difference modulo the modulus: the modulus is added when the subtraction borrows.\<close>

definition sub_mod :: "p256_int \<Rightarrow> p256_int \<Rightarrow> p256_int \<Rightarrow> p256_int" where
  "sub_mod MOD S R =
     (let (br, S1) = p256_sub S R in if br \<noteq> 0 then snd (p256_add S1 MOD) else S1)"

text \<open>The loop need not end, and the result is then \<open>None\<close>; otherwise it is the final \<open>R\<close>.\<close>

partial_function (option) modinv_loop :: "p256_int \<Rightarrow> p256_int \<Rightarrow> p256_int \<Rightarrow> p256_int \<Rightarrow> p256_int \<Rightarrow> p256_int option" where
  "modinv_loop MOD R S U V =
     (if p256_is_even U then modinv_loop MOD (half_mod MOD R) S (p256_shr1 U 0) V
      else if p256_is_even V then modinv_loop MOD R (half_mod MOD S) U (p256_shr1 V 0)
      else if fst (p256_sub V U) = 0
      then (let V1 = snd (p256_sub V U); S1 = sub_mod MOD S R
            in if p256_is_zero V1 then Some R else modinv_loop MOD R S1 U V1)
      else modinv_loop MOD (sub_mod MOD R S) S (snd (p256_sub U V)) V)"

definition p256_modinv_vartime :: "p256_int \<Rightarrow> p256_int \<Rightarrow> p256_int option" where
  "p256_modinv_vartime MOD a = map_option (p256_mod MOD) (modinv_loop MOD P256_ZERO P256_ONE MOD a)"

section \<open>Points and bytes\<close>

definition p256_is_valid_point :: "p256_int \<Rightarrow> p256_int \<Rightarrow> bool comp" where
  "p256_is_valid_point x y =
     (if p256_cmp SECP256r1_p x \<le> 0 \<or> p256_cmp SECP256r1_p y \<le> 0 \<or> p256_is_zero x \<or> p256_is_zero y
      then Inr False
      else bindC (p256_modmul SECP256r1_p y 0 y) (\<lambda>y2.
           bindC (p256_modmul SECP256r1_p x 0 x) (\<lambda>x2.
           bindC (p256_modmul SECP256r1_p x 0 x2) (\<lambda>x3.
             let x3a = sub_mod SECP256r1_p x3 x;
                 x3b = sub_mod SECP256r1_p x3a x;
                 x3c = sub_mod SECP256r1_p x3b x;
                 (carry, x3d) = p256_add x3c SECP256r1_b;
                 x3e = (if carry \<noteq> 0 then snd (p256_sub x3d SECP256r1_p) else x3d)
             in Inr (p256_cmp y2 x3e = 0)))))"

definition p256_from_bin :: "u8 list \<Rightarrow> p256_int" where
  "p256_from_bin src = words_of_bytes P256_NDIGITS src"

section \<open>Notions of the statements\<close>

abbreviation B256 :: nat where "B256 \<equiv> 2 ^ 256"

definition digits :: "u32 list \<Rightarrow> bool" where
  "digits a \<longleftrightarrow> length a = 8"

text \<open>A modulus with the highest word of all ones, as both moduli of the curve have it.\<close>

definition mod_ok :: "p256_int \<Rightarrow> bool" where
  "mod_ok MOD \<longleftrightarrow> digits MOD \<and> MOD ! 7 = - 1"

text \<open>The word of all ones or all zeros.\<close>

definition masked :: "bool \<Rightarrow> u32" where
  "masked b = (if b then - 1 else 0)"

fun shr_list :: "u32 list \<Rightarrow> u32 \<Rightarrow> u32 list" where
  "shr_list [] h = []"
| "shr_list [x] h = [drop_bit 1 x OR push_bit 31 h]"
| "shr_list (x # y # a) h = (drop_bit 1 x OR push_bit 31 y) # shr_list (y # a) h"

text \<open>The invariant of the loop, and what is returned.\<close>

definition modinv_inv :: "p256_int \<Rightarrow> nat \<Rightarrow> p256_int \<Rightarrow> p256_int \<Rightarrow> p256_int \<Rightarrow> p256_int \<Rightarrow> bool" where
  "modinv_inv MOD a R S U V \<longleftrightarrow>
     digits R \<and> digits S \<and> digits U \<and> digits V \<and> num R < num MOD \<and> num S < num MOD \<and> 0 < num U \<and> 0 < num V \<and>
     a * num R mod num MOD = num U mod num MOD \<and> a * num S mod num MOD = num V mod num MOD \<and>
     (odd (num U) \<or> odd (num V)) \<and> gcd (num U) (num V) = gcd a (num MOD)"

section \<open>Points\<close>

abbreviation curve_p :: nat where "curve_p \<equiv> num SECP256r1_p"

abbreviation curve_b :: nat where "curve_b \<equiv> num SECP256r1_b"

text \<open>The equation of the curve, and the value of its right side without the constant.\<close>

definition cubic :: "nat \<Rightarrow> nat" where
  "cubic x = (x ^ 3 + (curve_p - 3) * x) mod curve_p"

definition on_curve :: "nat \<Rightarrow> nat \<Rightarrow> bool" where
  "on_curve x y \<longleftrightarrow> 0 < x \<and> x < curve_p \<and> 0 < y \<and> y < curve_p \<and> y ^ 2 mod curve_p = (cubic x + curve_b) mod curve_p"

lemma num_less_B256: "digits a \<Longrightarrow> num a < B256"
  using num_less[of a] by (simp add: digits_def)

lemma mulAdd_loop_num:
  assumes "length a = length c" "unat carry < 2 ^ 32" "mulAdd_loop b carry a c = (out, carry')"
  shows "length out = length c \<and> unat carry' < 2 ^ 32 \<and>
     num out + 2 ^ (32 * length c) * unat carry' = unat carry + num c + unat b * num a"
  using assms
proof (induction b carry a c arbitrary: out carry' rule: mulAdd_loop.induct)
  case (1 b carry x a y c)
  define c1 where "c1 = carry + ucast y + ucast x * ucast b"
  define W where "W = (2 ^ 32 :: nat)"
  define K where "K = (2 ^ (32 * length c) :: nat)"
  obtain o1 c2 where p: "mulAdd_loop b (drop_bit 32 c1) a c = (o1, c2)" by (rule prod.exhaust)
  have "(ucast c1 # o1, c2) = (out, carry')"
    using "1.prems"(3) unfolding mulAdd_loop.simps Let_def c1_def[symmetric] p by (simp only: prod.case)
  then have o1: "mulAdd_loop b (drop_bit 32 c1) a c = (o1, carry')" "out = ucast c1 # o1" using p by (simp_all only: prod.inject)
  have "c1 = carry + ucast x * ucast b + ucast y" by (simp add: c1_def)
  then have u: "unat c1 = unat carry + unat x * unat b + unat y" using unat_mul_add[OF "1.prems"(2), of x b y] by simp
  have h: "unat (drop_bit 32 c1) = unat c1 div W" unfolding W_def by (rule unat_hi)
  have lo: "unat (ucast c1 :: u32) = unat c1 mod W" unfolding W_def by (rule unat_lo)
  have ih: "length o1 = length c \<and> unat carry' < 2 ^ 32 \<and>
      num o1 + K * unat carry' = unat c1 div W + num c + unat b * num a"
    using "1.IH"[OF c1_def _ _ o1(1)] "1.prems"(1) hi_less[of c1] unfolding h K_def by (simp add: W_def unat_hi)
  have e: "2 ^ (32 * length (y # c)) = W * K" by (simp add: W_def K_def power_add)
  have "num out + W * K * unat carry' = unat c1 mod W + W * (num o1 + K * unat carry')"
    unfolding o1(2) using lo by (simp add: W_def algebra_simps)
  also have "\<dots> = unat c1 mod W + W * (unat c1 div W) + W * (num c + unat b * num a)"
    using ih by (simp add: algebra_simps)
  also have "\<dots> = unat c1 + W * (num c + unat b * num a)" by simp
  also have "\<dots> = unat carry + num (y # c) + unat b * num (x # a)" unfolding u by (simp add: W_def algebra_simps)
  finally show ?case using ih unfolding e o1(2) by simp
qed auto

lemma sub_loop_num:
  assumes "length c = length a" "sub_loop (borrow b) c a = (out, br')"
  shows "\<exists>b'. br' = borrow b' \<and> length out = length c \<and>
     num out + num a + of_bool b = num c + of_bool b' * 2 ^ (32 * length c)"
  using assms
proof (induction c a arbitrary: b out rule: list_induct2)
  case (Cons x c y a)
  define d where "d = int (unat x) - int (unat y) - of_bool b"
  define br1 where "br1 = borrow b + (ucast x - ucast y)"
  define K where "K = (2 ^ (32 * length c) :: nat)"
  have r: "borrow b + ucast x - ucast y = br1" by (simp add: br1_def)
  note st = sub_step[where b = b and x = x and m = y, folded br1_def d_def]
  obtain o1 c2 where p: "sub_loop (borrow (d < 0)) c a = (o1, c2)" by (rule prod.exhaust)
  have "(ucast br1 # o1, c2) = (out, br')"
    using Cons.prems unfolding sub_loop.simps Let_def r st(2) p by (simp only: prod.case)
  then have o1: "sub_loop (borrow (d < 0)) c a = (o1, br')" "out = ucast br1 # o1" using p by (simp_all only: prod.inject)
  obtain b' where ih: "br' = borrow b'" "length o1 = length c"
      "num o1 + num a + of_bool (d < 0) = num c + of_bool b' * K"
    using Cons.IH[OF o1(1)] unfolding K_def by blast
  have db: "- 4294967296 \<le> d" "d < 4294967296" unfolding d_def using diff_bounds[of x y b] by simp_all
  have dm: "int (unat (ucast br1 :: u32)) = d + of_bool (d < 0) * 4294967296"
  proof (cases "d < 0")
    case True
    have "(d + 4294967296) mod 4294967296 = d + 4294967296" using db True by (intro mod_pos_pos_trivial) simp_all
    then show ?thesis using st(1) True by simp
  qed (use st(1) db in simp)
  have e: "2 ^ (32 * length (x # c)) = 4294967296 * K" by (simp add: K_def power_add)
  have "int (num out) + int (num (y # a)) + of_bool b =
      int (unat x) + 4294967296 * (int (num o1) + int (num a) + of_bool (d < 0))"
    unfolding o1(2) using dm by (simp add: d_def algebra_simps del: of_nat_unat)
  also have "int (num o1) + int (num a) + of_bool (d < 0) = int (num c) + of_bool b' * int K"
    using arg_cong[OF ih(3), of int] by simp
  finally have "int (num out + num (y # a) + of_bool b) = int (num (x # c) + of_bool b' * (4294967296 * K))"
    by (simp add: algebra_simps del: of_nat_unat)
  then have "num out + num (y # a) + of_bool b = num (x # c) + of_bool b' * (4294967296 * K)" by (simp only: of_nat_eq_iff)
  then show ?case using ih(1,2) unfolding e o1(2) by (intro exI[of _ b']) (simp only: length_Cons simp_thms)
next
  case Nil
  then show ?case by (intro exI[of _ b]) simp
qed

lemma add_loop_num:
  assumes "length c = length a" "unat carry < 2 ^ 32" "add_loop carry c a = (out, carry')"
  shows "length out = length c \<and> unat carry' < 2 ^ 32 \<and>
     num out + 2 ^ (32 * length c) * unat carry' = unat carry + num c + num a"
  using assms
proof (induction c a arbitrary: carry out rule: list_induct2)
  case (Cons x c y a)
  define c1 where "c1 = carry + ucast x + ucast y"
  define W where "W = (2 ^ 32 :: nat)"
  define K where "K = (2 ^ (32 * length c) :: nat)"
  obtain o1 c2 where p: "add_loop (drop_bit 32 c1) c a = (o1, c2)" by (rule prod.exhaust)
  have "(ucast c1 # o1, c2) = (out, carry')"
    using Cons.prems(2) unfolding add_loop.simps Let_def c1_def[symmetric] p by (simp only: prod.case)
  then have o1: "add_loop (drop_bit 32 c1) c a = (o1, carry')" "out = ucast c1 # o1" using p by (simp_all only: prod.inject)
  have "c1 = carry + ucast x * ucast (1 :: u32) + ucast y" by (simp add: c1_def)
  then have u: "unat c1 = unat carry + unat x + unat y" using unat_mul_add[OF Cons.prems(1), of x 1 y] by simp
  have h: "unat (drop_bit 32 c1) = unat c1 div W" unfolding W_def by (rule unat_hi)
  have lo: "unat (ucast c1 :: u32) = unat c1 mod W" unfolding W_def by (rule unat_lo)
  have ih: "length o1 = length c \<and> unat carry' < 2 ^ 32 \<and> num o1 + K * unat carry' = unat c1 div W + num c + num a"
    using Cons.IH[OF _ o1(1)] hi_less[of c1] unfolding h K_def by (simp add: W_def unat_hi)
  have e: "2 ^ (32 * length (x # c)) = W * K" by (simp add: W_def K_def power_add)
  have "num out + W * K * unat carry' = unat c1 mod W + W * (num o1 + K * unat carry')"
    unfolding o1(2) using lo by (simp add: W_def algebra_simps)
  also have "\<dots> = unat c1 mod W + W * (unat c1 div W) + W * (num c + num a)"
    using ih by (simp add: algebra_simps)
  also have "\<dots> = unat c1 + W * (num c + num a)" by simp
  also have "\<dots> = unat carry + num (x # c) + num (y # a)" unfolding u by (simp add: W_def algebra_simps)
  finally show ?case using ih unfolding e o1(2) by simp
qed auto

section \<open>Addition, subtraction and comparison\<close>

lemma ucast_minus_one: "ucast (- 1 :: u64) = (- 1 :: u32)"
  by (rule bit_word_eqI) (simp add: bit_ucast_iff)

lemma borrow_low: "ucast (borrow b) = masked b"
  by (cases b) (simp_all add: borrow_def masked_def ucast_minus_one)

lemma sub_loop_digits:
  assumes "digits c" "digits a" "sub_loop 0 c a = (out, br)"
  shows "digits out" "br = borrow (num c < num a)"
    "num out + num a = num c + (if num c < num a then B256 else 0)"
proof -
  have "sub_loop (borrow False) c a = (out, br)" using assms(3) by (simp add: borrow_def)
  from sub_loop_num[OF _ this] obtain b' where b': "br = borrow b'" "length out = length c"
    "num out + num a = num c + of_bool b' * 2 ^ (32 * length c)"
    using assms(1,2) by (auto simp: digits_def)
  show d: "digits out" using b'(2) assms(1) by (simp add: digits_def)
  have e: "num out + num a = num c + of_bool b' * B256" using b'(3) assms(1) by (simp add: digits_def)
  have b: "b' \<longleftrightarrow> num c < num a" using e num_less_B256[OF d] by (cases b') simp_all
  show "br = borrow (num c < num a)" "num out + num a = num c + (if num c < num a then B256 else 0)"
    using e b'(1) unfolding b by simp_all
qed

lemma add_loop_digits:
  assumes "digits c" "digits a" "add_loop 0 c a = (out, carry)"
  shows "digits out" "ucast carry = (if num c + num a < B256 then 0 else 1 :: u32)"
    "num out + (if num c + num a < B256 then 0 else B256) = num c + num a"
proof -
  have n: "length out = length c \<and> unat carry < 2 ^ 32 \<and> num out + 2 ^ (32 * length c) * unat carry = num c + num a"
    using add_loop_num[OF _ _ assms(3)] assms(1,2) by (simp add: digits_def)
  show d: "digits out" using n assms(1) by (simp add: digits_def)
  have uc: "unat (ucast carry :: u32) = unat carry" using n unfolding unat_lo by simp
  have e: "num out + B256 * unat carry = num c + num a" using n assms(1) by (simp add: digits_def)
  have "num c + num a < 2 * B256" using num_less_B256[OF assms(1)] num_less_B256[OF assms(2)] by linarith
  then have "B256 * unat carry < B256 * 2" using e by linarith
  then have "unat carry < 2" by (simp only: mult_less_cancel1)
  then have "unat carry = 0 \<or> unat carry = 1" by linarith
  then have b: "unat carry = (if num c + num a < B256 then 0 else 1)"
    using e num_less_B256[OF d] by (elim disjE) simp_all
  show "ucast carry = (if num c + num a < B256 then 0 else 1 :: u32)"
    using b uc by (simp add: word_unat_eq_iff)
  show "num out + (if num c + num a < B256 then 0 else B256) = num c + num a" using e b by (auto split: if_splits)
qed

lemma p256_sub_num:
  assumes "digits a" "digits b" "p256_sub a b = (br, out)"
  shows "digits out" "br = (if num a < num b then - 1 else 0)"
     "num out + num b = num a + (if num a < num b then B256 else 0)"
proof -
  obtain o1 br1 where p: "sub_loop 0 a b = (o1, br1)" by (rule prod.exhaust)
  then show "digits out" "br = (if num a < num b then - 1 else 0)"
     "num out + num b = num a + (if num a < num b then B256 else 0)"
    using assms(3) sub_loop_digits[OF assms(1,2) p] by (auto simp: p256_sub_def borrow_low masked_def)
qed

lemma p256_add_num:
  assumes "digits a" "digits b" "p256_add a b = (carry, out)"
  shows "digits out" "carry = (if num a + num b < B256 then 0 else 1)"
     "num out + (if num a + num b < B256 then 0 else B256) = num a + num b"
proof -
  obtain o1 c1 where p: "add_loop 0 a b = (o1, c1)" by (rule prod.exhaust)
  then show "digits out" "carry = (if num a + num b < B256 then 0 else 1)"
     "num out + (if num a + num b < B256 then 0 else B256) = num a + num b"
    using assms(3) add_loop_digits[OF assms(1,2) p] by (simp_all add: p256_add_def)
qed

lemma num_zero_iff: "num a = 0 \<longleftrightarrow> (\<forall>d \<in> set a. d = 0)"
  by (induction a) (simp_all add: unat_eq_zero)

lemma p256_is_zero_num: "p256_is_zero a \<longleftrightarrow> num a = 0"
proof -
  have "fold (\<lambda>d r. r OR d) a z = 0 \<longleftrightarrow> z = 0 \<and> (\<forall>d \<in> set a. d = 0)" for z :: u32
    by (induction a arbitrary: z) (auto simp: or_eq_0_iff)
  then show ?thesis by (simp add: p256_is_zero_def num_zero_iff)
qed

lemma p256_is_even_num: "digits a \<Longrightarrow> p256_is_even a \<longleftrightarrow> even (num a)"
proof -
  assume "digits a"
  then obtain w r where a: "a = w # r" by (cases a) (auto simp: digits_def)
  have "(w AND 1 = 0) = even w" by (simp add: and_one_eq even_iff_mod_2_eq_zero)
  also have "\<dots> = even (unat w)" by transfer (simp add: even_nat_iff)
  finally have "(w AND 1 = 0) = even (unat w)" .
  then show ?thesis by (simp add: p256_is_even_def a)
qed

lemma cmp_loop_sub:
  "length a = length b \<Longrightarrow>
     cmp_loop br z a b = (snd (sub_loop br a b), z \<or> (\<exists>d \<in> set (fst (sub_loop br a b)). d \<noteq> 0))"
proof (induction a b arbitrary: br z rule: list_induct2)
  case (Cons x a y b)
  show ?case using Cons by (auto simp: Let_def split_beta add_diff_eq)
qed simp

lemma p256_cmp_num:
  assumes "digits a" "digits b"
  shows "p256_cmp a b = (if num a < num b then - 1 else if num a = num b then 0 else 1)"
proof -
  obtain out br where p: "sub_loop 0 a b = (out, br)" by (rule prod.exhaust)
  note s = sub_loop_digits[OF assms p]
  have nz: "(\<exists>d \<in> set out. d \<noteq> 0) \<longleftrightarrow> num a \<noteq> num b"
  proof -
    have "(\<exists>d \<in> set out. d \<noteq> 0) \<longleftrightarrow> num out \<noteq> 0" by (auto simp: num_zero_iff)
    also have "\<dots> \<longleftrightarrow> num a \<noteq> num b"
      using s num_less_B256[OF assms(2)] by (cases "num a < num b") auto
    finally show ?thesis .
  qed
  have "cmp_loop 0 False a b = (br, num a \<noteq> num b)"
    using cmp_loop_sub[of a b 0 False] assms nz by (simp add: digits_def p)
  then show ?thesis unfolding p256_cmp_def by (simp add: s(2) borrow_low masked_def)
qed

section \<open>The modulus under a mask\<close>

lemma masked_num:
  assumes "digits MOD"
  shows "digits (map (\<lambda>d. d AND masked b) MOD)" "num (map (\<lambda>d. d AND masked b) MOD) = of_bool b * num MOD"
proof -
  show "digits (map (\<lambda>d. d AND masked b) MOD)" using assms by (simp add: digits_def)
  show "num (map (\<lambda>d. d AND masked b) MOD) = of_bool b * num MOD"
    by (cases b) (simp_all add: masked_def num_zero_iff)
qed

lemma subM_digits:
  assumes "digits MOD" "digits c" "subM_p256 MOD tp c (masked b) = (tp', out)"
  shows "digits out" "tp' = tp + masked (num c < of_bool b * num MOD)"
    "num out + of_bool b * num MOD = num c + (if num c < of_bool b * num MOD then B256 else 0)"
proof -
  obtain o1 br where p: "sub_loop 0 c (map (\<lambda>d. d AND masked b) MOD) = (o1, br)" by (rule prod.exhaust)
  then show "digits out" "tp' = tp + masked (num c < of_bool b * num MOD)"
    "num out + of_bool b * num MOD = num c + (if num c < of_bool b * num MOD then B256 else 0)"
    using assms(3) sub_loop_digits[OF assms(2) masked_num(1)[OF assms(1)] p]
    by (simp_all add: subM_p256_def borrow_low masked_num(2)[OF assms(1)])
qed

lemma addM_digits:
  assumes "digits MOD" "digits c" "addM_p256 MOD tp c (masked b) = (tp', out)"
  shows "digits out" "num out + (if num c + of_bool b * num MOD < B256 then 0 else B256) = num c + of_bool b * num MOD"
proof -
  obtain o1 br where p: "add_loop 0 c (map (\<lambda>d. d AND masked b) MOD) = (o1, br)" by (rule prod.exhaust)
  then show "digits out" "num out + (if num c + of_bool b * num MOD < B256 then 0 else B256) = num c + of_bool b * num MOD"
    using assms(3) add_loop_digits[OF assms(2) masked_num(1)[OF assms(1)] p]
    by (simp_all add: addM_p256_def masked_num(2)[OF assms(1)])
qed

lemma mulAdd_num:
  assumes "digits a" "digits c" "mulAdd a b 0 c = (tp, out)"
  shows "digits out" "num out + B256 * unat tp = num c + unat b * num a"
proof -
  obtain o1 carry where p: "mulAdd_loop b 0 a c = (o1, carry)" by (rule prod.exhaust)
  have n: "length o1 = length c \<and> unat carry < 2 ^ 32 \<and> num o1 + 2 ^ (32 * length c) * unat carry = num c + unat b * num a"
    using mulAdd_loop_num[OF _ _ p] assms(1,2) by (simp add: digits_def)
  have o: "tp = ucast carry" "out = o1" using assms(3) by (simp_all add: mulAdd_def p)
  have "unat tp = unat carry" using n unfolding o unat_lo by simp
  then show "digits out" "num out + B256 * unat tp = num c + unat b * num a"
    using n o(2) assms(2) by (simp_all add: digits_def)
qed

lemma mod_ok_num:
  assumes "mod_ok MOD"
  shows "digits MOD" "B256 - 2 ^ 224 \<le> num MOD" "num MOD < B256"
proof -
  show d: "digits MOD" using assms by (simp add: mod_ok_def)
  then show "num MOD < B256" by (rule num_less_B256)
  have l: "length MOD = 8" using d by (simp add: digits_def)
  then have "MOD = take 7 MOD @ [MOD ! 7]" by (simp flip: take_Suc_conv_app_nth)
  then have "num MOD = num (take 7 MOD @ [- 1])" using assms by (simp add: mod_ok_def)
  then have "num MOD = num (take 7 MOD) + 2 ^ 224 * 4294967295" using l by (simp add: num_append unsigned_minus_1_eq_mask mask_eq_exp_minus_1)
  then show "B256 - 2 ^ 224 \<le> num MOD" by simp
qed

lemma p256_mod_num:
  assumes "mod_ok MOD" "digits a"
  shows "digits (p256_mod MOD a)" "num (p256_mod MOD a) = num a mod num MOD"
proof -
  note m = mod_ok_num[OF assms(1)]
  obtain msk c where s: "subM_p256 MOD 0 a (masked True) = (msk, c)" by (rule prod.exhaust)
  note sub = subM_digits[OF m(1) assms(2) s]
  obtain t out where a: "addM_p256 MOD 0 c (masked (num a < num MOD)) = (t, out)" by (rule prod.exhaust)
  note add = addM_digits[OF m(1) sub(1) a]
  have "p256_mod MOD a = out" using s a sub(2) by (simp add: p256_mod_def masked_def)
  moreover have "num out = num a mod num MOD"
  proof (cases "num a < num MOD")
    case True
    then have "num out = num a" using sub(3) add(2) by simp
    then show ?thesis using True by simp
  next
    case False
    then have "num out + num MOD = num a" using sub(3) add(2) num_less_B256[OF sub(1)] by simp
    moreover have "num out < num MOD" using calculation m num_less_B256[OF assms(2)] by simp
    ultimately show ?thesis by (metis mod_add_self2 mod_less)
  qed
  ultimately show "digits (p256_mod MOD a)" "num (p256_mod MOD a) = num a mod num MOD" using add(1) by simp_all
qed

section \<open>Modular multiplication\<close>

lemma subTop_num:
  assumes "digits a" "digits c" "num a + B256 * unat ta \<le> num c + B256 * unat tc"
  obtains t out where "subTop ta a tc c = Inr (t, out)" "digits out"
    "num out + B256 * unat t + (num a + B256 * unat ta) = num c + B256 * unat tc"
proof -
  obtain out br where p: "sub_loop 0 c a = (out, br)" by (rule prod.exhaust)
  note s = sub_loop_digits[OF assms(2,1) p]
  define b where "b = (num c < num a)"
  define d where "d = int (unat tc) - int (unat ta) - of_bool b"
  define br1 where "br1 = borrow b + (ucast tc - ucast ta)"
  note st = sub_step[where b = b and x = tc and m = ta, folded br1_def d_def]
  have "B256 * (unat ta + of_bool b) < B256 * (unat tc + 1)"
    using assms(3) s(3) num_less_B256[OF s(1)] num_less_B256[OF assms(2)] num_less_B256[OF assms(1)]
    unfolding b_def by (cases "num c < num a") auto
  then have le: "unat ta + of_bool b \<le> unat tc" unfolding mult_less_cancel1 by simp
  then have d0: "0 \<le> d" "d < 4294967296" unfolding d_def using unat_u32_less[of tc] by (auto simp: of_bool_def simp del: of_nat_unat)
  have bb: "br + ucast tc - ucast ta = br1" using s(2) by (simp add: br1_def b_def)
  have "signed_drop_bit 32 br1 = 0" using st(2) d0 by (simp add: borrow_def)
  then have r: "subTop ta a tc c = Inr (ucast br1, out)"
    unfolding subTop_def p prod.case Let_def bb by (simp add: assertC_def)
  have "int (unat (ucast br1 :: u32)) = d" using st(1) d0 by simp
  then have u: "unat (ucast br1 :: u32) + unat ta + of_bool b = unat tc" using le unfolding d_def by (cases b) (simp_all del: of_nat_unat)
  have "num out + num a = num c + of_bool b * B256" using s(3) by (simp add: b_def)
  then have "num out + B256 * unat (ucast br1 :: u32) + (num a + B256 * unat ta) = num c + B256 * unat tc"
    unfolding u[symmetric] by (simp add: algebra_simps)
  then show thesis using that r s(1) by blast
qed

lemma digits_at_split: "length lo = i \<Longrightarrow> digits c \<Longrightarrow> digits_at (lo @ c @ r) i = c"
  by (simp add: digits_at_def P256_NDIGITS_def digits_def)

lemma put_digits_split: "length lo = i \<Longrightarrow> digits c \<Longrightarrow> put_digits (lo @ c @ r) i c' = lo @ c' @ r"
  by (simp add: put_digits_def P256_NDIGITS_def digits_def)

lemma digits_zero: "digits (replicate P256_NDIGITS 0)" "num (replicate P256_NDIGITS 0) = 0"
  by (simp_all add: digits_def P256_NDIGITS_def num_zeros)

lemma modmul_reduce_step_num:
  assumes "mod_ok MOD" "digits c" "length lo = i"
  obtains c' where "modmul_reduce_step MOD i tp (lo @ c @ r) = Inr (c' ! 7, lo @ c' @ r)" "digits c'"
    "num c' mod num MOD = (num c + B256 * unat tp) mod num MOD"
proof -
  note m = mod_ok_num[OF assms(1)]
  obtain tr red where rd: "mulAdd MOD tp 0 (replicate P256_NDIGITS 0) = (tr, red)" by (rule prod.exhaust)
  note red = mulAdd_num[OF m(1) digits_zero(1) rd, unfolded digits_zero(2)]
  have "unat tp * num MOD \<le> B256 * unat tp" using m(3) by (simp add: mult.commute)
  then have "num red + B256 * unat tr \<le> num c + B256 * unat tp" using red(2) by linarith
  from subTop_num[OF red(1) assms(2) this] obtain t1 c1 where st: "subTop tr red tp c = Inr (t1, c1)"
    "digits c1" "num c1 + B256 * unat t1 + (num red + B256 * unat tr) = num c + B256 * unat tp" by metis
  have tB: "unat tp * (B256 - num MOD) \<le> (2 ^ 32 - 1) * 2 ^ 224"
    using unat_u32_less[of tp] m by (intro mult_le_mono) auto
  have e1: "num c1 + B256 * unat t1 = num c + unat tp * (B256 - num MOD)"
    using st(3) red(2) m(3) by (simp add: diff_mult_distrib2 mult.commute)
  have "B256 * unat t1 < B256 * 2" using e1 tB num_less_B256[OF assms(2)] by simp
  then have "unat t1 < 2" by (simp only: mult_less_cancel1)
  then have "unat t1 = 0 \<or> unat t1 = 1" by linarith
  then have "t1 = 0 \<or> t1 = 1" by (simp add: word_unat_eq_iff)
  then have t1: "t1 = (if t1 = 1 then 1 else 0)" "t1 \<le> 1" "unat t1 = of_bool (t1 = 1)" "NOT (t1 - 1) = masked (t1 = 1)"
    by (auto simp: masked_def)
  define b where "b = (t1 = 1)"
  obtain t2 c2 where sm: "subM_p256 MOD t1 c1 (masked b) = (t2, c2)" by (rule prod.exhaust)
  note s = subM_digits[OF m(1) st(2) sm]
  have e2: "num c1 + of_bool b * B256 = num c + unat tp * (B256 - num MOD)" using e1 t1(3) by (simp add: b_def)
  have lt: "num c1 < of_bool b * num MOD \<longleftrightarrow> b"
    using e2 tB m(2) num_less_B256[OF assms(2)] by (cases b) simp_all
  have t2: "t2 = 0" using s(2)[unfolded lt] t1(1) unfolding b_def masked_def by (simp split: if_splits)
  have e3: "num c2 + of_bool b * num MOD = num c + unat tp * (B256 - num MOD)" using s(3) e2 unfolding lt by (cases b) simp_all
  have "num c2 + (unat tp + of_bool b) * num MOD = num c + B256 * unat tp"
  proof -
    have "unat tp * (B256 - num MOD) + unat tp * num MOD = B256 * unat tp"
      using m(3) by (simp flip: distrib_left)
    then show ?thesis using e3 unfolding distrib_right by linarith
  qed
  then have "num c2 mod num MOD = (num c + B256 * unat tp) mod num MOD" by (metis mod_mult_self1)
  moreover have "modmul_reduce_step MOD i tp (lo @ c @ r) = Inr (c2 ! 7, lo @ c2 @ r)"
    unfolding modmul_reduce_step_def rd prod.case Let_def digits_at_split[OF assms(3,2)] st(1) bindC_simps t1(4)
      b_def[symmetric] sm put_digits_split[OF assms(3,2)]
    using t1(2) t2 assms(3) s(1) by (simp add: assertC_def P256_NDIGITS_def digits_def nth_append)
  ultimately show thesis using that s(1) by blast
qed

lemma modmul_reduce_num:
  assumes "mod_ok MOD"
  shows "digits c \<Longrightarrow> length lo = i \<Longrightarrow> \<exists>c'. modmul_reduce MOD i tp (lo @ c @ r) = Inr c' \<and> digits (digits_at c' 0) \<and>
    num (digits_at c' 0) mod num MOD = (num lo + 2 ^ (32 * i) * (num c + B256 * unat tp)) mod num MOD"
proof (induction i arbitrary: tp lo c r)
  case 0
  obtain c' where s: "modmul_reduce_step MOD 0 tp ([] @ c @ r) = Inr (c' ! 7, [] @ c' @ r)" "digits c'"
    "num c' mod num MOD = (num c + B256 * unat tp) mod num MOD"
    using modmul_reduce_step_num[OF assms 0(1), of "[]" 0] by auto
  then show ?case using 0 digits_at_split[of "[]" 0 c' r] by simp
next
  case (Suc i)
  obtain l x where lo: "lo = l @ [x]" "length l = i" using Suc.prems(2) by (cases lo rule: rev_cases) auto
  obtain c' where s: "modmul_reduce_step MOD (Suc i) tp (lo @ c @ r) = Inr (c' ! 7, lo @ c' @ r)" "digits c'"
    "num c' mod num MOD = (num c + B256 * unat tp) mod num MOD"
    using modmul_reduce_step_num[OF assms Suc.prems(1,2)] by metis
  have l8: "length c' = 8" using s(2) by (simp add: digits_def)
  then have c': "c' = take 7 c' @ [c' ! 7]" by (simp flip: take_Suc_conv_app_nth)
  have nc: "num c' = num (take 7 c') + 2 ^ 224 * unat (c' ! 7)" using l8 by (subst c') (simp add: num_append)
  have dx: "digits (x # take 7 c')" using l8 by (simp add: digits_def)
  have "lo @ c' @ r = l @ (x # take 7 c') @ (c' ! 7) # r" using lo c' by (metis append.assoc append_Cons append_Nil)
  then obtain c2 where ih: "modmul_reduce MOD i (c' ! 7) (lo @ c' @ r) = Inr c2" "digits (digits_at c2 0)"
    "num (digits_at c2 0) mod num MOD =
       (num l + 2 ^ (32 * i) * (num (x # take 7 c') + B256 * unat (c' ! 7))) mod num MOD"
    using Suc.IH[OF dx lo(2), of "c' ! 7" "(c' ! 7) # r"] by auto
  have "num l + 2 ^ (32 * i) * (num (x # take 7 c') + B256 * unat (c' ! 7)) = num lo + 2 ^ (32 * Suc i) * num c'"
    unfolding lo(1) num_append nc lo(2) by (simp add: algebra_simps power_add)
  then have "num (digits_at c2 0) mod num MOD = (num lo + 2 ^ (32 * Suc i) * (num c + B256 * unat tp)) mod num MOD"
    using ih(3) s(3) by (metis mod_add_right_eq mod_mult_right_eq)
  then show ?case using s(1) ih(1,2) by simp
qed

lemma modmul_mul_num:
  assumes "digits a" "length b + i = 8" "(if i \<noteq> 0 then tmp[i + 7 := tp] else tmp) = lo @ mid @ replicate (9 - i) 0"
    "length lo = i" "digits mid" "modmul_mul a b i tp tmp = (tp', tmp')"
  shows "\<exists>lo' mid'. length lo' = 8 \<and> digits mid' \<and> tmp'[15 := tp'] = lo' @ mid' @ [0] \<and>
     num (lo' @ mid') = num (lo @ mid) + 2 ^ (32 * i) * (num a * num b)"
  using assms(2-)
proof (induction b arbitrary: i tp tmp lo mid)
  case Nil
  then show ?case by (intro exI[of _ lo] exI[of _ mid]) simp
next
  case (Cons d b)
  obtain t1 c where ma: "mulAdd a d 0 mid = (t1, c)" by (rule prod.exhaust)
  note m = mulAdd_num[OF assms(1) Cons.prems(4) ma]
  define z where "z = replicate (8 - i) (0 :: u32)"
  have i: "i < 8" using Cons.prems(1) by simp
  have tm: "(if i \<noteq> 0 then tmp[i + P256_NDIGITS - 1 := tp] else tmp) = lo @ mid @ 0 # z"
  proof -
    have "replicate (9 - i) (0 :: u32) = 0 # z" using i unfolding z_def by (simp add: Suc_diff_le numeral_eq_Suc flip: replicate_Suc)
    then show ?thesis using Cons.prems(2) by (auto simp: P256_NDIGITS_def add.commute split: if_splits)
  qed
  have e: "modmul_mul a b (i + 1) t1 (lo @ c @ 0 # z) = (tp', tmp')"
    using Cons.prems(5) unfolding modmul_mul.simps tm Let_def digits_at_split[OF Cons.prems(3,4)] ma prod.case
      put_digits_split[OF Cons.prems(3,4)] .
  obtain x c1 where c: "c = x # c1" "length c1 = 7" using m(1) by (cases c) (auto simp: digits_def)
  have up: "(lo @ c @ 0 # z)[i + 1 + 7 := t1] = (lo @ [x]) @ (c1 @ [t1]) @ z"
    using c Cons.prems(3) by (simp add: list_update_append)
  have dm: "digits (c1 @ [t1])" using c by (simp add: digits_def)
  have "num ((lo @ [x]) @ c1 @ [t1]) = num lo + 2 ^ (32 * i) * (num c + B256 * unat t1)"
    using c Cons.prems(3) by (simp add: num_append algebra_simps power_add)
  also have "\<dots> = num (lo @ mid) + 2 ^ (32 * i) * (unat d * num a)"
    unfolding m(2) using Cons.prems(3) by (simp add: num_append algebra_simps)
  finally have n: "num ((lo @ [x]) @ c1 @ [t1]) + 2 ^ (32 * (i + 1)) * (num a * num b) =
      num (lo @ mid) + 2 ^ (32 * i) * (num a * num (d # b))"
    by (simp add: algebra_simps power_add)
  show ?case using Cons.IH[of "i + 1" "lo @ c @ 0 # z" t1 "lo @ [x]" "c1 @ [t1]", OF _ _ _ dm e] up Cons.prems(1,3)
    unfolding n by (simp add: z_def)
qed

lemma p256_modmul_num:
  assumes "mod_ok MOD" "digits a" "digits b"
  obtains c where "p256_modmul MOD a top_b b = Inr c" "digits c"
    "num c = (num a * (num b + B256 * unat top_b)) mod num MOD"
proof -
  obtain tp tmp where mm: "modmul_mul a b 0 0 (replicate (2 * P256_NDIGITS + 1) 0) = (tp, tmp)" by (rule prod.exhaust)
  have z: "replicate (2 * P256_NDIGITS + 1) (0 :: u32) = [] @ replicate P256_NDIGITS 0 @ replicate 9 0"
    by (simp add: P256_NDIGITS_def flip: replicate_add)
  obtain lo mid where s: "length lo = 8" "digits mid" "tmp[15 := tp] = lo @ mid @ [0]" "num (lo @ mid) = num a * num b"
    using modmul_mul_num[OF assms(2) _ _ _ digits_zero(1) mm, of "[]"] assms(3)
    by (auto simp: digits_def P256_NDIGITS_def num_zeros simp flip: replicate_add)
  obtain t1 c where ma: "mulAdd a top_b 0 mid = (t1, c)" by (rule prod.exhaust)
  note m = mulAdd_num[OF assms(2) s(2) ma]
  obtain c' where r: "modmul_reduce MOD 8 t1 (lo @ c @ [0]) = Inr c'" "digits (digits_at c' 0)"
    "num (digits_at c' 0) mod num MOD = (num lo + 2 ^ (32 * 8) * (num c + B256 * unat t1)) mod num MOD"
    using modmul_reduce_num[OF assms(1) m(1) s(1)] by blast
  have t: "tmp[2 * 8 - 1 := tp] = lo @ mid @ [0]" using s(3) by simp
  have P8: "P256_NDIGITS = 8" by (simp add: P256_NDIGITS_def)
  have "p256_modmul MOD a top_b b = Inr (p256_mod MOD (digits_at c' 0))"
    unfolding p256_modmul_def mm[unfolded P8] Let_def prod.case t P8 digits_at_split[OF s(1,2)] ma put_digits_split[OF s(1,2)] r(1) bindC_simps
    by (simp add: p256_mod_def split_beta)
  moreover note p256_mod_num[OF assms(1) r(2)]
  moreover have "num lo + 2 ^ (32 * 8) * (num c + B256 * unat t1) = num a * (num b + B256 * unat top_b)"
    using s(1,4) unfolding m(2) num_append by (simp add: algebra_simps)
  ultimately show thesis using that r(3) by metis
qed

section \<open>Halving\<close>

lemma shr_digit:
  fixes x y :: u32
  shows "unat (drop_bit 1 x OR push_bit 31 y) = unat x div 2 + 2 ^ 31 * (unat y mod 2)"
proof -
  have d: "drop_bit 1 x AND push_bit 31 y = 0"
    by (rule bit_word_eqI) (auto simp: bit_and_iff bit_drop_bit_eq bit_push_bit_iff dest: bit_imp_le_length)
  have hx: "unat (drop_bit 1 x) = unat x div 2" by (simp add: drop_bit_Suc unat_div_distrib)
  have "unat (push_bit 31 y) = 2 ^ 31 * unat y mod 2 ^ 32"
    by (simp add: push_bit_eq_mult unat_word_ariths mult.commute)
  also have "\<dots> = 2 ^ 31 * (unat y mod 2)" using mult_mod_right[of "2 ^ 31" "unat y" 2] by simp
  finally have hy: "unat (push_bit 31 y) = 2 ^ 31 * (unat y mod 2)" .
  have "unat (drop_bit 1 x) + unat (push_bit 31 y) < 2 ^ 32"
    unfolding hx hy using unat_u32_less[of x] mod_less_divisor[of 2 "unat y"] by simp
  then have "unat (drop_bit 1 x + push_bit 31 y) = unat (drop_bit 1 x) + unat (push_bit 31 y)"
    by (simp add: unat_word_ariths)
  then show ?thesis unfolding hx hy disjunctive_add_eq_or[OF d] .
qed

lemma num_mod2: "num (x # a) mod 2 = unat x mod 2"
  using mod_mult_self2[of "unat x" 2 "2 ^ 31 * num a"] by simp

lemma shr_list_num:
  "a \<noteq> [] \<Longrightarrow> length (shr_list a h) = length a \<and>
     2 * num (shr_list a h) + num a mod 2 = num a + 2 ^ (32 * length a) * (unat h mod 2)"
proof (induction a h rule: shr_list.induct)
  case (2 x h)
  then show ?case using shr_digit[of x h] by simp
next
  case (3 x y a h)
  define n where "n = num (y # a)"
  define m where "m = num (shr_list (y # a) h)"
  define K where "K = (2 ^ (32 * length (y # a)) :: nat)"
  have "n mod 2 = unat y mod 2" unfolding n_def by (rule num_mod2)
  then have ih: "length (shr_list (y # a) h) = length (y # a)" "2 * m + unat y mod 2 = n + K * (unat h mod 2)"
    using 3 by (simp_all add: n_def m_def K_def)
  have "num (x # y # a) mod 2 = unat x mod 2" by (rule num_mod2)
  moreover have "num (shr_list (x # y # a) h) = unat x div 2 + 2 ^ 31 * (unat y mod 2) + 2 ^ 32 * m"
    using shr_digit[of x y] by (simp add: m_def)
  moreover have "2 ^ (32 * length (x # y # a)) = 2 ^ 32 * K" by (simp add: K_def power_add)
  ultimately have "2 * num (shr_list (x # y # a) h) + num (x # y # a) mod 2 =
      unat x + 2 ^ 32 * (2 * m + unat y mod 2)" by simp
  then have "2 * num (shr_list (x # y # a) h) + num (x # y # a) mod 2 = num (x # y # a) + 2 ^ 32 * K * (unat h mod 2)"
    unfolding ih(2) by (simp add: n_def distrib_left)
  then show ?case using ih(1) by (simp add: K_def power_add)
qed simp

lemma half_sum: "2 * n + k mod 2 = k + 2 * t \<Longrightarrow> n = (k + 2 * t) div 2" for n k t :: nat
  using div_mult_mod_eq[of k 2] by (simp add: mult.commute)

lemma B256_twice: "B256 * t = 2 * (2 ^ 255 * t)"
  by simp

lemma p256_shr1_num:
  assumes "digits a"
  shows "digits (p256_shr1 a h)" "num (p256_shr1 a h) = (num a + B256 * (unat h mod 2)) div 2"
proof -
  obtain a0 a1 a2 a3 a4 a5 a6 a7 where "a = [a0, a1, a2, a3, a4, a5, a6, a7]"
    using assms by (auto simp: digits_def length_Suc_conv numeral_eq_Suc)
  then have e: "p256_shr1 a h = shr_list a h" by (simp add: p256_shr1_def P256_NDIGITS_def upt_rec)
  have a: "a \<noteq> []" using assms by (auto simp: digits_def)
  note s = shr_list_num[OF a, of h]
  show "digits (p256_shr1 a h)" using s assms by (simp add: e digits_def)
  have "2 * num (p256_shr1 a h) + num a mod 2 = num a + B256 * (unat h mod 2)"
    using s assms by (simp add: e digits_def)
  from half_sum[OF this[unfolded B256_twice]]
  show "num (p256_shr1 a h) = (num a + B256 * (unat h mod 2)) div 2" unfolding B256_twice .
qed

section \<open>Inversion\<close>

lemma half_mod_num:
  assumes "mod_ok MOD" "odd (num MOD)" "digits R" "num R < num MOD"
  shows "digits (half_mod MOD R)" "num (half_mod MOD R) < num MOD"
    "2 * num (half_mod MOD R) mod num MOD = num R mod num MOD"
proof -
  note m = mod_ok_num[OF assms(1)]
  have *: "digits (half_mod MOD R) \<and> num (half_mod MOD R) < num MOD \<and>
      2 * num (half_mod MOD R) mod num MOD = num R mod num MOD"
  proof (cases "even (num R)")
    case True
    then have "half_mod MOD R = p256_shr1 R 0" using assms(3) by (simp add: half_mod_def p256_is_even_num)
    then show ?thesis using p256_shr1_num[OF assms(3), of 0] True assms(4) by simp
  next
    case False
    obtain c R1 where a: "p256_add R MOD = (c, R1)" by (rule prod.exhaust)
    note ad = p256_add_num[OF assms(3) m(1) a]
    have e: "half_mod MOD R = p256_shr1 R1 c" using assms(3) False by (simp add: half_mod_def p256_is_even_num a)
    have "num R1 + B256 * (unat c mod 2) = num R + num MOD"
      using ad(3) unfolding ad(2) by (simp split: if_splits)
    then have n: "num (half_mod MOD R) = (num R + num MOD) div 2" unfolding e p256_shr1_num(2)[OF ad(1)] by simp
    have "2 * num (half_mod MOD R) = num R + num MOD" unfolding n using False assms(2) by simp
    then show ?thesis using p256_shr1_num(1)[OF ad(1)] assms(4) e by simp
  qed
  then show "digits (half_mod MOD R)" "num (half_mod MOD R) < num MOD"
    "2 * num (half_mod MOD R) mod num MOD = num R mod num MOD" by simp_all
qed

lemma sub_mod_num:
  assumes "digits MOD" "digits S" "digits R" "num S < num MOD" "num R < num MOD"
  shows "digits (sub_mod MOD S R)" "num (sub_mod MOD S R) < num MOD"
    "(num (sub_mod MOD S R) + num R) mod num MOD = num S mod num MOD"
proof -
  obtain br S1 where s: "p256_sub S R = (br, S1)" by (rule prod.exhaust)
  note sb = p256_sub_num[OF assms(2,3) s]
  obtain c S2 where a: "p256_add S1 MOD = (c, S2)" by (rule prod.exhaust)
  note ad = p256_add_num[OF sb(1) assms(1) a]
  have *: "digits (sub_mod MOD S R) \<and> num (sub_mod MOD S R) < num MOD \<and>
     (num (sub_mod MOD S R) + num R) mod num MOD = num S mod num MOD"
  proof (cases "num S < num R")
    case True
    then have e: "sub_mod MOD S R = S2" by (simp add: sub_mod_def s a sb(2))
    have "num S2 + num R = num S + num MOD" using ad(3) sb(3) True assms(4,5) by (auto split: if_splits)
    then show ?thesis using ad(1) e True by simp
  next
    case False
    then have "sub_mod MOD S R = S1" by (simp add: sub_mod_def s sb(2))
    then show ?thesis using sb False assms(4) by simp
  qed
  then show "digits (sub_mod MOD S R)" "num (sub_mod MOD S R) < num MOD"
    "(num (sub_mod MOD S R) + num R) mod num MOD = num S mod num MOD" by simp_all
qed

lemma mod_halves:
  fixes x y m :: nat
  assumes "odd m" "2 * x mod m = 2 * y mod m"
  shows "x mod m = y mod m"
proof -
  have "int m dvd 2 * int x - 2 * int y" using assms(2) by (metis mod_eq_dvd_iff of_nat_mod of_nat_mult of_nat_numeral)
  then have "int m dvd 2 * (int x - int y)" by (simp add: right_diff_distrib)
  moreover have "coprime (int m) 2" using assms(1) by simp
  ultimately have "int m dvd int x - int y" by (rule coprime_dvd_mult_right_iff[THEN iffD1, rotated])
  then show ?thesis by (metis mod_eq_dvd_iff of_nat_eq_iff of_nat_mod)
qed

lemma mod_differences:
  fixes a x y z u v m :: nat
  assumes "a * x mod m = u mod m" "a * y mod m = v mod m" "(z + y) mod m = x mod m" "v \<le> u"
  shows "a * z mod m = (u - v) mod m"
proof -
  have i: "int m dvd int p - int q" if "p mod m = q mod m" for p q
    using that by (metis mod_eq_dvd_iff of_nat_mod)
  have "int m dvd int a * int x - int u" "int m dvd int a * int y - int v" "int m dvd int z + int y - int x"
    using i[OF assms(1)] i[OF assms(2)] i[OF assms(3)] by simp_all
  then have "int m dvd (int a * (int z + int y - int x)) + (int a * int x - int u) - (int a * int y - int v)"
    by (meson dvd_add dvd_diff dvd_mult)
  then have "int m dvd int (a * z) - int (u - v)" using assms(4) by (simp add: of_nat_diff algebra_simps)
  then show ?thesis by (metis mod_eq_dvd_iff of_nat_eq_iff of_nat_mod)
qed

lemma gcd_half: "even x \<Longrightarrow> odd y \<Longrightarrow> gcd (x div 2) y = gcd x y" for x y :: nat
  by (metis coprime_right_2_iff_odd dvd_mult_div_cancel gcd_mult_left_left_cancel)

lemma modinv_inv_even:
  assumes "mod_ok MOD" "odd (num MOD)" "modinv_inv MOD a R S U V" "even (num U)"
  shows "modinv_inv MOD a (half_mod MOD R) S (p256_shr1 U 0) V" "num (p256_shr1 U 0) < num U"
proof -
  note i = assms(3)[unfolded modinv_inv_def]
  note h = half_mod_num[OF assms(1,2), of R] and u = p256_shr1_num[of U 0]
  have "2 * (a * num (half_mod MOD R)) mod num MOD = a * (2 * num (half_mod MOD R)) mod num MOD" by (simp add: mult.left_commute)
  also have "\<dots> = a * num R mod num MOD" using h(3) i by (metis mod_mult_right_eq)
  also have "\<dots> = 2 * (num U div 2) mod num MOD" using i assms(4) by simp
  finally have "a * num (half_mod MOD R) mod num MOD = (num U div 2) mod num MOD" by (rule mod_halves[OF assms(2)])
  then show "modinv_inv MOD a (half_mod MOD R) S (p256_shr1 U 0) V"
    using i h u assms(4) unfolding modinv_inv_def by (auto simp: gcd_half)
  show "num (p256_shr1 U 0) < num U" using i u by simp
qed

lemma modinv_inv_commute: "modinv_inv MOD a R S U V \<longleftrightarrow> modinv_inv MOD a S R V U"
  unfolding modinv_inv_def by (auto simp: gcd.commute)

lemma modinv_inv_sub:
  assumes "mod_ok MOD" "modinv_inv MOD a R S U V" "num V < num U" "odd (num U)" "odd (num V)" "p256_sub U V = (br, U1)"
  shows "modinv_inv MOD a (sub_mod MOD R S) S U1 V" "num U1 < num U" "br = 0"
proof -
  note i = assms(2)[unfolded modinv_inv_def]
  note s = p256_sub_num[OF _ _ assms(6)] and sm = sub_mod_num[OF mod_ok_num(1)[OF assms(1)], of R S]
  have u: "num U1 = num U - num V" "digits U1" using s i assms(3) by simp_all
  have "a * num (sub_mod MOD R S) mod num MOD = (num U - num V) mod num MOD"
    using mod_differences[of a "num R" "num MOD" "num U" "num S" "num V" "num (sub_mod MOD R S)"] i sm(3) assms(3) by simp
  moreover have "gcd (num U - num V) (num V) = gcd (num U) (num V)" using assms(3) by (simp add: gcd_diff1_nat)
  ultimately show "modinv_inv MOD a (sub_mod MOD R S) S U1 V"
    using i sm(1,2) u assms(3,5) unfolding modinv_inv_def by simp
  show "num U1 < num U" using u i assms(3) by simp
  show "br = 0" using s(2) i assms(3) by simp
qed

lemma modinv_loop_ends:
  assumes "mod_ok MOD" "odd (num MOD)"
  shows "modinv_inv MOD a R S U V \<Longrightarrow> \<exists>r. modinv_loop MOD R S U V = Some r \<and> digits r \<and> num r < num MOD \<and>
    a * num r mod num MOD = gcd a (num MOD) mod num MOD"
proof (induction "num U + num V" arbitrary: R S U V rule: less_induct)
  case less
  note i = less.prems[unfolded modinv_inv_def]
  note ev = p256_is_even_num[of U] p256_is_even_num[of V]
  obtain b1 V1 where v: "p256_sub V U = (b1, V1)" by (rule prod.exhaust)
  obtain b2 U1 where u: "p256_sub U V = (b2, U1)" by (rule prod.exhaust)
  note sv = p256_sub_num[OF _ _ v]
  note unf = modinv_loop.simps[of MOD R S U V] v u
  consider "even (num U)" | "odd (num U)" "even (num V)" | "odd (num U)" "odd (num V)" "num V < num U"
    | "odd (num U)" "odd (num V)" "num U < num V" | "odd (num U)" "odd (num V)" "num U = num V" by linarith
  then show ?case
  proof cases
    case 1
    note s = modinv_inv_even[OF assms less.prems 1]
    show ?thesis using less.hyps[OF _ s(1)] s(2) 1 i ev by (simp add: unf)
  next
    case 2
    note s = modinv_inv_even[OF assms modinv_inv_commute[THEN iffD1, OF less.prems] 2(2)]
    show ?thesis using less.hyps[OF _ modinv_inv_commute[THEN iffD1, OF s(1)]] s(2) 2 i ev by (simp add: unf)
  next
    case 3
    note s = modinv_inv_sub[OF assms(1) less.prems 3(3,1,2) u]
    show ?thesis using less.hyps[OF _ s(1)] s(2) 3 i ev sv(2) by (simp add: unf)
  next
    case 4
    note s = modinv_inv_sub[OF assms(1) modinv_inv_commute[THEN iffD1, OF less.prems] 4(3,2,1) v]
    have "0 < num V1" using s(1) by (simp add: modinv_inv_def)
    then show ?thesis using less.hyps[OF _ modinv_inv_commute[THEN iffD1, OF s(1)]] s(2,3) 4 i ev
      by (simp add: unf p256_is_zero_num)
  next
    case 5
    then have "num V1 = 0" using sv i by simp
    moreover have "gcd a (num MOD) = num U" using i 5(3) by simp
    ultimately show ?thesis using 5 i ev sv(2) by (simp add: unf p256_is_zero_num del: gcd_unique_nat)
  qed
qed

lemma modinv_start:
  assumes "mod_ok MOD" "odd (num MOD)" "digits a" "0 < num a"
  shows "modinv_inv MOD (num a) P256_ZERO P256_ONE MOD a"
proof -
  note m = mod_ok_num[OF assms(1)]
  have z: "digits P256_ZERO" "num P256_ZERO = 0" using digits_zero by (simp_all add: P256_ZERO_def)
  have o: "digits P256_ONE" "num P256_ONE = 1" by (simp_all add: P256_ONE_def P256_NDIGITS_def digits_def num_zeros)
  have "1 < num MOD" using m(2) by simp
  then show ?thesis unfolding modinv_inv_def using z o m assms by (simp add: gcd.commute)
qed

lemma p256_modinv_num:
  assumes "mod_ok MOD" "odd (num MOD)" "digits a" "0 < num a"
  obtains b where "p256_modinv_vartime MOD a = Some b" "digits b" "num b < num MOD"
    "num a * num b mod num MOD = gcd (num a) (num MOD) mod num MOD"
proof -
  obtain r where r: "modinv_loop MOD P256_ZERO P256_ONE MOD a = Some r" "digits r" "num r < num MOD"
    "num a * num r mod num MOD = gcd (num a) (num MOD) mod num MOD"
    using modinv_loop_ends[OF assms(1,2) modinv_start[OF assms]] by blast
  show thesis using that[of "p256_mod MOD r"] r p256_mod_num[OF assms(1) r(2)] by (simp add: p256_modinv_vartime_def)
qed

lemma modinv_loop_zero:
  assumes "modinv_loop MOD R S U V = Some r" "digits U" "digits V" "odd (num U)"
  shows "0 < num V"
proof -
  have "digits U \<longrightarrow> digits V \<longrightarrow> odd (num U) \<longrightarrow> 0 < num V"
  proof (rule modinv_loop.raw_induct[where P = "\<lambda>MOD R S U V r. digits U \<longrightarrow> digits V \<longrightarrow> odd (num U) \<longrightarrow> 0 < num V", OF _ assms(1)])
    fix f and MOD R S U V r
    assume ih: "\<And>MOD R S U V r. f MOD R S U V = Some r \<Longrightarrow> digits U \<longrightarrow> digits V \<longrightarrow> odd (num U) \<longrightarrow> 0 < num V"
    and r: "(if p256_is_even U then f MOD (half_mod MOD R) S (p256_shr1 U 0) V
      else if p256_is_even V then f MOD R (half_mod MOD S) U (p256_shr1 V 0)
      else if fst (p256_sub V U) = 0
      then (let V1 = snd (p256_sub V U); S1 = sub_mod MOD S R
            in if p256_is_zero V1 then Some R else f MOD R S1 U V1)
      else f MOD (sub_mod MOD R S) S (snd (p256_sub U V)) V) = Some r"
    show "digits U \<longrightarrow> digits V \<longrightarrow> odd (num U) \<longrightarrow> 0 < num V"
    proof (intro impI)
      assume d: "digits U" "digits V" "odd (num U)"
      show "0 < num V"
      proof (cases "even (num V)")
        case True
        then have "f MOD R (half_mod MOD S) U (p256_shr1 V 0) = Some r" using r d by (simp add: p256_is_even_num)
        from ih[OF this] show ?thesis using d p256_shr1_num[OF d(2), of 0] by simp
      qed (simp add: odd_pos)
    qed
  qed
  then show ?thesis using assms by simp
qed

text \<open>C14: The binary inversion modulo an odd modulus returns exactly when its argument is not zero; for
  zero the loop halves zero forever.\<close>

theorem p256_modinv_vartime_terminates:
  assumes "mod_ok MOD" "odd (num MOD)" "digits a"
  shows "p256_modinv_vartime MOD a \<noteq> None \<longleftrightarrow> num a \<noteq> 0"
proof (cases "num a = 0")
  case True
  then show ?thesis
    using modinv_loop_zero[of MOD P256_ZERO P256_ONE MOD a] mod_ok_num(1)[OF assms(1)] assms
    by (cases "modinv_loop MOD P256_ZERO P256_ONE MOD a") (auto simp: p256_modinv_vartime_def)
next
  case False
  then show ?thesis using p256_modinv_num[OF assms] by auto
qed

lemma unat_ones: "unat (- 1 :: u32) = 4294967295"
  by (simp add: unsigned_minus_1_eq_mask mask_eq_exp_minus_1)

lemma mod_ok_n: "mod_ok SECP256r1_n" "odd (num SECP256r1_n)"
  by (simp_all add: mod_ok_def digits_def SECP256r1_n_def unat_ones)

lemma mod_ok_p: "mod_ok SECP256r1_p" "odd (num SECP256r1_p)"
  by (simp_all add: mod_ok_def digits_def SECP256r1_p_def unat_ones)

theorem p256_modinv_vartime_terminates_witness:
  "p256_modinv_vartime SECP256r1_n P256_ZERO = None \<and> p256_modinv_vartime SECP256r1_n P256_ONE \<noteq> None"
  using p256_modinv_vartime_terminates[OF mod_ok_n, of P256_ZERO] p256_modinv_vartime_terminates[OF mod_ok_n, of P256_ONE]
  by (simp add: digits_def P256_ZERO_def P256_ONE_def P256_NDIGITS_def num_zeros)

text \<open>C12: For a modulus whose highest word is all ones, multiplication returns the product modulo the
  modulus, with an extra digit above the second factor taken into account; the assertions of
  the reduction never fail.\<close>

theorem p256_modmul_correct:
  assumes "mod_ok MOD" "digits a" "digits b"
  shows "\<exists>c. p256_modmul MOD a top_b b = Inr c \<and> digits c \<and>
    num c = num a * (num b + 2 ^ 256 * unat top_b) mod num MOD"
  using p256_modmul_num[OF assms] by metis

text \<open>The largest number of 256 bits squared, modulo the order of the curve.\<close>

theorem p256_modmul_correct_witness:
  "\<exists>c. p256_modmul SECP256r1_n [- 1, - 1, - 1, - 1, - 1, - 1, - 1, - 1] 0 [- 1, - 1, - 1, - 1, - 1, - 1, - 1, - 1] = Inr c \<and>
     num c = (2 ^ 256 - 1) * (2 ^ 256 - 1) mod num SECP256r1_n"
proof -
  define x :: p256_int where "x = [- 1, - 1, - 1, - 1, - 1, - 1, - 1, - 1]"
  have n: "digits x" "num x = 2 ^ 256 - 1" by (simp_all add: x_def digits_def unat_ones)
  obtain c where "p256_modmul SECP256r1_n x 0 x = Inr c" "num c = num x * (num x + 2 ^ 256 * unat (0 :: u32)) mod num SECP256r1_n"
    using p256_modmul_correct[OF mod_ok_n(1) n(1) n(1), of 0] by blast
  then show ?thesis unfolding x_def[symmetric] n(2) unat_0 mult_0_right add_0_right by blast
qed

text \<open>C13: Inversion modulo an odd modulus: for every number that has no common divisor with the modulus
  the result is its inverse.\<close>

theorem p256_modinv_vartime_correct:
  assumes "mod_ok MOD" "odd (num MOD)" "digits a" "coprime (num a) (num MOD)"
  shows "\<exists>b. p256_modinv_vartime MOD a = Some b \<and> digits b \<and> num b < num MOD \<and> num a * num b mod num MOD = 1"
proof -
  have m: "1 < num MOD" using mod_ok_num(2)[OF assms(1)] by simp
  then have "0 < num a" using assms(4) by (cases "num a") auto
  from p256_modinv_num[OF assms(1-3) this] obtain b where "p256_modinv_vartime MOD a = Some b" "digits b"
    "num b < num MOD" "num a * num b mod num MOD = gcd (num a) (num MOD) mod num MOD" .
  then show ?thesis using assms(4) m by (simp add: coprime_iff_gcd_eq_1)
qed

theorem p256_modinv_vartime_correct_witness:
  "\<exists>b. p256_modinv_vartime SECP256r1_n [2, 0, 0, 0, 0, 0, 0, 0] = Some b \<and> num b < num SECP256r1_n \<and>
     2 * num b mod num SECP256r1_n = 1"
  using p256_modinv_vartime_correct[OF mod_ok_n, of "[2, 0, 0, 0, 0, 0, 0, 0]"] mod_ok_n(2)
  by (auto simp: digits_def)

lemma curve_values: "curve_p = 0xffffffff00000001000000000000000000000000ffffffffffffffffffffffff"
  "curve_b = 0x5ac635d8aa3a93e7b3ebbd55769886bc651d06b0cc53b0f63bce3c3e27d2604b" "digits SECP256r1_b"
  by (simp_all add: SECP256r1_p_def SECP256r1_b_def unat_ones digits_def)

lemma sub_mod_thrice:
  fixes c1 c2 c3 x t p :: nat
  assumes "(c1 + x) mod p = t mod p" "(c2 + x) mod p = c1 mod p" "(c3 + x) mod p = c2 mod p" "c3 < p" "3 \<le> p"
  shows "c3 = (t + (p - 3) * x) mod p"
proof -
  have "(c3 + 3 * x) mod p = ((c3 + x) mod p + 2 * x) mod p" by (simp add: mod_simps add.commute)
  also have "\<dots> = (c2 + x + x) mod p" unfolding assms(3) by (simp add: mod_simps mult_2 add.assoc)
  also have "\<dots> = (c1 + x) mod p" using assms(2) by (metis mod_add_left_eq)
  also have "\<dots> = t mod p" by (rule assms(1))
  finally have "(c3 + 3 * x + (p - 3) * x) mod p = (t + (p - 3) * x) mod p" by (metis mod_add_left_eq)
  moreover have "c3 + 3 * x + (p - 3) * x = c3 + x * p" using assms(5) by (simp add: algebra_simps flip: distrib_left)
  ultimately show ?thesis using assms(4) by simp
qed

lemma p256_from_bin_num:
  assumes "length src = 32"
  shows "digits (p256_from_bin src)" "num (p256_from_bin src) = be_val src"
  using num_words_of_bytes[of src P256_NDIGITS] assms by (simp_all add: p256_from_bin_def P256_NDIGITS_def digits_def)

lemma curve_right_side:
  assumes "digits x" "digits x3" "num x < curve_p" "num x3 = num x ^ 3 mod curve_p"
    and e: "p256_add (sub_mod SECP256r1_p (sub_mod SECP256r1_p (sub_mod SECP256r1_p x3 x) x) x) SECP256r1_b = (carry, d)"
  shows "digits d" "num d + (if carry = 0 then 0 else 2 ^ 256) = cubic (num x) + curve_b"
    "carry \<noteq> 0 \<longleftrightarrow> 2 ^ 256 \<le> cubic (num x) + curve_b"
proof -
  note P = mod_ok_num(1)[OF mod_ok_p(1)]
  have p3: "3 \<le> curve_p" by (simp add: curve_values)
  have "num x3 < curve_p" using assms(4) p3 by simp
  note s1 = sub_mod_num[OF P assms(2,1) this assms(3)]
  note s2 = sub_mod_num[OF P s1(1) assms(1) s1(2) assms(3)]
  note s3 = sub_mod_num[OF P s2(1) assms(1) s2(2) assms(3)]
  have "num x3 mod curve_p = num x ^ 3 mod curve_p" using assms(4) by simp
  then have c: "num (sub_mod SECP256r1_p (sub_mod SECP256r1_p (sub_mod SECP256r1_p x3 x) x) x) = cubic (num x)"
    unfolding cubic_def by (intro sub_mod_thrice[OF _ s2(3) s3(3,2) p3]) (simp add: s1(3))
  note a = p256_add_num[OF s3(1) curve_values(3) e, unfolded c]
  show "digits d" by (rule a(1))
  show "num d + (if carry = 0 then 0 else 2 ^ 256) = cubic (num x) + curve_b" using a(3) unfolding a(2) by (auto split: if_splits)
  show "carry \<noteq> 0 \<longleftrightarrow> 2 ^ 256 \<le> cubic (num x) + curve_b" unfolding a(2) by (auto split: if_splits)
qed

lemma curve_reduced:
  assumes "digits d" "num d + (if carry = 0 then 0 else 2 ^ 256) = cubic x + curve_b"
    "carry \<noteq> 0 \<longleftrightarrow> 2 ^ 256 \<le> cubic x + curve_b" "v < curve_p"
  shows "digits (if carry \<noteq> 0 then snd (p256_sub d SECP256r1_p) else d)"
    "v = num (if carry \<noteq> 0 then snd (p256_sub d SECP256r1_p) else d) \<longleftrightarrow>
       v = (cubic x + curve_b) mod curve_p \<and> \<not> (curve_p \<le> cubic x + curve_b \<and> cubic x + curve_b < 2 ^ 256)"
proof -
  note P = mod_ok_num[OF mod_ok_p(1)]
  have b: "curve_b < curve_p" "cubic x < curve_p" by (simp_all add: curve_values cubic_def)
  obtain br e where s: "p256_sub d SECP256r1_p = (br, e)" by (rule prod.exhaust)
  note sb = p256_sub_num[OF assms(1) P(1) s]
  show "digits (if carry \<noteq> 0 then snd (p256_sub d SECP256r1_p) else d)" using assms(1) sb(1) s by simp
  show "v = num (if carry \<noteq> 0 then snd (p256_sub d SECP256r1_p) else d) \<longleftrightarrow>
       v = (cubic x + curve_b) mod curve_p \<and> \<not> (curve_p \<le> cubic x + curve_b \<and> cubic x + curve_b < 2 ^ 256)"
  proof (cases "2 ^ 256 \<le> cubic x + curve_b")
    case True
    define c where "c = cubic x + curve_b"
    have c: "num d + 2 ^ 256 = c" "c < curve_p + curve_p" using assms(2,3) True b by (simp_all add: c_def)
    then have "num d < curve_p" using P(3) by linarith
    then have "num e + curve_p = c" using sb(3) c by simp
    then have "num e = c mod curve_p" using c(2) by (metis add_less_cancel_right mod_add_self2 mod_less)
    then show ?thesis using assms(3) True s by (simp add: c_def)
  next
    case False
    then show ?thesis using assms(2-4) by (cases "cubic x + curve_b < curve_p") auto
  qed
qed

lemma p256_is_valid_point_value:
  assumes "digits x" "digits y"
  shows "p256_is_valid_point x y =
    Inr (on_curve (num x) (num y) \<and> \<not> (curve_p \<le> cubic (num x) + curve_b \<and> cubic (num x) + curve_b < 2 ^ 256))"
proof (cases "num x < curve_p \<and> num y < curve_p \<and> 0 < num x \<and> 0 < num y")
  case False
  then show ?thesis using assms mod_ok_num(1)[OF mod_ok_p(1)]
    by (auto simp: p256_is_valid_point_def p256_cmp_num p256_is_zero_num on_curve_def not_less)
next
  case True
  note P = mod_ok_num(1)[OF mod_ok_p(1)] and mm = p256_modmul_num[OF mod_ok_p(1)]
  obtain y2 where y2: "p256_modmul SECP256r1_p y 0 y = Inr y2" "digits y2" "num y2 = num y ^ 2 mod curve_p"
    using mm[OF assms(2,2), of 0] by (auto simp: power2_eq_square)
  obtain x2 where x2: "p256_modmul SECP256r1_p x 0 x = Inr x2" "digits x2" "num x2 = num x ^ 2 mod curve_p"
    using mm[OF assms(1,1), of 0] by (auto simp: power2_eq_square)
  obtain x3 where x3: "p256_modmul SECP256r1_p x 0 x2 = Inr x3" "digits x3" "num x3 = num x ^ 3 mod curve_p"
    using mm[OF assms(1) x2(2), of 0] x2(3) by (auto simp: mod_simps power3_eq_cube power2_eq_square mult.assoc)
  obtain carry d where a: "p256_add (sub_mod SECP256r1_p (sub_mod SECP256r1_p (sub_mod SECP256r1_p x3 x) x) x) SECP256r1_b = (carry, d)"
    by (rule prod.exhaust)
  note r = curve_right_side[OF assms(1) x3(2) conjunct1[OF True] x3(3) a]
  have lt: "num y2 < curve_p" unfolding y2(3) by (simp add: curve_values)
  note f = curve_reduced[OF r lt]
  have "\<not> (p256_cmp SECP256r1_p x \<le> 0 \<or> p256_cmp SECP256r1_p y \<le> 0 \<or> p256_is_zero x \<or> p256_is_zero y)"
    using True assms P by (simp add: p256_cmp_num p256_is_zero_num)
  then have "p256_is_valid_point x y =
      Inr (p256_cmp y2 (if carry \<noteq> 0 then snd (p256_sub d SECP256r1_p) else d) = 0)"
    unfolding p256_is_valid_point_def y2(1) x2(1) x3(1) bindC_simps Let_def a by simp
  also have "\<dots> = Inr (num y2 = num (if carry \<noteq> 0 then snd (p256_sub d SECP256r1_p) else d))"
    unfolding p256_cmp_num[OF y2(2) f(1)] by simp
  finally show ?thesis using True unfolding f(2) by (simp add: on_curve_def y2(3))
qed

lemma mod_by: "a = q * m + t \<Longrightarrow> t < m \<Longrightarrow> a mod m = t" for a m t :: nat
  by simp

lemma cubic_base: "cubic 0x6b17d1f2e12c4247f8bce6e563a440f277037d812deb33a0f4a13945d898c296 = 0xfb19277ea6b9e7c6ce28d3e420fae341e46d8972d7bf04ea830ef0bdf9f18d45"
  unfolding cubic_def curve_values
  by (rule mod_by[where q = "0x12bdd1ad23dfc833dccf5f6141d6bb4a1f365dc1430b0e600b52dd851938d2d71736e5a1f1f311915c29ab59230f53242134be4c00f81c5faa1bd1a2b128c005"]) simp_all

lemma square_base: "0x4fe342e2fe1a7f9b8ee7eb4a7c0f9e162bce33576b315ececbb6406837bf51f5 ^ 2 mod curve_p = 0x55df5d5850f47bad82149139979369fe498a9022a412b5e0bedd2cfc21c3ed91"
  unfolding curve_values by (rule mod_by[where q = "0x18ee0d07e1cadf1365bd80dd843314dd534834655163ed44a7f051b975f0f918"]) simp_all

lemma cubic_gap: "cubic 0xd7325d7646cd60d80a92738ceb345f844cffaf35841022cab176f692de8de1d7 = 0xa539ca2655c56c194c1442aa896779439ae2f95033ac4f09c431c3c1d82d9fcd"
  unfolding cubic_def curve_values
  by (rule mod_by[where q = "0x981072b3fe76cb9eeac1e923227d57ecc56d41614c1796fe8072b594832aa3b8839f14405ac9922690259736fd36713108f9bb1541c8bc1566a46df0bdd72e62"]) simp_all

text \<open>C15: A point is accepted exactly when its coordinates are in range, it lies on the curve, and the
  right side of the equation, before its last reduction, does not fall between the prime
  and two to the power of 256: only a carry makes the code reduce the sum with the constant.\<close>

theorem p256_is_valid_point_correct:
  assumes "digits x" "digits y"
  shows "p256_is_valid_point x y =
    Inr (on_curve (num x) (num y) \<and> \<not> (num SECP256r1_p \<le> cubic (num x) + num SECP256r1_b \<and> cubic (num x) + num SECP256r1_b < 2 ^ 256))"
  by (rule p256_is_valid_point_value[OF assms])

text \<open>The base point of the curve.\<close>

theorem p256_is_valid_point_correct_witness:
  "p256_is_valid_point [0xd898c296, 0xf4a13945, 0x2deb33a0, 0x77037d81, 0x63a440f2, 0xf8bce6e5, 0xe12c4247, 0x6b17d1f2]
     [0x37bf51f5, 0xcbb64068, 0x6b315ece, 0x2bce3357, 0x7c0f9e16, 0x8ee7eb4a, 0xfe1a7f9b, 0x4fe342e2] = Inr True"
proof -
  have n: "num [0xd898c296, 0xf4a13945, 0x2deb33a0, 0x77037d81, 0x63a440f2, 0xf8bce6e5, 0xe12c4247, 0x6b17d1f2] = 0x6b17d1f2e12c4247f8bce6e563a440f277037d812deb33a0f4a13945d898c296" "num [0x37bf51f5, 0xcbb64068, 0x6b315ece, 0x2bce3357, 0x7c0f9e16, 0x8ee7eb4a, 0xfe1a7f9b, 0x4fe342e2] = 0x4fe342e2fe1a7f9b8ee7eb4a7c0f9e162bce33576b315ececbb6406837bf51f5" by simp_all
  have "on_curve 0x6b17d1f2e12c4247f8bce6e563a440f277037d812deb33a0f4a13945d898c296 0x4fe342e2fe1a7f9b8ee7eb4a7c0f9e162bce33576b315ececbb6406837bf51f5"
    unfolding on_curve_def cubic_base square_base by (simp add: curve_values)
  then show ?thesis
    by (subst p256_is_valid_point_correct) (simp_all only: n cubic_base, simp_all add: digits_def curve_values)
qed

text \<open>C28: There is a point on the curve that the check rejects.\<close>

theorem p256_is_valid_point_incomplete:
  "on_curve 0xd7325d7646cd60d80a92738ceb345f844cffaf35841022cab176f692de8de1d7 5 \<and>
   p256_is_valid_point [0xde8de1d7, 0xb176f692, 0x841022ca, 0x4cffaf35, 0xeb345f84, 0x0a92738c, 0x46cd60d8, 0xd7325d76]
     [5, 0, 0, 0, 0, 0, 0, 0] = Inr False"
proof
  show "on_curve 0xd7325d7646cd60d80a92738ceb345f844cffaf35841022cab176f692de8de1d7 5"
    unfolding on_curve_def cubic_gap by (simp add: curve_values)
  have n: "num [0xde8de1d7, 0xb176f692, 0x841022ca, 0x4cffaf35, 0xeb345f84, 0x0a92738c, 0x46cd60d8, 0xd7325d76] = 0xd7325d7646cd60d80a92738ceb345f844cffaf35841022cab176f692de8de1d7" by simp
  show "p256_is_valid_point [0xde8de1d7, 0xb176f692, 0x841022ca, 0x4cffaf35, 0xeb345f84, 0x0a92738c, 0x46cd60d8, 0xd7325d76]
     [5, 0, 0, 0, 0, 0, 0, 0] = Inr False"
    by (subst p256_is_valid_point_value) (simp_all only: n cubic_gap, simp_all add: digits_def curve_values)
qed

end
