(* ===== verification/Asn1_Decoder.thy ===== *)
theory Asn1_Decoder
  imports Prelude
begin

text \<open>
  The decoder of ASN.1 structures, \<^verbatim>\<open>bootable/recovery/asn1_decoder.cpp\<close>. A context is a pointer
  and a number of bytes; the pointer is an offset into a buffer, which may be outside of it, and
  every read checks that it is not. The functions that return a boolean and a context by
  reference return both; a returned null pointer is \<open>None\<close>. Whether an allocation succeeds is
  an argument.
\<close>

section \<open>Contexts\<close>

record asn1_context =
  ac_length :: nat
  ac_p :: int
  ac_app_type :: int

definition kMaskConstructed :: int where "kMaskConstructed = 0xE0"
definition kMaskTag :: int where "kMaskTag = 0x7F"
definition kMaskAppType :: int where "kMaskAppType = 0x1F"
definition kTagOctetString :: int where "kTagOctetString = 0x04"
definition kTagOid :: int where "kTagOid = 0x06"
definition kTagSequence :: int where "kTagSequence = 0x30"
definition kTagSet :: int where "kTagSet = 0x31"
definition kTagConstructed :: int where "kTagConstructed = 0xA0"

definition asn1_context_new :: "bool \<Rightarrow> int \<Rightarrow> nat \<Rightarrow> asn1_context option" where
  "asn1_context_new alloc_ok buffer len =
     (if alloc_ok then Some \<lparr>ac_length = len, ac_p = buffer, ac_app_type = 0\<rparr> else None)"

definition peek_byte :: "u8 list \<Rightarrow> asn1_context \<Rightarrow> int comp" where
  "peek_byte buf ctx = (if ac_length ctx = 0 then Inr (-1) else byte_at buf (ac_p ctx))"

definition get_byte :: "u8 list \<Rightarrow> asn1_context \<Rightarrow> (int \<times> asn1_context) comp" where
  "get_byte buf ctx =
     (if ac_length ctx = 0 then Inr (-1, ctx)
      else bindC (byte_at buf (ac_p ctx)) (\<lambda>byte.
             Inr (byte, ctx\<lparr>ac_p := ac_p ctx + 1, ac_length := ac_length ctx - 1\<rparr>)))"

definition skip_bytes :: "asn1_context \<Rightarrow> nat \<Rightarrow> bool \<times> asn1_context" where
  "skip_bytes ctx num_skip =
     (if ac_length ctx < num_skip then (False, ctx)
      else (True, ctx\<lparr>ac_p := ac_p ctx + int num_skip, ac_length := ac_length ctx - num_skip\<rparr>))"

section \<open>Lengths\<close>

text \<open>The size type has eight bytes.\<close>

definition sizeof_size_t :: int where "sizeof_size_t = 8"

fun length_octets :: "u8 list \<Rightarrow> nat \<Rightarrow> nat \<Rightarrow> asn1_context \<Rightarrow> (nat option \<times> asn1_context) comp" where
  "length_octets buf 0 len ctx = Inr (Some len, ctx)"
| "length_octets buf (Suc n) len ctx =
     bindC (get_byte buf ctx) (\<lambda>(byte, ctx1).
       if byte = -1 then Inr (None, ctx1)
       else length_octets buf n ((len * 256 + nat byte) mod 2 ^ 64) ctx1)"

definition decode_length :: "u8 list \<Rightarrow> asn1_context \<Rightarrow> (nat option \<times> asn1_context) comp" where
  "decode_length buf ctx =
     bindC (get_byte buf ctx) (\<lambda>(num_octets, ctx1).
       if num_octets = -1 then Inr (None, ctx1)
       else if num_octets AND 0x80 = 0 then Inr (Some (nat num_octets), ctx1)
       else if num_octets AND kMaskTag \<ge> sizeof_size_t then Inr (None, ctx1)
       else length_octets buf (nat (num_octets AND kMaskTag)) 0 ctx1)"

section \<open>Elements\<close>

definition asn1_constructed_get :: "u8 list \<Rightarrow> bool \<Rightarrow> asn1_context \<Rightarrow> (asn1_context option \<times> asn1_context) comp" where
  "asn1_constructed_get buf alloc_ok ctx =
     bindC (get_byte buf ctx) (\<lambda>(ty, ctx1).
       if ty = -1 \<or> ty AND kMaskConstructed \<noteq> kTagConstructed then Inr (None, ctx1)
       else bindC (decode_length buf ctx1) (\<lambda>(len, ctx2).
         case len of
           None \<Rightarrow> Inr (None, ctx2)
         | Some n \<Rightarrow>
             if n > ac_length ctx2 then Inr (None, ctx2)
             else case asn1_context_new alloc_ok (ac_p ctx2) n of
                    None \<Rightarrow> Inl Null_Dereference
                  | Some app \<Rightarrow> Inr (Some (app\<lparr>ac_app_type := ty AND kMaskAppType\<rparr>), ctx2)))"

definition constructed_skip :: "u8 list \<Rightarrow> asn1_context \<Rightarrow> (bool \<times> asn1_context) comp" where
  "constructed_skip buf ctx =
     (let (_, ctx1) = skip_bytes ctx 1
      in bindC (decode_length buf ctx1) (\<lambda>(len, ctx2).
           case len of None \<Rightarrow> Inr (False, ctx2) | Some n \<Rightarrow> Inr (skip_bytes ctx2 n)))"

lemma get_byte_length: "get_byte buf ctx = Inr (b, ctx') \<Longrightarrow> ac_length ctx' \<le> ac_length ctx"
  by (auto simp: get_byte_def split: if_splits)

lemma length_octets_length: "length_octets buf n len ctx = Inr (r, ctx') \<Longrightarrow> ac_length ctx' \<le> ac_length ctx"
proof (induction n arbitrary: len ctx)
  case (Suc n)
  from Suc.prems obtain b c1 where g: "get_byte buf ctx = Inr (b, c1)"
    and r: "b = -1 \<and> c1 = ctx' \<or> length_octets buf n ((len * 256 + nat b) mod 2 ^ 64) c1 = Inr (r, ctx')"
    by (auto split: if_splits)
  from r show ?case
  proof (elim disjE conjE)
    assume "length_octets buf n ((len * 256 + nat b) mod 2 ^ 64) c1 = Inr (r, ctx')"
    from Suc.IH[OF this] get_byte_length[OF g] show ?thesis by simp
  qed (use get_byte_length[OF g] in simp)
qed simp

lemma decode_length_length: "decode_length buf ctx = Inr (r, ctx') \<Longrightarrow> ac_length ctx' \<le> ac_length ctx"
  by (auto simp: decode_length_def split: if_splits dest!: get_byte_length length_octets_length)

lemma constructed_skip_length:
  assumes "constructed_skip buf ctx = Inr (r, ctx')" "0 < ac_length ctx"
  shows "ac_length ctx' < ac_length ctx"
  using assms by (auto simp: constructed_skip_def skip_bytes_def split: if_splits option.splits dest!: decode_length_length)

lemma peek_byte_pos: "peek_byte buf ctx = Inr b \<Longrightarrow> b \<noteq> - 1 \<Longrightarrow> 0 < ac_length ctx"
  by (auto simp: peek_byte_def split: if_splits)

function asn1_constructed_skip_all :: "u8 list \<Rightarrow> asn1_context \<Rightarrow> (bool \<times> asn1_context) comp" where
  "asn1_constructed_skip_all buf ctx =
     bindC (peek_byte buf ctx) (\<lambda>byte.
       if byte \<noteq> -1 \<and> byte AND kMaskConstructed = kTagConstructed
       then bindC (constructed_skip buf ctx) (\<lambda>(ok, ctx1).
              if \<not> ok then Inr (False, ctx1) else asn1_constructed_skip_all buf ctx1)
       else Inr (byte \<noteq> -1, ctx))"
  by pat_completeness auto
termination
  by (relation "measure (\<lambda>(buf, ctx). ac_length ctx)") (auto dest!: constructed_skip_length peek_byte_pos)

declare asn1_constructed_skip_all.simps [simp del]

definition asn1_constructed_type :: "asn1_context \<Rightarrow> int" where
  "asn1_constructed_type ctx = ac_app_type ctx"

text \<open>A sequence and a set differ in the tag.\<close>

definition element_get :: "int \<Rightarrow> u8 list \<Rightarrow> bool \<Rightarrow> asn1_context \<Rightarrow> (asn1_context option \<times> asn1_context) comp" where
  "element_get tag buf alloc_ok ctx =
     bindC (get_byte buf ctx) (\<lambda>(byte, ctx1).
       if byte AND kMaskTag \<noteq> tag then Inr (None, ctx1)
       else bindC (decode_length buf ctx1) (\<lambda>(len, ctx2).
         case len of
           None \<Rightarrow> Inr (None, ctx2)
         | Some n \<Rightarrow>
             if n > ac_length ctx2 then Inr (None, ctx2)
             else Inr (asn1_context_new alloc_ok (ac_p ctx2) n, ctx2)))"

definition asn1_sequence_get :: "u8 list \<Rightarrow> bool \<Rightarrow> asn1_context \<Rightarrow> (asn1_context option \<times> asn1_context) comp" where
  "asn1_sequence_get = element_get kTagSequence"

definition asn1_set_get :: "u8 list \<Rightarrow> bool \<Rightarrow> asn1_context \<Rightarrow> (asn1_context option \<times> asn1_context) comp" where
  "asn1_set_get = element_get kTagSet"

definition asn1_sequence_next :: "u8 list \<Rightarrow> asn1_context \<Rightarrow> (bool \<times> asn1_context) comp" where
  "asn1_sequence_next buf ctx =
     bindC (get_byte buf ctx) (\<lambda>(byte, ctx1).
       if byte = -1 then Inr (False, ctx1)
       else bindC (decode_length buf ctx1) (\<lambda>(len, ctx2).
         case len of None \<Rightarrow> Inr (False, ctx2) | Some n \<Rightarrow> Inr (skip_bytes ctx2 n)))"

text \<open>The pointer and the length of a string, when the call succeeds.\<close>

definition string_get :: "int \<Rightarrow> u8 list \<Rightarrow> asn1_context \<Rightarrow> ((int \<times> nat) option \<times> asn1_context) comp" where
  "string_get tag buf ctx =
     bindC (get_byte buf ctx) (\<lambda>(byte, ctx1).
       if byte \<noteq> tag then Inr (None, ctx1)
       else bindC (decode_length buf ctx1) (\<lambda>(len, ctx2).
         case len of
           None \<Rightarrow> Inr (None, ctx2)
         | Some n \<Rightarrow>
             if n = 0 \<or> n > ac_length ctx2 then Inr (None, ctx2) else Inr (Some (ac_p ctx2, n), ctx2)))"

definition asn1_oid_get :: "u8 list \<Rightarrow> asn1_context \<Rightarrow> ((int \<times> nat) option \<times> asn1_context) comp" where
  "asn1_oid_get = string_get kTagOid"

definition asn1_octet_string_get :: "u8 list \<Rightarrow> asn1_context \<Rightarrow> ((int \<times> nat) option \<times> asn1_context) comp" where
  "asn1_octet_string_get = string_get kTagOctetString"

text \<open>The bytes of a context that lies within the buffer.\<close>

definition content :: "u8 list \<Rightarrow> asn1_context \<Rightarrow> u8 list \<Rightarrow> bool" where
  "content buf ctx xs \<longleftrightarrow>
     0 \<le> ac_p ctx \<and> nat (ac_p ctx) + ac_length ctx \<le> length buf \<and>
     take (ac_length ctx) (drop (nat (ac_p ctx)) buf) = xs"

text \<open>The encoding of lengths that the decoder accepts.\<close>

definition der_length :: "u8 list \<Rightarrow> (nat \<times> u8 list) option" where
  "der_length xs =
     (case xs of
        [] \<Rightarrow> None
      | b # ys \<Rightarrow>
          if unat b < 128 then Some (unat b, ys)
          else let k = unat b - 128
               in if k \<ge> 8 \<or> length ys < k then None else Some (be_val (take k ys), drop k ys))"

text \<open>The body of an element and the bytes from the body on, when the element fits.\<close>

definition element :: "u8 list \<Rightarrow> (u8 \<times> u8 list \<times> u8 list) option" where
  "element xs =
     (case xs of
        [] \<Rightarrow> None
      | b # ys \<Rightarrow>
          (case der_length ys of
             None \<Rightarrow> None
           | Some (n, zs) \<Rightarrow> if n \<le> length zs then Some (b, take n zs, drop n zs) else None))"

definition constructed :: "u8 \<Rightarrow> bool" where
  "constructed b \<longleftrightarrow> int (unat b) AND kMaskConstructed = kTagConstructed"

lemma der_length_shorter: "der_length xs = Some (n, ys) \<Longrightarrow> length ys < length xs"
  by (auto simp: der_length_def Let_def split: list.splits if_splits)

lemma element_shorter: "element xs = Some (b, body, rest) \<Longrightarrow> length rest < length xs"
  by (auto simp: element_def split: list.splits option.splits if_splits dest!: der_length_shorter)

text \<open>What is behind a run of constructed elements; there has to be something.\<close>

function behind_constructed :: "u8 list \<Rightarrow> u8 list option" where
  "behind_constructed [] = None"
| "behind_constructed (b # ys) =
     (if constructed b
      then (case element (b # ys) of None \<Rightarrow> None | Some (_, _, rest) \<Rightarrow> behind_constructed rest)
      else Some (b # ys))"
  by pat_completeness auto

termination
  by (relation "measure length") (auto dest: element_shorter)

section \<open>Encoding\<close>

function be_bytes :: "nat \<Rightarrow> u8 list" where
  "be_bytes n = (if n = 0 then [] else be_bytes (n div 256) @ [word_of_nat n])"
  by pat_completeness auto

termination
  by (relation "measure id") auto

declare be_bytes.simps [simp del]

definition length_bytes :: "nat \<Rightarrow> u8 list" where
  "length_bytes n =
     (if n < 128 then [word_of_nat n] else word_of_nat (128 + length (be_bytes n)) # be_bytes n)"

definition tlv :: "u8 \<Rightarrow> u8 list \<Rightarrow> u8 list" where
  "tlv tag body = tag # length_bytes (length body) @ body"

section \<open>Bounds\<close>

definition within :: "u8 list \<Rightarrow> asn1_context \<Rightarrow> bool" where
  "within buf ctx \<longleftrightarrow> 0 \<le> ac_p ctx \<and> ac_p ctx + int (ac_length ctx) \<le> int (length buf)"

text \<open>An operation that reads only bytes of the buffer and leaves the context within it.\<close>

definition safe_op :: "u8 list \<Rightarrow> (asn1_context \<Rightarrow> ('a \<times> asn1_context) comp) \<Rightarrow> bool" where
  "safe_op buf f \<longleftrightarrow> (\<forall>ctx. within buf ctx \<longrightarrow> (\<exists>r ctx'. f ctx = Inr (r, ctx') \<and> within buf ctx'))"

section \<open>What a context holds\<close>

lemma byte_not_end [simp]: "uint (b :: u8) \<noteq> -1"
  using uint_ge_0[of b] by linarith

lemma content_length: "content buf ctx xs \<Longrightarrow> length xs = ac_length ctx"
  by (auto simp: content_def)

lemma get_byte_nil: "content buf ctx [] \<Longrightarrow> get_byte buf ctx = Inr (-1, ctx)"
  using content_length[of buf ctx "[]"] by (simp add: get_byte_def)

lemma peek_byte_nil: "content buf ctx [] \<Longrightarrow> peek_byte buf ctx = Inr (-1)"
  using content_length[of buf ctx "[]"] by (simp add: peek_byte_def)

lemma content_hd: "content buf ctx (b # xs) \<Longrightarrow> byte_at buf (ac_p ctx) = Inr (int (unat b)) \<and> 0 < ac_length ctx"
proof -
  assume c: "content buf ctx (b # xs)"
  let ?p = "nat (ac_p ctx)"
  have l: "0 < ac_length ctx" using content_length[OF c] by simp
  have "?p < length buf" using c l by (simp add: content_def)
  then have "drop ?p buf = buf ! ?p # drop (Suc ?p) buf" by (simp add: Cons_nth_drop_Suc)
  then have "buf ! ?p = b" using c l by (auto simp: content_def take_Cons' split: if_splits)
  then show ?thesis using c l \<open>?p < length buf\<close> by (auto simp: content_def byte_at_def)
qed

lemma peek_byte_cons: "content buf ctx (b # xs) \<Longrightarrow> peek_byte buf ctx = Inr (int (unat b))"
  using content_hd[of buf ctx b xs] by (simp add: peek_byte_def)

lemma content_drop:
  assumes "content buf ctx (a @ xs)"
  shows "content buf (ctx\<lparr>ac_p := ac_p ctx + int (length a), ac_length := ac_length ctx - length a\<rparr>) xs"
proof -
  have l: "length a + length xs = ac_length ctx" using content_length[OF assms] by simp
  have n: "nat (ac_p ctx + int (length a)) = length a + nat (ac_p ctx)" using assms by (simp add: content_def nat_add_distrib)
  have "drop (length a) (take (ac_length ctx) (drop (nat (ac_p ctx)) buf)) = xs" using assms by (simp add: content_def)
  then show ?thesis using assms l n by (simp add: content_def drop_take)
qed

lemma get_byte_cons:
  assumes "content buf ctx (b # xs)"
  shows "get_byte buf ctx = Inr (int (unat b), ctx\<lparr>ac_p := ac_p ctx + 1, ac_length := ac_length ctx - 1\<rparr>)"
    and "content buf (ctx\<lparr>ac_p := ac_p ctx + 1, ac_length := ac_length ctx - 1\<rparr>) xs"
  using content_hd[OF assms] content_drop[of buf ctx "[b]" xs] assms by (simp_all add: get_byte_def)

lemma skip_bytes_content:
  assumes "content buf ctx xs"
  shows "if n \<le> length xs then \<exists>ctx'. skip_bytes ctx n = (True, ctx') \<and> content buf ctx' (drop n xs)
         else skip_bytes ctx n = (False, ctx)"
  using content_drop[of buf ctx "take n xs" "drop n xs"] assms content_length[OF assms]
  by (auto simp: skip_bytes_def min_absorb2)

lemma length_octets_content:
  assumes "content buf ctx xs" "len < 256 ^ (7 - n)" "n \<le> 7"
  shows "\<exists>ctx'. length_octets buf n len ctx =
     Inr (if n \<le> length xs then Some (len * 256 ^ n + be_val (take n xs)) else None, ctx') \<and>
     (n \<le> length xs \<longrightarrow> content buf ctx' (drop n xs))"
  using assms
proof (induction n arbitrary: len ctx xs)
  case (Suc n)
  show ?case
  proof (cases xs)
    case Nil
    then show ?thesis using get_byte_nil Suc.prems(1) by simp
  next
    case (Cons b ys)
    note g = get_byte_cons[OF Suc.prems(1)[unfolded Cons]]
    let ?l = "len * 256 + unat b"
    have "?l < (len + 1) * 256" using unat_u8_less[of b] by simp
    also have "\<dots> \<le> 256 ^ (7 - Suc n) * 256" using Suc.prems(2) by (intro mult_le_mono) simp_all
    also have "\<dots> = 256 ^ (7 - n)" using Suc.prems(3) by (metis Suc_diff_Suc Suc_le_lessD power_Suc2)
    finally have lt: "?l < 256 ^ (7 - n)" .
    also have "(256 :: nat) ^ (7 - n) \<le> 256 ^ 8" by (intro power_increasing) simp_all
    finally have m: "?l mod 2 ^ 64 = ?l" by simp
    have "len * 256 ^ Suc n + be_val (b # take n ys) = ?l * 256 ^ n + be_val (take n ys)" if "n \<le> length ys"
      using be_val_append[of "[b]" "take n ys"] that by (simp add: be_val_def algebra_simps)
    then show ?thesis using Suc.IH[OF g(2) lt] Suc.prems(3) g(1) m unfolding Cons by auto
  qed
qed (auto simp: be_val_def)

lemma byte_bits:
  "(int (unat b) AND 0x80 = 0) = (unat (b :: u8) < 128)" "int (unat b) AND 0x7F = int (unat b mod 128)"
proof -
  have "(int (unat b) AND 2 ^ 7 = 0) = (\<not> bit (int (unat b)) 7)" by (rule and_exp_eq_0_iff_not_bit)
  also have "bit (int (unat b)) 7 = odd (int (unat b) div 128)" by (simp add: bit_iff_odd)
  also have "(\<not> odd (int (unat b) div 128)) = (unat b < 128)"
  proof (cases "unat b < 128")
    case False
    have "unat b div 128 < 2" using unat_u8_less[of b] by (simp add: less_mult_imp_div_less)
    moreover have "1 \<le> unat b div 128" using False div_le_mono[of 128 "unat b" 128] by simp
    ultimately have "unat b div 128 = 1" by simp
    then have "int (unat b) div 128 = 1" by (metis of_nat_1 of_nat_numeral zdiv_int)
    then show ?thesis using False by simp
  next
    case True
    then have "int (unat b) div 128 = 0" by (intro div_pos_pos_trivial) (simp_all del: of_nat_unat)
    then show ?thesis using True by (simp del: of_nat_unat)
  qed
  finally show "(int (unat b) AND 0x80 = 0) = (unat b < 128)" by simp
  have "int (unat b) AND mask 7 = take_bit 7 (int (unat b))" by (simp add: take_bit_eq_mask)
  then show "int (unat b) AND 0x7F = int (unat b mod 128)"
    by (simp add: mask_eq_exp_minus_1 take_bit_eq_mod zmod_int)
qed

lemma decode_length_content:
  assumes c: "content buf ctx xs"
  shows "case der_length xs of
       Some (n, ys) \<Rightarrow> \<exists>ctx'. decode_length buf ctx = Inr (Some n, ctx') \<and> content buf ctx' ys
     | None \<Rightarrow> \<exists>ctx'. decode_length buf ctx = Inr (None, ctx')"
proof (cases xs)
  case Nil
  then show ?thesis using get_byte_nil c by (simp add: decode_length_def der_length_def)
next
  case (Cons b ys)
  note g = get_byte_cons[OF c[unfolded Cons]]
  define k where "k = unat b - 128"
  have nb: "int (unat b) \<noteq> - 1" by simp
  show ?thesis
  proof (cases "unat b < 128")
    case True
    then show ?thesis using g nb byte_bits[of b] unfolding Cons
      by (simp add: decode_length_def der_length_def del: of_nat_unat)
  next
    case False
    have "unat b mod 128 = k" using False unat_u8_less[of b] by (simp add: k_def mod_if)
    then have d: "decode_length buf ctx =
        (if k \<ge> 8 then Inr (None, ctx\<lparr>ac_p := ac_p ctx + 1, ac_length := ac_length ctx - 1\<rparr>)
         else length_octets buf k 0 (ctx\<lparr>ac_p := ac_p ctx + 1, ac_length := ac_length ctx - 1\<rparr>))"
      using g(1) nb byte_bits[of b] False
      by (simp add: decode_length_def kMaskTag_def sizeof_size_t_def del: of_nat_unat)
    show ?thesis
    proof (cases "8 \<le> k")
      case True
      then show ?thesis using d False unfolding Cons by (simp add: der_length_def k_def[symmetric])
    next
      case k8: False
      then show ?thesis using length_octets_content[OF g(2), of 0 k] d False unfolding Cons
        by (auto simp: der_length_def k_def[symmetric] Let_def split: if_splits)
    qed
  qed
qed

section \<open>Elements\<close>

lemma content_sub:
  "content buf ctx zs \<Longrightarrow> n \<le> length zs \<Longrightarrow>
     content buf \<lparr>ac_length = n, ac_p = ac_p ctx, ac_app_type = t\<rparr> (take n zs)"
  using content_length[of buf ctx zs] by (auto simp: content_def take_take min_absorb1)

lemma sequence_next_content:
  assumes c: "content buf ctx xs"
  shows "case element xs of
       Some (_, _, rest) \<Rightarrow> \<exists>ctx'. asn1_sequence_next buf ctx = Inr (True, ctx') \<and> content buf ctx' rest
     | None \<Rightarrow> \<exists>ctx'. asn1_sequence_next buf ctx = Inr (False, ctx')"
proof (cases xs)
  case Nil
  then show ?thesis using get_byte_nil c by (simp add: asn1_sequence_next_def element_def)
next
  case (Cons b ys)
  note g = get_byte_cons[OF c[unfolded Cons]]
  show ?thesis
  proof (cases "der_length ys")
    case None
    then show ?thesis using g decode_length_content[OF g(2)] unfolding Cons
      by (auto simp: asn1_sequence_next_def element_def)
  next
    case (Some r)
    obtain n zs where r: "r = (n, zs)" by (cases r)
    obtain c2 where c2: "decode_length buf (ctx\<lparr>ac_p := ac_p ctx + 1, ac_length := ac_length ctx - 1\<rparr>) = Inr (Some n, c2)"
      "content buf c2 zs" using decode_length_content[OF g(2)] Some r by auto
    show ?thesis using skip_bytes_content[OF c2(2), of n] g(1) c2(1) Some r unfolding Cons
      by (auto simp: asn1_sequence_next_def element_def split: if_splits)
  qed
qed

lemma element_get_content:
  assumes c: "content buf ctx xs"
  shows "case element xs of
       Some (b, body, rest) \<Rightarrow>
         if int (unat b) AND kMaskTag = tag
         then \<exists>ctx'. content buf ctx' (body @ rest) \<and> element_get tag buf ok ctx =
                Inr (if ok then Some \<lparr>ac_length = length body, ac_p = ac_p ctx', ac_app_type = 0\<rparr> else None, ctx')
         else \<exists>ctx'. element_get tag buf ok ctx = Inr (None, ctx')
     | None \<Rightarrow> \<exists>ctx'. element_get tag buf ok ctx = Inr (None, ctx')"
proof (cases xs)
  case Nil
  show ?thesis
  proof (cases "(-1 AND kMaskTag) = tag")
    case True
    then show ?thesis using get_byte_nil[of buf ctx] decode_length_content[of buf ctx "[]"] c Nil
      by (auto simp: element_get_def element_def der_length_def)
  qed (use get_byte_nil[of buf ctx] c Nil in \<open>simp add: element_get_def element_def\<close>)
next
  case (Cons b ys)
  note g = get_byte_cons[OF c[unfolded Cons]]
  show ?thesis
  proof (cases "der_length ys")
    case None
    then show ?thesis using g decode_length_content[OF g(2)] unfolding Cons
      by (auto simp: element_get_def element_def simp del: of_nat_unat)
  next
    case (Some r)
    obtain n zs where r: "r = (n, zs)" by (cases r)
    obtain c2 where c2: "decode_length buf (ctx\<lparr>ac_p := ac_p ctx + 1, ac_length := ac_length ctx - 1\<rparr>) = Inr (Some n, c2)"
      "content buf c2 zs" using decode_length_content[OF g(2)] Some r by auto
    show ?thesis using g(1) c2 Some r content_length[OF c2(2)] unfolding Cons
      by (auto simp: element_get_def element_def asn1_context_new_def simp del: of_nat_unat)
  qed
qed

lemma constructed_get_content:
  assumes c: "content buf ctx xs"
  shows "case element xs of
       Some (b, body, rest) \<Rightarrow>
         if constructed b
         then \<exists>ctx'. content buf ctx' (body @ rest) \<and> asn1_constructed_get buf ok ctx =
                (if ok then Inr (Some \<lparr>ac_length = length body, ac_p = ac_p ctx', ac_app_type = int (unat b) AND kMaskAppType\<rparr>, ctx')
                 else Inl Null_Dereference)
         else \<exists>ctx'. asn1_constructed_get buf ok ctx = Inr (None, ctx')
     | None \<Rightarrow> \<exists>ctx'. asn1_constructed_get buf ok ctx = Inr (None, ctx')"
proof (cases xs)
  case Nil
  then show ?thesis using get_byte_nil[of buf ctx] c by (simp add: asn1_constructed_get_def element_def)
next
  case (Cons b ys)
  note g = get_byte_cons[OF c[unfolded Cons]]
  have nb: "int (unat b) \<noteq> - 1" by simp
  show ?thesis
  proof (cases "der_length ys")
    case None
    then show ?thesis using g nb decode_length_content[OF g(2)] unfolding Cons
      by (auto simp: asn1_constructed_get_def element_def simp del: of_nat_unat)
  next
    case (Some r)
    obtain n zs where r: "r = (n, zs)" by (cases r)
    obtain c2 where c2: "decode_length buf (ctx\<lparr>ac_p := ac_p ctx + 1, ac_length := ac_length ctx - 1\<rparr>) = Inr (Some n, c2)"
      "content buf c2 zs" using decode_length_content[OF g(2)] Some r by auto
    show ?thesis using g(1) nb c2 Some r content_length[OF c2(2)] unfolding Cons
      by (auto simp: asn1_constructed_get_def element_def asn1_context_new_def constructed_def simp del: of_nat_unat)
  qed
qed

lemma string_get_content:
  assumes c: "content buf ctx xs"
  shows "case element xs of
       Some (b, body, rest) \<Rightarrow>
         if int (unat b) = tag \<and> body \<noteq> []
         then \<exists>ctx'. content buf ctx' (body @ rest) \<and> string_get tag buf ctx = Inr (Some (ac_p ctx', length body), ctx')
         else \<exists>ctx'. string_get tag buf ctx = Inr (None, ctx')
     | None \<Rightarrow> \<exists>ctx'. string_get tag buf ctx = Inr (None, ctx')"
proof (cases xs)
  case Nil
  show ?thesis
  proof (cases "tag = -1")
    case True
    then show ?thesis using get_byte_nil[of buf ctx] decode_length_content[of buf ctx "[]"] c Nil
      by (auto simp: string_get_def element_def der_length_def)
  qed (use get_byte_nil[of buf ctx] c Nil in \<open>simp add: string_get_def element_def\<close>)
next
  case (Cons b ys)
  note g = get_byte_cons[OF c[unfolded Cons]]
  show ?thesis
  proof (cases "der_length ys")
    case None
    then show ?thesis using g decode_length_content[OF g(2)] unfolding Cons
      by (auto simp: string_get_def element_def simp del: of_nat_unat)
  next
    case (Some r)
    obtain n zs where r: "r = (n, zs)" by (cases r)
    obtain c2 where c2: "decode_length buf (ctx\<lparr>ac_p := ac_p ctx + 1, ac_length := ac_length ctx - 1\<rparr>) = Inr (Some n, c2)"
      "content buf c2 zs" using decode_length_content[OF g(2)] Some r by auto
    show ?thesis using g(1) c2 Some r content_length[OF c2(2)] unfolding Cons
      by (auto simp: string_get_def element_def simp del: of_nat_unat)
  qed
qed

lemma constructed_skip_content:
  assumes c: "content buf ctx (b # ys)"
  shows "case element (b # ys) of
       Some (_, _, rest) \<Rightarrow> \<exists>ctx'. constructed_skip buf ctx = Inr (True, ctx') \<and> content buf ctx' rest
     | None \<Rightarrow> \<exists>ctx'. constructed_skip buf ctx = Inr (False, ctx')"
proof -
  obtain c1 where s: "skip_bytes ctx 1 = (True, c1)" "content buf c1 ys"
    using skip_bytes_content[OF c, of 1] by auto
  show ?thesis
  proof (cases "der_length ys")
    case None
    then show ?thesis using s decode_length_content[OF s(2)]
      by (auto simp: constructed_skip_def element_def)
  next
    case (Some r)
    obtain n zs where r: "r = (n, zs)" by (cases r)
    obtain c2 where c2: "decode_length buf c1 = Inr (Some n, c2)" "content buf c2 zs"
      using decode_length_content[OF s(2)] Some r by auto
    show ?thesis using skip_bytes_content[OF c2(2), of n] s(1) c2(1) Some r
      by (auto simp: constructed_skip_def element_def split: if_splits)
  qed
qed

lemma skip_all_content:
  "content buf ctx xs \<Longrightarrow>
     \<exists>ctx'. asn1_constructed_skip_all buf ctx = Inr (behind_constructed xs \<noteq> None, ctx') \<and>
       (\<forall>ys. behind_constructed xs = Some ys \<longrightarrow> content buf ctx' ys)"
proof (induction xs arbitrary: ctx rule: behind_constructed.induct)
  case 1
  then show ?case using peek_byte_nil[of buf ctx] by (simp add: asn1_constructed_skip_all.simps)
next
  case (2 b ys)
  note pk = peek_byte_cons[OF "2.prems"]
  have nb: "int (unat b) \<noteq> - 1" by simp
  show ?case
  proof (cases "constructed b")
    case False
    then show ?thesis using pk nb "2.prems"
      by (simp add: asn1_constructed_skip_all.simps[of buf ctx] constructed_def del: of_nat_unat)
  next
    case True
    have step: "asn1_constructed_skip_all buf ctx =
        bindC (constructed_skip buf ctx) (\<lambda>(ok, ctx1). if \<not> ok then Inr (False, ctx1) else asn1_constructed_skip_all buf ctx1)"
      using pk nb True by (simp add: asn1_constructed_skip_all.simps[of buf ctx] constructed_def del: of_nat_unat)
    show ?thesis
    proof (cases "element (b # ys)")
      case None
      then show ?thesis using constructed_skip_content[OF "2.prems"] step True by auto
    next
      case (Some r)
      obtain t body rest where r: "r = (t, body, rest)" by (cases r) auto
      obtain c1 where c1: "constructed_skip buf ctx = Inr (True, c1)" "content buf c1 rest"
        using constructed_skip_content[OF "2.prems"] Some r by auto
      show ?thesis using "2.IH"[OF True Some _ _ c1(2)] c1(1) step True Some r by simp
    qed
  qed
qed

lemma be_val_be_bytes: "be_val (be_bytes n) = n"
proof (induction n rule: be_bytes.induct)
  case (1 n)
  show ?case
  proof (cases "n = 0")
    case False
    have "unat (word_of_nat n :: u8) = n mod 256" by (simp add: unat_of_nat)
    then show ?thesis using 1[OF False] False
      by (simp add: be_bytes.simps[of n] be_val_append) (simp add: be_val_def)
  qed (simp add: be_bytes.simps be_val_def)
qed

lemma be_bytes_length: "n < 256 ^ k \<Longrightarrow> length (be_bytes n) \<le> k"
proof (induction k arbitrary: n)
  case (Suc k)
  have "n div 256 < 256 ^ k" using Suc.prems by (simp add: less_mult_imp_div_less mult.commute)
  then show ?case using Suc.IH[of "n div 256"] by (simp add: be_bytes.simps[of n])
qed (simp add: be_bytes.simps)

lemma der_length_bytes: "n < 2 ^ 56 \<Longrightarrow> der_length (length_bytes n @ xs) = Some (n, xs)"
proof (cases "n < 128")
  case True
  then show ?thesis by (simp add: der_length_def length_bytes_def unat_of_nat)
next
  case False
  assume "n < 2 ^ 56"
  then have l: "length (be_bytes n) \<le> 7" using be_bytes_length[of n 7] by simp
  then have "unat (word_of_nat (128 + length (be_bytes n)) :: u8) = 128 + length (be_bytes n)"
    unfolding unat_of_nat by (intro mod_less) simp
  then show ?thesis using False l be_val_be_bytes[of n] by (simp add: der_length_def length_bytes_def)
qed

lemma element_tlv: "length body < 2 ^ 56 \<Longrightarrow> element (tlv tag body @ rest) = Some (tag, body, rest)"
  using der_length_bytes[of "length body" "body @ rest"] by (simp add: element_def tlv_def)

lemma behind_constructed_tlvs:
  "\<forall>(t, c) \<in> set cs. constructed t \<and> length c < 2 ^ 56 \<Longrightarrow> \<not> constructed b \<Longrightarrow>
     behind_constructed (concat (map (\<lambda>(t, c). tlv t c) cs) @ b # ys) = Some (b # ys)"
proof (induction cs)
  case (Cons tc cs)
  obtain t c where tc: "tc = (t, c)" by (cases tc)
  have "element (tlv t c @ concat (map (\<lambda>(t, c). tlv t c) cs) @ b # ys) =
      Some (t, c, concat (map (\<lambda>(t, c). tlv t c) cs) @ b # ys)"
    using Cons.prems tc by (intro element_tlv) simp
  then show ?case using Cons tc by (simp add: tlv_def)
qed simp

lemma safe_opE:
  assumes "safe_op buf f" "within buf ctx"
  obtains r ctx' where "f ctx = Inr (r, ctx')" "within buf ctx'"
  using assms by (auto simp: safe_op_def)

lemma safe_bind:
  assumes "safe_op buf f" "\<And>r. safe_op buf (g r)"
  shows "safe_op buf (\<lambda>ctx. bindC (f ctx) (\<lambda>(r, ctx1). g r ctx1))"
  unfolding safe_op_def
proof (intro allI impI)
  fix ctx assume "within buf ctx"
  with assms(1) obtain r c where f: "f ctx = Inr (r, c)" "within buf c" by (rule safe_opE)
  from assms(2)[of r] f(2) obtain r2 c2 where "g r c = Inr (r2, c2)" "within buf c2" by (rule safe_opE)
  then show "\<exists>r ctx'. bindC (f ctx) (\<lambda>(r, ctx1). g r ctx1) = Inr (r, ctx') \<and> within buf ctx'" using f by simp
qed

lemma safe_return: "safe_op buf (\<lambda>ctx. Inr (f ctx, ctx))"
  by (simp add: safe_op_def)

lemma safe_if: "safe_op buf f \<Longrightarrow> safe_op buf g \<Longrightarrow> safe_op buf (\<lambda>ctx. if b ctx then f ctx else g ctx)"
  by (simp add: safe_op_def)

lemma safe_option: "safe_op buf f \<Longrightarrow> (\<And>x. safe_op buf (g x)) \<Longrightarrow>
    safe_op buf (\<lambda>ctx. case x of None \<Rightarrow> f ctx | Some y \<Rightarrow> g y ctx)"
  by (cases x) simp_all

lemma safe_get_byte: "safe_op buf (get_byte buf)"
  by (auto simp: safe_op_def get_byte_def byte_at_def within_def)

lemma safe_skip_bytes: "safe_op buf (\<lambda>ctx. Inr (skip_bytes ctx n))"
  by (auto simp: safe_op_def skip_bytes_def within_def)

lemma safe_length_octets: "safe_op buf (length_octets buf n len)"
proof (induction n arbitrary: len)
  case (Suc n)
  have "safe_op buf (\<lambda>ctx. bindC (get_byte buf ctx) (\<lambda>(byte, ctx1).
       if byte = -1 then Inr (None, ctx1) else length_octets buf n ((len * 256 + nat byte) mod 2 ^ 64) ctx1))"
    by (intro safe_bind safe_get_byte safe_if safe_return Suc)
  then show ?case by (simp add: safe_op_def)
qed (simp add: safe_op_def)

lemma safe_decode_length: "safe_op buf (decode_length buf)"
  unfolding decode_length_def
  by (intro safe_bind safe_get_byte safe_if safe_return safe_length_octets)

lemma safe_sequence_next: "safe_op buf (asn1_sequence_next buf)"
  unfolding asn1_sequence_next_def
  by (intro safe_bind safe_get_byte safe_if safe_return safe_decode_length safe_option safe_skip_bytes)

lemma safe_element_get: "safe_op buf (element_get tag buf ok)"
  unfolding element_get_def
  by (intro safe_bind safe_get_byte safe_if safe_return safe_decode_length safe_option)

lemma safe_string_get: "safe_op buf (string_get tag buf)"
  unfolding string_get_def
  by (intro safe_bind safe_get_byte safe_if safe_return safe_decode_length safe_option)

lemma safe_constructed_get: "safe_op buf (asn1_constructed_get buf True)"
  unfolding asn1_constructed_get_def asn1_context_new_def if_True option.case
  by (intro safe_bind safe_get_byte safe_if safe_return safe_decode_length safe_option)

lemma safe_constructed_skip: "safe_op buf (constructed_skip buf)"
proof -
  have "safe_op buf (\<lambda>ctx. bindC (Inr (skip_bytes ctx 1)) (\<lambda>(_, ctx1). bindC (decode_length buf ctx1) (\<lambda>(len, ctx2).
           case len of None \<Rightarrow> Inr (False, ctx2) | Some n \<Rightarrow> Inr (skip_bytes ctx2 n))))"
    by (intro safe_bind safe_skip_bytes safe_return safe_decode_length safe_option)
  then show ?thesis by (simp add: safe_op_def constructed_skip_def split_beta Let_def)
qed

lemma safe_skip_all: "safe_op buf (asn1_constructed_skip_all buf)"
proof -
  have "within buf ctx \<Longrightarrow> \<exists>r ctx'. asn1_constructed_skip_all buf ctx = Inr (r, ctx') \<and> within buf ctx'" for ctx
  proof (induction "ac_length ctx" arbitrary: ctx rule: less_induct)
    case less
    obtain b where b: "peek_byte buf ctx = Inr b"
      using less.prems by (cases "ac_length ctx = 0") (auto simp: peek_byte_def byte_at_def within_def)
    show ?case
    proof (cases "b \<noteq> -1 \<and> b AND kMaskConstructed = kTagConstructed")
      case True
      obtain ok c where c: "constructed_skip buf ctx = Inr (ok, c)" "within buf c"
        using safe_constructed_skip less.prems by (rule safe_opE)
      have "ac_length c < ac_length ctx" using constructed_skip_length[OF c(1)] peek_byte_pos[OF b] True by simp
      from less.hyps[OF this c(2)] show ?thesis
        using b c True by (auto simp: asn1_constructed_skip_all.simps[of buf ctx])
    next
      case False
      then show ?thesis using b less.prems by (auto simp: asn1_constructed_skip_all.simps[of buf ctx])
    qed
  qed
  then show ?thesis by (simp add: safe_op_def)
qed

lemma within_content: "within buf ctx \<longleftrightarrow> (\<exists>xs. content buf ctx xs)"
  by (auto simp: within_def content_def)

lemma sub_content:
  "content buf ctx' (body @ rest) \<Longrightarrow> content buf \<lparr>ac_length = length body, ac_p = ac_p ctx', ac_app_type = t\<rparr> body"
  using content_sub[of buf ctx' "body @ rest" "length body" t] by simp

lemma sub_within:
  assumes "within buf ctx" "element_get tag buf ok ctx = Inr (Some c, ctx')"
  shows "within buf c"
proof -
  obtain xs where xs: "content buf ctx xs" using assms(1) unfolding within_content by blast
  from element_get_content[OF xs, of tag ok] assms(2) obtain body rest where
    "content buf ctx' (body @ rest)" "c = \<lparr>ac_length = length body, ac_p = ac_p ctx', ac_app_type = 0\<rparr>"
    by (auto split: option.splits if_splits)
  with sub_content[of buf ctx' body rest 0] show ?thesis unfolding within_content by blast
qed

lemma constructed_sub_within:
  assumes "within buf ctx" "asn1_constructed_get buf ok ctx = Inr (Some c, ctx')"
  shows "within buf c"
proof -
  obtain xs where xs: "content buf ctx xs" using assms(1) unfolding within_content by blast
  from constructed_get_content[OF xs, of ok] assms(2) obtain t body rest where
    "content buf ctx' (body @ rest)" "c = \<lparr>ac_length = length body, ac_p = ac_p ctx', ac_app_type = t\<rparr>"
    by (auto split: option.splits if_splits simp del: of_nat_unat)
  with sub_content[of buf ctx' body rest] show ?thesis unfolding within_content by blast
qed

lemma string_within:
  assumes "within buf ctx" "string_get tag buf ctx = Inr (Some (p, n), ctx')"
  shows "0 \<le> p \<and> 0 < n \<and> p + int n \<le> int (length buf)"
proof -
  obtain xs where xs: "content buf ctx xs" using assms(1) unfolding within_content by blast
  from string_get_content[OF xs, of tag] assms(2) obtain body rest where
    c: "content buf ctx' (body @ rest)" "p = ac_p ctx'" "n = length body" "body \<noteq> []"
    by (auto split: option.splits if_splits)
  then have "within buf \<lparr>ac_length = n, ac_p = p, ac_app_type = 0\<rparr>"
    using sub_content[of buf ctx' body rest 0] unfolding within_content by blast
  then show ?thesis using c(3,4) by (simp add: within_def)
qed

section \<open>Theorems\<close>



end
