(* ===== verification/Dsa_Sig.thy ===== *)
theory Dsa_Sig
  imports Mincrypt_P256
begin

text \<open>
  Unpacking of ECDSA signatures, \<^verbatim>\<open>system/core/libmincrypt/dsa_sig.c\<close>. The signature is a buffer of
  exactly the bytes the caller allocated, and reading behind it is a fault. The result holds the
  two numbers when the function returns 1.
\<close>

section \<open>Unpacking\<close>

text \<open>The loop reads the byte before it looks at the number of bytes that are left.\<close>

fun trim_loop :: "u8 list \<Rightarrow> int \<Rightarrow> nat \<Rightarrow> (int \<times> nat) comp" where
  "trim_loop buf src 0 = bindC (byte_at buf src) (\<lambda>_. Inr (src, 0))"
| "trim_loop buf src (Suc src_len) =
     bindC (byte_at buf src) (\<lambda>b. if b = 0 then trim_loop buf (src + 1) src_len else Inr (src, Suc src_len))"

definition trim_to_p256_bytes :: "u8 list \<Rightarrow> int \<Rightarrow> int \<Rightarrow> u8 list option comp" where
  "trim_to_p256_bytes buf src src_len =
     bindC (trim_loop buf src (nat src_len)) (\<lambda>(src1, len1).
       if len1 > P256_NBYTES \<or> len1 < 1 then Inr None
       else bindC (bytes_at buf src1 len1) (\<lambda>bs. Inr (Some (replicate (P256_NBYTES - len1) 0 @ bs))))"

definition dsa_sig_unpack :: "u8 list \<Rightarrow> int \<Rightarrow> (p256_int \<times> p256_int) option comp" where
  "dsa_sig_unpack sig sig_len =
     (if sig_len < 8 then Inr None
      else bindC (byte_at sig 0) (\<lambda>b0. if b0 \<noteq> 0x30 then Inr None
      else bindC (byte_at sig 2) (\<lambda>b2. if b2 \<noteq> 0x02 then Inr None
      else bindC (byte_at sig 1) (\<lambda>seq_len. if seq_len \<le> 0 \<or> seq_len + 2 \<noteq> sig_len then Inr None
      else bindC (byte_at sig 3) (\<lambda>r_len. if r_len < 1 \<or> r_len > seq_len - 5 then Inr None
      else bindC (byte_at sig (4 + r_len)) (\<lambda>t. if t \<noteq> 0x02 then Inr None
      else bindC (byte_at sig (5 + r_len)) (\<lambda>s_len. if s_len < 1 \<or> s_len \<noteq> seq_len - 4 - r_len then Inr None
      else bindC (trim_to_p256_bytes sig 4 r_len) (\<lambda>r. case r of None \<Rightarrow> Inr None | Some r_bytes \<Rightarrow>
           bindC (trim_to_p256_bytes sig (6 + r_len) s_len) (\<lambda>s. case s of None \<Rightarrow> Inr None | Some s_bytes \<Rightarrow>
             Inr (Some (p256_from_bin r_bytes, p256_from_bin s_bytes)))))))))))"

section \<open>The encoding\<close>

text \<open>A signature with the bytes of the two numbers, and when it fits into lengths of one byte.\<close>

definition dsa_encoding :: "u8 list \<Rightarrow> u8 list \<Rightarrow> u8 list" where
  "dsa_encoding rb sb =
     [0x30, of_nat (4 + length rb + length sb), 0x02, of_nat (length rb)] @ rb @ [0x02, of_nat (length sb)] @ sb"

definition dsa_fits :: "u8 list \<Rightarrow> u8 list \<Rightarrow> bool" where
  "dsa_fits rb sb \<longleftrightarrow> 0 < length rb \<and> 0 < length sb \<and> length rb + length sb \<le> 251"

text \<open>What the trimming of the bytes of a number gives.\<close>

definition trimmed :: "u8 list \<Rightarrow> u8 list" where
  "trimmed seg = (let d = dropWhile (\<lambda>b. b = 0) seg in replicate (P256_NBYTES - length d) 0 @ d)"

section \<open>Leading zeros\<close>

lemma trim_loop_eq:
  "trim_loop (pre @ seg @ post) (int (length pre)) (length seg) =
     (let z = takeWhile (\<lambda>b. b = 0) seg
      in if z = seg \<and> post = [] then Inl Out_Of_Bounds
         else Inr (int (length pre + length z), length seg - length z))"
proof (induction seg arbitrary: pre)
  case Nil
  then show ?case by (cases post) (simp_all add: byte_at_def nth_append)
next
  case (Cons b seg)
  have e: "byte_at (pre @ (b # seg) @ post) (int (length pre)) = Inr (int (unat b))"
    using byte_at_split[of pre b "seg @ post"] by simp
  show ?case
  proof (cases "b = 0")
    case True
    then show ?thesis using Cons[of "pre @ [b]"] e by (simp add: Let_def add.commute)
  next
    case False
    then show ?thesis using e by (simp add: unat_eq_zero del: of_nat_unat)
  qed
qed

lemma be_val_trim: "be_val seg = be_val (dropWhile (\<lambda>b. b = 0) seg)"
  by (induction seg) (simp_all add: be_val_Cons)

lemma be_val_trim_bound:
  assumes "dropWhile (\<lambda>b. b = 0) seg \<noteq> []"
  shows "256 ^ (length (dropWhile (\<lambda>b. b = 0) seg) - 1) \<le> be_val seg"
proof -
  obtain b r where d: "dropWhile (\<lambda>b. b = 0) seg = b # r" using assms by (cases "dropWhile (\<lambda>b. b = 0) seg") auto
  then have "b \<noteq> 0" using hd_dropWhile[of "\<lambda>b. b = 0" seg] by simp
  then have "1 \<le> unat b" by (metis One_nat_def Suc_leI gr0I unat_eq_zero)
  then have "256 ^ length r \<le> unat b * 256 ^ length r" by simp
  then show ?thesis unfolding be_val_trim[of seg] d be_val_Cons by (metis diff_Suc_1 length_Cons trans_le_add1)
qed

lemma be_val_zero_iff: "be_val seg = 0 \<longleftrightarrow> dropWhile (\<lambda>b. b = 0) seg = []"
proof
  assume "be_val seg = 0"
  then show "dropWhile (\<lambda>b. b = 0) seg = []" using be_val_trim_bound[of seg] by fastforce
next
  assume "dropWhile (\<lambda>b. b = 0) seg = []"
  then show "be_val seg = 0" unfolding be_val_trim[of seg] by (simp only:) (simp add: be_val_def)
qed

lemma trimmed_val:
  assumes "0 < be_val seg" "be_val seg < 2 ^ 256"
  shows "length (trimmed seg) = 32" "be_val (trimmed seg) = be_val seg" "length (dropWhile (\<lambda>b. b = 0) seg) \<le> 32"
proof -
  define d where "d = dropWhile (\<lambda>b. b = 0) seg"
  have nz: "d \<noteq> []" using assms(1) be_val_zero_iff[of seg] by (simp add: d_def)
  have "256 ^ (length d - 1) < (256 :: nat) ^ 32" using be_val_trim_bound[of seg] nz assms(2) unfolding d_def by simp
  then have "length d - 1 < 32" by (rule power_less_imp_less_exp[rotated]) simp
  then show l: "length (dropWhile (\<lambda>b. b = 0) seg) \<le> 32" unfolding d_def[symmetric] by simp
  show "length (trimmed seg) = 32" using l by (simp add: trimmed_def Let_def P256_NBYTES_def)
  show "be_val (trimmed seg) = be_val seg"
    by (simp add: trimmed_def Let_def be_val_append be_val_zeros flip: be_val_trim)
qed

lemma trim_to_p256_bytes_eq:
  assumes "seg \<noteq> []"
  shows "trim_to_p256_bytes (pre @ seg @ post) (int (length pre)) (int (length seg)) =
    (if be_val seg = 0 then (if post = [] then Inl Out_Of_Bounds else Inr None)
     else if be_val seg < 2 ^ 256 then Inr (Some (trimmed seg)) else Inr None)"
proof -
  define z where "z = takeWhile (\<lambda>b. b = 0) seg"
  define d where "d = dropWhile (\<lambda>b. b = 0) seg"
  have s: "seg = z @ d" by (simp add: z_def d_def)
  have zs: "z = seg \<longleftrightarrow> be_val seg = 0" using s unfolding be_val_zero_iff d_def[symmetric] by (metis append_Nil2 append_self_conv)
  have t: "trim_loop (pre @ seg @ post) (int (length pre)) (length seg) =
      (if be_val seg = 0 \<and> post = [] then Inl Out_Of_Bounds else Inr (int (length pre + length z), length d))"
    using trim_loop_eq[of pre seg post] s unfolding z_def[symmetric] Let_def zs[symmetric] by (metis add_diff_cancel_left' length_append)
  have d0: "length d < 1 \<longleftrightarrow> be_val seg = 0" using be_val_zero_iff[of seg] by (simp add: d_def Suc_leI linorder_not_less[symmetric])
  have big: "be_val seg < 2 ^ 256 \<longleftrightarrow> length d \<le> 32" if "be_val seg \<noteq> 0"
  proof
    assume "length d \<le> 32"
    then have "256 ^ length d \<le> (256 :: nat) ^ 32" by (intro power_increasing) simp_all
    then show "be_val seg < 2 ^ 256" using be_val_less[of d] be_val_trim[of seg] by (simp add: d_def)
  qed (use trimmed_val(3)[of seg] that d_def in simp)
  have b: "bytes_at (pre @ seg @ post) (int (length pre + length z)) (length d) = Inr d"
    by (simp add: bytes_at_def s)
  show ?thesis unfolding trim_to_p256_bytes_def nat_int t
    using d0 big b by (auto simp: P256_NBYTES_def trimmed_def Let_def d_def[symmetric])
qed

section \<open>Signatures\<close>

lemma length_dsa_encoding: "length (dsa_encoding rb sb) = 6 + length rb + length sb"
  by (simp add: dsa_encoding_def)

lemma dsa_sig_unpack_fields:
  assumes "dsa_fits rb sb"
  shows "dsa_sig_unpack (dsa_encoding rb sb) (int (length (dsa_encoding rb sb))) =
    bindC (trim_to_p256_bytes (dsa_encoding rb sb) 4 (int (length rb))) (\<lambda>r. case r of None \<Rightarrow> Inr None | Some r_bytes \<Rightarrow>
      bindC (trim_to_p256_bytes (dsa_encoding rb sb) (6 + int (length rb)) (int (length sb))) (\<lambda>s. case s of None \<Rightarrow> Inr None
        | Some s_bytes \<Rightarrow> Inr (Some (p256_from_bin r_bytes, p256_from_bin s_bytes))))"
proof -
  define E where "E = dsa_encoding rb sb"
  note f = assms[unfolded dsa_fits_def]
  have b: "byte_at E 0 = Inr 0x30" "byte_at E 1 = Inr (4 + int (length rb) + int (length sb))" "byte_at E 2 = Inr 0x02"
    "byte_at E 3 = Inr (int (length rb))"
    using f by (simp_all add: E_def dsa_encoding_def byte_at_def unat_byte nth_Cons' del: of_nat_unat of_nat_add)
  have r: "byte_at E (4 + int (length rb)) = Inr 0x02" "byte_at E (5 + int (length rb)) = Inr (int (length sb))"
    using f by (simp_all add: E_def dsa_encoding_def byte_at_def unat_byte nth_append nat_add_distrib nth_Cons' del: of_nat_unat)
  have ns: "\<not> int (length rb) + int (length sb) < 2" using f by linarith
  have l: "int (length E) = 6 + int (length rb) + int (length sb)" by (simp add: E_def length_dsa_encoding)
  show ?thesis unfolding E_def[symmetric] dsa_sig_unpack_def b bindC_simps l using f r ns by simp
qed

lemma dsa_sig_unpack_format:
  assumes "dsa_sig_unpack sig (int (length sig)) \<noteq> Inr None"
  obtains rb sb where "dsa_fits rb sb" "sig = dsa_encoding rb sb"
proof -
  have "\<not> int (length sig) < 8" using assms by (auto simp: dsa_sig_unpack_def)
  then obtain b0 b1 b2 b3 rest where sig: "sig = b0 # b1 # b2 # b3 # rest"
    by (cases sig; cases "tl sig"; cases "tl (tl sig)"; cases "tl (tl (tl sig))") auto
  define r where "r = unat b3"
  have b: "byte_at sig 0 = Inr (int (unat b0))" "byte_at sig 1 = Inr (int (unat b1))" "byte_at sig 2 = Inr (int (unat b2))"
    "byte_at sig 3 = Inr (int r)" by (simp_all add: sig byte_at_def r_def)
  have c: "int (unat b0) = 0x30" "int (unat b2) = 0x02" "int (unat b1) + 2 = int (length sig)" "1 \<le> r" "int r \<le> int (unat b1) - 5"
    using assms unfolding dsa_sig_unpack_def b bindC_simps
    by (auto split: if_splits simp del: of_nat_unat)
  have lr: "length rest = unat b1 - 2" "r + 3 \<le> length rest" using c(3,5) sig by (simp_all del: of_nat_unat)
  obtain t sl sb where d: "drop r rest = t # sl # sb" "sb \<noteq> []"
  proof -
    have "3 \<le> length (drop r rest)" using lr by simp
    then obtain t sl x sb where "drop r rest = t # sl # x # sb"
      by (cases "drop r rest"; cases "tl (drop r rest)"; cases "tl (tl (drop r rest))") auto
    then show thesis using that by blast
  qed
  define rb where "rb = take r rest"
  have rest: "rest = rb @ t # sl # sb" by (metis append_take_drop_id d(1) rb_def)
  have lrb: "length rb = r" using lr by (simp add: rb_def)
  have b': "byte_at sig (4 + int r) = Inr (int (unat t))" "byte_at sig (5 + int r) = Inr (int (unat sl))"
    using lrb by (simp_all add: sig rest byte_at_def nat_add_distrib nth_append)
  have c': "int (unat t) = 2" "int (unat sl) = int (unat b1) - 4 - int r"
    using assms c unfolding dsa_sig_unpack_def b bindC_simps b'
    by (auto split: if_splits simp del: of_nat_unat)
  have ls: "unat b1 = 4 + length rb + length sb" using lr(1) rest lrb c(3,5) by auto
  have "dsa_fits rb sb" using c(4) lrb d(2) ls unat_u8_less[of b1] by (simp add: dsa_fits_def)
  moreover have "sig = dsa_encoding rb sb"
  proof -
    have "b0 = 0x30" "b2 = 0x02" "t = 0x02" using c(1,2) c'(1) by (simp_all add: word_unat_eq_iff del: of_nat_unat)
    moreover have "b1 = of_nat (4 + length rb + length sb)" unfolding ls[symmetric] by simp
    moreover have "b3 = of_nat (length rb)" unfolding lrb r_def by simp
    moreover have "sl = of_nat (length sb)"
    proof -
      have "unat sl = length sb" using c'(2) ls lrb by (simp del: of_nat_unat)
      then show ?thesis by (simp flip: \<open>unat sl = length sb\<close>)
    qed
    ultimately show ?thesis unfolding sig rest dsa_encoding_def by simp
  qed
  ultimately show thesis by (rule that)
qed

lemma dsa_sig_unpack_encoding:
  assumes "dsa_fits rb sb"
  shows "dsa_sig_unpack (dsa_encoding rb sb) (int (length (dsa_encoding rb sb))) =
    (if be_val rb = 0 \<or> 2 ^ 256 \<le> be_val rb then Inr None
     else if be_val sb = 0 then Inl Out_Of_Bounds
     else if 2 ^ 256 \<le> be_val sb then Inr None
     else Inr (Some (p256_from_bin (trimmed rb), p256_from_bin (trimmed sb))))"
proof -
  define E where "E = dsa_encoding rb sb"
  define pre where "pre = [0x30, of_nat (4 + length rb + length sb), 0x02, of_nat (length rb) :: u8]"
  have n: "rb \<noteq> []" "sb \<noteq> []" using assms by (auto simp: dsa_fits_def)
  have E1: "E = pre @ rb @ ([0x02, of_nat (length sb)] @ sb)" by (simp add: E_def dsa_encoding_def pre_def)
  then have E2: "E = (pre @ rb @ [0x02, of_nat (length sb)]) @ sb @ []" by simp
  have l: "int (length pre) = 4" "int (length (pre @ rb @ [0x02, of_nat (length sb)])) = 6 + int (length rb)"
    by (simp_all add: pre_def)
  have r: "trim_to_p256_bytes E 4 (int (length rb)) =
      (if be_val rb = 0 then Inr None else if be_val rb < 2 ^ 256 then Inr (Some (trimmed rb)) else Inr None)"
    using trim_to_p256_bytes_eq[OF n(1), of pre "[0x02, of_nat (length sb)] @ sb"] unfolding E1[symmetric] l(1) by simp
  have s: "trim_to_p256_bytes E (6 + int (length rb)) (int (length sb)) =
      (if be_val sb = 0 then Inl Out_Of_Bounds else if be_val sb < 2 ^ 256 then Inr (Some (trimmed sb)) else Inr None)"
    using trim_to_p256_bytes_eq[OF n(2), of "pre @ rb @ [0x02, of_nat (length sb)]" "[]"] unfolding E2[symmetric] l(2) by simp
  show ?thesis unfolding dsa_sig_unpack_fields[OF assms] unfolding E_def[symmetric] r s by (simp add: not_less)
qed


text \<open>C27: Unpacking reads behind the end of the buffer exactly when the second integer of a well-formed
  signature is zero: the loop over its zero bytes looks at the next byte before it looks at
  the number of bytes.\<close>

theorem dsa_sig_unpack_overread:
  "dsa_sig_unpack sig (int (length sig)) = Inl Out_Of_Bounds \<longleftrightarrow>
   (\<exists>rb sb. dsa_fits rb sb \<and> sig = dsa_encoding rb sb \<and> 0 < be_val rb \<and> be_val rb < 2 ^ 256 \<and> be_val sb = 0)"
proof
  assume u: "dsa_sig_unpack sig (int (length sig)) = Inl Out_Of_Bounds"
  then obtain rb sb where e: "dsa_fits rb sb" "sig = dsa_encoding rb sb" using dsa_sig_unpack_format[of sig] by auto
  show "\<exists>rb sb. dsa_fits rb sb \<and> sig = dsa_encoding rb sb \<and> 0 < be_val rb \<and> be_val rb < 2 ^ 256 \<and> be_val sb = 0"
    using u e unfolding e(2) dsa_sig_unpack_encoding[OF e(1)] by (auto split: if_splits simp: not_le)
next
  assume "\<exists>rb sb. dsa_fits rb sb \<and> sig = dsa_encoding rb sb \<and> 0 < be_val rb \<and> be_val rb < 2 ^ 256 \<and> be_val sb = 0"
  then show "dsa_sig_unpack sig (int (length sig)) = Inl Out_Of_Bounds" by (auto simp: dsa_sig_unpack_encoding)
qed

end
