(* ===== verification/Spec2Isabelle.thy ===== *)
theory Spec2Isabelle
  imports Minzip_Hash Sparse_Read Mincrypt_Rsa Mincrypt_P256 Asn1_Decoder Dsa_Sig
begin

text \<open>
  A verification library for the Android tree of the Shield TV.
\<close>

end
